(* ===== verification/Em_Prelude.thy ===== *)
theory Em_Prelude
  imports Main "HOL-Library.Word" "HOL-Library.Char_ord" "HOL-Library.List_Lexorder"
begin

text \<open>
  Shared vocabulary of the development: the result type of code that can throw or run into
  undefined behaviour, the parts of \<^verbatim>\<open>std::string\<close> that the sources use (with positions kept as
  64-bit \<^verbatim>\<open>size_t\<close> values, because the code relies on \<^verbatim>\<open>npos\<close> wrapping around), \<^verbatim>\<open>std::set\<close> and
  \<^verbatim>\<open>std::map\<close> as strictly sorted lists, and the collections of rewrite rules that the component
  theories extend.
\<close>

section \<open>Collections of rules\<close>

named_theorems std_simps "laws of the standard-library models"

section \<open>Results: exceptions and undefined behaviour as values\<close>

text \<open>
  \<open>Undefined\<close> stands for the places where the C++ program has no defined behaviour (a null
  dereference, a missing return, an index past the end); the string says which one.
\<close>

datatype exn =
    OutOfRange
  | JsonTypeError nat
  | JsonOutOfRange nat
  | JsonParseError
  | RuntimeError string
  | FutureError string
  | Undefined string

type_synonym 'a res = "exn + 'a"

definition rbind :: "'e + 'a \<Rightarrow> ('a \<Rightarrow> 'e + 'b) \<Rightarrow> 'e + 'b" where
  "rbind r f = (case r of Inl e \<Rightarrow> Inl e | Inr x \<Rightarrow> f x)"

lemma rbind_simps [simp]:
  "rbind (Inl e) f = Inl e"
  "rbind (Inr x) f = f x"
  by (simp_all add: rbind_def)

lemma rbind_Inr_iff [std_simps]: "rbind r f = Inr y \<longleftrightarrow> (\<exists>x. r = Inr x \<and> f x = Inr y)"
  by (cases r) simp_all

lemma rbind_Inl_iff [std_simps]:
  "rbind r f = Inl e \<longleftrightarrow> r = Inl e \<or> (\<exists>x. r = Inr x \<and> f x = Inl e)"
  by (cases r) simp_all

text \<open>\<^verbatim>\<open>std::transform\<close> with a function that can throw: the first exception ends it.\<close>

fun rmap :: "('a \<Rightarrow> 'b res) \<Rightarrow> 'a list \<Rightarrow> 'b list res" where
  "rmap f [] = Inr []"
| "rmap f (x # xs) = rbind (f x) (\<lambda>y. rbind (rmap f xs) (\<lambda>ys. Inr (y # ys)))"

lemma rmap_inverse:
  assumes "\<And>x. x \<in> set xs \<Longrightarrow> f (g x) = Inr x"
  shows "rmap f (map g xs) = Inr xs"
  using assms by (induction xs) simp_all

lemma rmap_Inr_length: "rmap f xs = Inr ys \<Longrightarrow> length ys = length xs"
  by (induction xs arbitrary: ys) (auto simp: std_simps)

lemma rmap_Inr_iff: "rmap f xs = Inr ys \<longleftrightarrow> list_all2 (\<lambda>x y. f x = Inr y) xs ys"
proof (induction xs arbitrary: ys)
  case Nil
  then show ?case by auto
next
  case (Cons x xs)
  then show ?case by (cases ys) (auto simp: std_simps)
qed

section \<open>Machine integers of the sources\<close>

type_synonym size_t = "64 word"
type_synonym uint32 = "32 word"

definition npos :: size_t where
  "npos = - 1"

lemma unat_npos: "unat npos = 2 ^ 64 - 1"
  by (simp add: npos_def unat_eq_nat_uint uint_word_ariths)

lemma npos_plus_1 [simp]: "npos + 1 = 0"
  by (simp add: npos_def)

lemma unat_of_nat_size [simp]: "n < 2 ^ 64 \<Longrightarrow> unat (of_nat n :: size_t) = n"
  by (simp add: unat_of_nat)

lemma of_nat_size_neq_npos: "n < 2 ^ 64 - 1 \<Longrightarrow> (of_nat n :: size_t) \<noteq> npos"
proof
  assume n: "n < 2 ^ 64 - 1" and eq: "(of_nat n :: size_t) = npos"
  from eq have "unat (of_nat n :: size_t) = 2 ^ 64 - 1"
    by (simp only: unat_npos)
  with n show False by simp
qed

text \<open>\<^verbatim>\<open>std::isfinite\<close> of a double with these bits: the exponent is not all ones.\<close>

definition isfinite :: "64 word \<Rightarrow> bool" where
  "isfinite w \<longleftrightarrow> Bit_Operations.and (drop_bit 52 w) 0x7FF \<noteq> 0x7FF"

section \<open>The string operations the sources use\<close>

text \<open>
  Lengths are those of strings that fit in memory: the lemmas assume \<open>length s < 2 ^ 64 - 1\<close>,
  which \<^verbatim>\<open>std::string::max_size\<close> implies.
\<close>

abbreviation str_fits :: "string \<Rightarrow> bool" where
  "str_fits s \<equiv> length s < 2 ^ 64 - 1"

definition str_find_first_of :: "string \<Rightarrow> char \<Rightarrow> size_t" where
  "str_find_first_of s c =
     (if c \<in> set s then of_nat (length (takeWhile (\<lambda>x. x \<noteq> c) s)) else npos)"

text \<open>
  \<^verbatim>\<open>s.find_last_of(c, pos)\<close>: the last occurrence at an index not greater than \<open>pos\<close>. The default
  position is \<open>npos\<close>.
\<close>

definition str_find_last_of :: "string \<Rightarrow> char \<Rightarrow> size_t \<Rightarrow> size_t" where
  "str_find_last_of s c pos =
     (let t = take (Suc (unat pos)) s
      in if c \<in> set t then of_nat (length t - 1 - length (takeWhile (\<lambda>x. x \<noteq> c) (rev t)))
         else npos)"

text \<open>\<^verbatim>\<open>s.substr(pos, n)\<close> throws when \<open>pos\<close> is past the end, and clips \<open>n\<close>.\<close>

definition str_substr :: "string \<Rightarrow> size_t \<Rightarrow> size_t \<Rightarrow> string res" where
  "str_substr s pos n =
     (if length s < unat pos then Inl OutOfRange else Inr (take (unat n) (drop (unat pos) s)))"

text \<open>\<^verbatim>\<open>s.erase(pos, n)\<close>, with the same bounds check.\<close>

definition str_erase :: "string \<Rightarrow> size_t \<Rightarrow> size_t \<Rightarrow> string res" where
  "str_erase s pos n =
     (if length s < unat pos then Inl OutOfRange
      else Inr (take (unat pos) s @ drop (unat pos + unat n) s))"

text \<open>\<^verbatim>\<open>s.find(t) != npos\<close> for a string \<open>t\<close>.\<close>

fun str_prefix :: "string \<Rightarrow> string \<Rightarrow> bool" where
  "str_prefix [] s = True"
| "str_prefix (c # t) [] = False"
| "str_prefix (c # t) (d # s) = (c = d \<and> str_prefix t s)"

fun str_contains :: "string \<Rightarrow> string \<Rightarrow> bool" where
  "str_contains [] t = str_prefix t []"
| "str_contains (c # s) t = (str_prefix t (c # s) \<or> str_contains s t)"

text \<open>\<^verbatim>\<open>std::string{buf}\<close> on a \<^verbatim>\<open>char\<close> buffer: the bytes up to the first NUL.\<close>

definition c_str :: "string \<Rightarrow> string" where
  "c_str buf = takeWhile (\<lambda>c. c \<noteq> CHR 0x00) buf"

lemma str_prefix_iff: "str_prefix t s \<longleftrightarrow> (\<exists>r. s = t @ r)"
  by (induction t s rule: str_prefix.induct) auto

lemma str_contains_iff: "str_contains s t \<longleftrightarrow> (\<exists>p r. s = p @ t @ r)"
proof (induction s)
  case Nil
  then show ?case by (auto simp: str_prefix_iff)
next
  case (Cons c s)
  show ?case
  proof
    assume "str_contains (c # s) t"
    then consider r where "c # s = t @ r" | "str_contains s t"
      by (auto simp: str_prefix_iff)
    then show "\<exists>p r. c # s = p @ t @ r"
    proof cases
      case 1
      then have "c # s = [] @ t @ r" by simp
      then show ?thesis by blast
    next
      case 2
      with Cons.IH obtain p r where "s = p @ t @ r" by blast
      then have "c # s = (c # p) @ t @ r" by simp
      then show ?thesis by blast
    qed
  next
    assume "\<exists>p r. c # s = p @ t @ r"
    then obtain p r where eq: "c # s = p @ t @ r" by blast
    show "str_contains (c # s) t"
    proof (cases p)
      case Nil
      with eq have "str_prefix t (c # s)" by (auto simp: str_prefix_iff)
      then show ?thesis by simp
    next
      case (Cons d p')
      with eq have "s = p' @ t @ r" by simp
      with Cons.IH show ?thesis by auto
    qed
  qed
qed

lemma takeWhile_not_in: "c \<notin> set b \<Longrightarrow> takeWhile (\<lambda>x. x \<noteq> c) (b @ c # r) = b"
  by (induction b) auto

lemma find_first_of_split:
  "c \<notin> set a \<Longrightarrow> str_find_first_of (a @ c # b) c = of_nat (length a)"
  by (simp add: str_find_first_of_def takeWhile_not_in)

lemma find_first_of_absent: "c \<notin> set s \<Longrightarrow> str_find_first_of s c = npos"
  by (simp add: str_find_first_of_def)

lemma find_last_of_absent: "c \<notin> set s \<Longrightarrow> str_find_last_of s c pos = npos"
  by (auto simp: str_find_last_of_def Let_def dest: in_set_takeD)

text \<open>The last occurrence, when everything between it and the position is free of the character.\<close>

lemma find_last_of_split:
  assumes "c \<notin> set b" and "take (Suc (unat pos)) s = a @ c # b"
  shows "str_find_last_of s c pos = of_nat (length a)"
proof -
  have "takeWhile (\<lambda>x. x \<noteq> c) (rev (a @ c # b)) = rev b"
    using assms(1) takeWhile_not_in[of c "rev b" "rev a"] by simp
  then show ?thesis
    by (simp add: str_find_last_of_def Let_def assms(2))
qed

lemma substr_zero_npos: "str_fits s \<Longrightarrow> str_substr s 0 npos = Inr s"
  by (simp add: str_substr_def unat_npos)

section \<open>std::set as a strictly sorted list\<close>

definition std_sorted :: "'a::linorder list \<Rightarrow> bool" where
  "std_sorted xs = sorted_wrt (<) xs"

fun set_insert :: "'a::linorder \<Rightarrow> 'a list \<Rightarrow> 'a list" where
  "set_insert x [] = [x]"
| "set_insert x (y # ys) =
     (if x < y then x # y # ys else if x = y then y # ys else y # set_insert x ys)"

definition set_erase :: "'a::linorder \<Rightarrow> 'a list \<Rightarrow> 'a list" where
  "set_erase x xs = filter (\<lambda>y. y \<noteq> x) xs"

lemma std_sorted_simps [simp]:
  "std_sorted []"
  "std_sorted (x # xs) \<longleftrightarrow> (\<forall>y\<in>set xs. x < y) \<and> std_sorted xs"
  by (auto simp: std_sorted_def)

lemma set_set_insert [simp]: "set (set_insert x xs) = insert x (set xs)"
  by (induction xs) auto

lemma set_set_erase [simp]: "set (set_erase x xs) = set xs - {x}"
  by (auto simp: set_erase_def)

lemma std_sorted_insert [simp, intro]: "std_sorted xs \<Longrightarrow> std_sorted (set_insert x xs)"
  by (induction xs) auto

lemma std_sorted_erase [simp, intro]: "std_sorted xs \<Longrightarrow> std_sorted (set_erase x xs)"
  by (simp add: set_erase_def std_sorted_def sorted_wrt_filter)

lemma set_insert_present: "std_sorted xs \<Longrightarrow> x \<in> set xs \<Longrightarrow> set_insert x xs = xs"
  by (induction xs) auto

lemma std_sorted_eq_iff: "std_sorted xs \<Longrightarrow> std_sorted ys \<Longrightarrow> xs = ys \<longleftrightarrow> set xs = set ys"
  unfolding std_sorted_def by (metis strict_sorted_equal)

lemma std_sorted_distinct: "std_sorted xs \<Longrightarrow> distinct xs"
  unfolding std_sorted_def by (induction xs) auto

section \<open>std::map as a list of pairs sorted by key\<close>

definition map_find :: "'k \<Rightarrow> ('k \<times> 'v) list \<Rightarrow> 'v option" where
  "map_find k m = map_of m k"

fun map_put :: "'k::linorder \<Rightarrow> 'v \<Rightarrow> ('k \<times> 'v) list \<Rightarrow> ('k \<times> 'v) list" where
  "map_put k v [] = [(k, v)]"
| "map_put k v ((a, b) # m) =
     (if k < a then (k, v) # (a, b) # m else if k = a then (k, v) # m else (a, b) # map_put k v m)"

text \<open>\<^verbatim>\<open>m.emplace(k, v)\<close> leaves an existing entry alone.\<close>

definition map_emplace :: "'k::linorder \<Rightarrow> 'v \<Rightarrow> ('k \<times> 'v) list \<Rightarrow> ('k \<times> 'v) list" where
  "map_emplace k v m = (case map_find k m of None \<Rightarrow> map_put k v m | Some _ \<Rightarrow> m)"

text \<open>\<^verbatim>\<open>m[k]\<close> inserts a default value when the key is missing; it returns the value and the map.\<close>

definition map_index :: "'v \<Rightarrow> 'k::linorder \<Rightarrow> ('k \<times> 'v) list \<Rightarrow> 'v \<times> ('k \<times> 'v) list" where
  "map_index d k m = (case map_find k m of None \<Rightarrow> (d, map_put k d m) | Some v \<Rightarrow> (v, m))"

abbreviation std_keys :: "('k \<times> 'v) list \<Rightarrow> 'k list" where
  "std_keys m \<equiv> map fst m"

abbreviation std_map :: "('k::linorder \<times> 'v) list \<Rightarrow> bool" where
  "std_map m \<equiv> std_sorted (std_keys m)"

lemma map_find_put: "std_map m \<Longrightarrow> map_find k' (map_put k v m) = (if k' = k then Some v else map_find k' m)"
proof (induction m)
  case Nil
  then show ?case by (simp add: map_find_def)
next
  case (Cons p m)
  then show ?case by (cases p) (auto simp: map_find_def)
qed

lemma keys_map_put [simp]: "set (std_keys (map_put k v m)) = insert k (set (std_keys m))"
  by (induction k v m rule: map_put.induct) auto

lemma std_map_put [simp, intro]: "std_map m \<Longrightarrow> std_map (map_put k v m)"
proof (induction k v m rule: map_put.induct)
  case (2 k v a b m)
  then show ?case using keys_map_put[of k v m] by (auto simp del: keys_map_put)
qed simp

lemma map_find_None_iff: "map_find k m = None \<longleftrightarrow> k \<notin> set (std_keys m)"
  by (simp add: map_find_def map_of_eq_None_iff)

lemma map_find_SomeD: "map_find k m = Some v \<Longrightarrow> (k, v) \<in> set m"
  by (simp add: map_find_def map_of_SomeD)

lemma map_put_values: "(a, b) \<in> set (map_put k v m) \<Longrightarrow> (a, b) \<in> set m \<or> (a = k \<and> b = v)"
  by (induction k v m rule: map_put.induct) (auto split: if_splits)

lemma map_index_value: "fst (map_index d k m) = (case map_find k m of None \<Rightarrow> d | Some v \<Rightarrow> v)"
  by (simp add: map_index_def split: option.split)

lemma map_index_find:
  "std_map m \<Longrightarrow> map_find k' (snd (map_index d k m)) =
     (if k' = k \<and> map_find k m = None then Some d else map_find k' m)"
  by (auto simp: map_index_def map_find_put split: option.split)

lemma map_index_keys:
  "set (std_keys (snd (map_index d k m))) = insert k (set (std_keys m))"
  using map_find_None_iff[of k m]
  by (auto simp: map_index_def insert_absorb simp del: set_map split: option.split)

lemma map_index_std [simp, intro]: "std_map m \<Longrightarrow> std_map (snd (map_index d k m))"
  by (simp add: map_index_def split: option.split)

lemma map_index_idem:
  "std_map m \<Longrightarrow> map_index d k (snd (map_index d k m)) = (fst (map_index d k m), snd (map_index d k m))"
  by (auto simp: map_index_def map_find_put split: option.split)

lemma map_emplace_find:
  "std_map m \<Longrightarrow> map_find k' (map_emplace k v m) =
     (if k' = k \<and> map_find k m = None then Some v else map_find k' m)"
  by (auto simp: map_emplace_def map_find_put split: option.split)

lemma map_emplace_std [simp, intro]: "std_map m \<Longrightarrow> std_map (map_emplace k v m)"
  by (simp add: map_emplace_def split: option.split)

text \<open>Erasing the entries whose key fails a test, as the iterator loops of the sources do.\<close>

definition map_keep :: "('k \<Rightarrow> bool) \<Rightarrow> ('k \<times> 'v) list \<Rightarrow> ('k \<times> 'v) list" where
  "map_keep p m = filter (\<lambda>(k, v). p k) m"

lemma map_keep_find: "map_find k (map_keep p m) = (if p k then map_find k m else None)"
  by (induction m) (auto simp: map_keep_def map_find_def)

lemma map_keep_keys: "set (std_keys (map_keep p m)) = {k \<in> set (std_keys m). p k}"
  by (auto simp: map_keep_def image_iff)

lemma map_keep_std [simp, intro]: "std_map m \<Longrightarrow> std_map (map_keep p m)"
  by (induction m) (auto simp: map_keep_def)

end
