(* ===== verification/Json.thy ===== *)
theory Json
  imports Em_Prelude
begin

text \<open>
  The part of \<^verbatim>\<open>tools/json/json.hpp\<close> (nlohmann::json) that the program's own code calls: the value
  type, construction from a braced list, \<^verbatim>\<open>at\<close>, \<^verbatim>\<open>find\<close>, \<^verbatim>\<open>operator[]\<close>, \<^verbatim>\<open>clear\<close> and the conversions to
  strings, vectors and enums. An object is a \<^verbatim>\<open>std::map\<close>, so its entries are sorted by key. Numbers keep
  their 64 bits (a \<^verbatim>\<open>double\<close> its bit pattern); the program never computes with them.
\<close>

datatype json =
    JNull
  | JBool bool
  | JInteger "64 word"
  | JUnsigned "64 word"
  | JFloat "64 word"
  | JString string
  | JArray "json list"
  | JObject "(string \<times> json) list"

fun is_object :: "json \<Rightarrow> bool" where
  "is_object (JObject _) = True"
| "is_object _ = False"

section \<open>Construction from an initializer list\<close>

text \<open>
  \<^verbatim>\<open>json{{k, v}, ...}\<close>: when every element is an array of two whose first element is a string, the
  list is an object (the first of two equal keys wins, as \<^verbatim>\<open>emplace\<close> does), otherwise an array.
\<close>

fun is_pair_element :: "json \<Rightarrow> bool" where
  "is_pair_element (JArray [JString k, v]) = True"
| "is_pair_element _ = False"

fun emplace_element :: "json \<Rightarrow> (string \<times> json) list \<Rightarrow> (string \<times> json) list" where
  "emplace_element (JArray [JString k, v]) m = map_emplace k v m"
| "emplace_element _ m = m"

definition json_init :: "json list \<Rightarrow> json" where
  "json_init init =
     (if list_all is_pair_element init then JObject (fold emplace_element init [])
      else JArray init)"

section \<open>Access\<close>

fun json_at :: "json \<Rightarrow> string \<Rightarrow> json res" where
  "json_at (JObject m) key =
     (case map_find key m of None \<Rightarrow> Inl (JsonOutOfRange 403) | Some v \<Rightarrow> Inr v)"
| "json_at _ key = Inl (JsonTypeError 304)"

text \<open>\<^verbatim>\<open>find(key) != cend()\<close>\<close>

fun json_has :: "json \<Rightarrow> string \<Rightarrow> bool" where
  "json_has (JObject m) key = (map_find key m \<noteq> None)"
| "json_has _ key = False"

text \<open>\<^verbatim>\<open>j[key] = v\<close>: a null value becomes an object first.\<close>

fun json_store :: "json \<Rightarrow> string \<Rightarrow> json \<Rightarrow> json res" where
  "json_store JNull key v = Inr (JObject (map_put key v []))"
| "json_store (JObject m) key v = Inr (JObject (map_put key v m))"
| "json_store _ key v = Inl (JsonTypeError 305)"

text \<open>
  The read-only \<^verbatim>\<open>j[key]\<close> asserts that the key exists; without the assertion a missing key is
  undefined.
\<close>

fun json_index :: "json \<Rightarrow> string \<Rightarrow> json res" where
  "json_index (JObject m) key =
     (case map_find key m of None \<Rightarrow> Inl (Undefined ''operator[] const'') | Some v \<Rightarrow> Inr v)"
| "json_index _ key = Inl (JsonTypeError 305)"

fun json_clear :: "json \<Rightarrow> json" where
  "json_clear (JInteger _) = JInteger 0"
| "json_clear (JUnsigned _) = JUnsigned 0"
| "json_clear (JFloat _) = JFloat 0"
| "json_clear (JBool _) = JBool False"
| "json_clear (JString _) = JString []"
| "json_clear (JArray _) = JArray []"
| "json_clear (JObject _) = JObject []"
| "json_clear JNull = JNull"

section \<open>Conversions\<close>

fun get_string :: "json \<Rightarrow> string res" where
  "get_string (JString s) = Inr s"
| "get_string _ = Inl (JsonTypeError 302)"

fun get_vector :: "(json \<Rightarrow> 'a res) \<Rightarrow> json \<Rightarrow> 'a list res" where
  "get_vector get (JArray xs) = rmap get xs"
| "get_vector get _ = Inl (JsonTypeError 302)"

definition put_vector :: "('a \<Rightarrow> json) \<Rightarrow> 'a list \<Rightarrow> json" where
  "put_vector put xs = JArray (map put xs)"

text \<open>
  The two functions that \<^verbatim>\<open>NLOHMANN_JSON_SERIALIZE_ENUM\<close> defines from its table: the first matching
  row, and the first row of the table when there is none.
\<close>

definition enum_to_json :: "('e \<times> json) list \<Rightarrow> 'e \<Rightarrow> json" where
  "enum_to_json tab e =
     (case find (\<lambda>(e', j). e' = e) tab of Some (_, j) \<Rightarrow> j | None \<Rightarrow> snd (hd tab))"

definition enum_from_json :: "('e \<times> json) list \<Rightarrow> json \<Rightarrow> 'e" where
  "enum_from_json tab j =
     (case find (\<lambda>(e, j'). j' = j) tab of Some (e, _) \<Rightarrow> e | None \<Rightarrow> fst (hd tab))"

section \<open>Laws\<close>

abbreviation kv :: "string \<Rightarrow> json \<Rightarrow> json" where
  "kv k v \<equiv> JArray [JString k, v]"

lemma json_init_pairs: "json_init (map (\<lambda>(k, v). kv k v) kvs) = JObject (fold (\<lambda>(k, v). map_emplace k v) kvs [])"
proof -
  have "list_all is_pair_element (map (\<lambda>(k, v). kv k v) kvs)"
    by (induction kvs) auto
  moreover have "fold emplace_element (map (\<lambda>(k, v). kv k v) kvs) m =
      fold (\<lambda>(k, v). map_emplace k v) kvs m" for m
    by (induction kvs arbitrary: m) auto
  ultimately show ?thesis by (simp add: json_init_def)
qed

lemma fold_emplace_std:
  "std_map m \<Longrightarrow> std_map (fold (\<lambda>(k, v). map_emplace k v) kvs m)"
  by (induction kvs arbitrary: m) auto

lemma fold_emplace_find:
  "std_map m \<Longrightarrow> map_find k (fold (\<lambda>(k, v). map_emplace k v) kvs m) =
     (case map_find k m of Some v \<Rightarrow> Some v | None \<Rightarrow> map_of kvs k)"
proof (induction kvs arbitrary: m)
  case Nil
  then show ?case by (simp split: option.split)
next
  case (Cons p kvs)
  obtain k' v' where p: "p = (k', v')" by (cases p)
  from Cons.prems have "std_map (map_emplace k' v' m)" by simp
  from Cons.IH[OF this] Cons.prems show ?case
    by (auto simp: p map_emplace_find split: option.split)
qed

text \<open>Reading back what a braced list stored.\<close>

lemma json_at_init:
  "json_at (json_init (map (\<lambda>(k, v). kv k v) kvs)) key =
     (case map_of kvs key of None \<Rightarrow> Inl (JsonOutOfRange 403) | Some v \<Rightarrow> Inr v)"
  using fold_emplace_find[of "[]" key kvs]
  by (simp add: json_init_pairs map_find_def split: option.split)

lemma json_at_init1: "json_at (json_init [kv k v]) key = (if key = k then Inr v else Inl (JsonOutOfRange 403))"
  using json_at_init[of "[(k, v)]" key] by simp

lemma json_at_init2:
  "json_at (json_init [kv k v, kv k' v']) key =
     (if key = k then Inr v else if key = k' then Inr v' else Inl (JsonOutOfRange 403))"
  using json_at_init[of "[(k, v), (k', v')]" key] by simp

lemma json_at_init3:
  "json_at (json_init [kv k v, kv k' v', kv k'' v'']) key =
     (if key = k then Inr v else if key = k' then Inr v' else if key = k'' then Inr v''
      else Inl (JsonOutOfRange 403))"
  using json_at_init[of "[(k, v), (k', v'), (k'', v'')]" key] by simp

lemmas json_at_inits = json_at_init1 json_at_init2 json_at_init3

lemma get_put_vector:
  "(\<And>x. x \<in> set xs \<Longrightarrow> get (put x) = Inr x) \<Longrightarrow> get_vector get (put_vector put xs) = Inr xs"
  by (simp add: put_vector_def rmap_inverse)

lemma enum_round_trip:
  assumes "distinct (map snd tab)" "e \<in> set (map fst tab)"
  shows "enum_from_json tab (enum_to_json tab e) = e"
proof -
  from assms(2) have "\<exists>j. find (\<lambda>(e', j). e' = e) tab = Some (e, j)"
    by (induction tab) auto
  then obtain j where j: "find (\<lambda>(e', j). e' = e) tab = Some (e, j)" ..
  then have "(e, j) \<in> set tab" by (auto simp: find_Some_iff in_set_conv_nth)
  with assms(1) have "find (\<lambda>(e, j'). j' = j) tab = Some (e, j)"
  proof (induction tab)
    case Nil
    then show ?case by simp
  next
    case (Cons p tab)
    then show ?case by (cases p) force
  qed
  with j show ?thesis by (simp add: enum_to_json_def enum_from_json_def)
qed

lemma json_store_at: "json_store j k v = Inr j' \<Longrightarrow> is_object j' \<and> json_has j' k"
  by (cases j) (auto simp: map_find_def map_of_eq_None_iff[unfolded set_map] dest: arg_cong[where f = set]
      simp flip: map_find_def simp: map_find_None_iff simp del: set_map)

end
