(* ===== verification/Json_Lexer.thy ===== *)
theory Json_Lexer
  imports Json
begin

text \<open>
  The lexer of \<^verbatim>\<open>tools/json/json.hpp\<close> (class \<open>lexer\<close>), which reads the manifests and the file of the
  key-value storage: one definition per scan function, every get and unget of the source included.
  The input adapter is the list of the bytes still to be delivered; \<open>None\<close> as current character is
  \<^verbatim>\<open>eof()\<close>. Positions and token strings serve only error messages and are left out, except for the
  number of characters read, which decides whether a byte order mark is looked for. \<^verbatim>\<open>strtod\<close> is a
  parameter. The decimal point is that of the C locale, which the program never changes.
\<close>

unbundle bit_operations_syntax

section \<open>State\<close>

datatype token_type =
    uninitialized
  | literal_true
  | literal_false
  | literal_null
  | value_string
  | value_unsigned
  | value_integer
  | value_float
  | begin_array
  | begin_object
  | end_array
  | end_object
  | name_separator
  | value_separator
  | parse_error
  | end_of_input
  | literal_or_value

record lexer =
  lx_input :: string
  lx_current :: "char option"
  lx_next_unget :: bool
  lx_chars_read_total :: nat
  lx_token_buffer :: string
  lx_value_integer :: "64 word"
  lx_value_unsigned :: "64 word"
  lx_value_float :: "64 word"

definition lexer_init :: "string \<Rightarrow> lexer" where
  "lexer_init text =
     \<lparr>lx_input = text, lx_current = None, lx_next_unget = False, lx_chars_read_total = 0,
      lx_token_buffer = [], lx_value_integer = 0, lx_value_unsigned = 0, lx_value_float = 0\<rparr>"

abbreviation byte_of :: "char \<Rightarrow> nat" where
  "byte_of c \<equiv> of_char c"

section \<open>Input management\<close>

definition lx_reset :: "lexer \<Rightarrow> lexer" where
  "lx_reset lx = lx\<lparr>lx_token_buffer := []\<rparr>"

definition lx_get :: "lexer \<Rightarrow> lexer" where
  "lx_get lx =
     (let lx1 = lx\<lparr>lx_chars_read_total := Suc (lx_chars_read_total lx)\<rparr>
      in if lx_next_unget lx1 then lx1\<lparr>lx_next_unget := False\<rparr>
         else (case lx_input lx1 of
                 [] \<Rightarrow> lx1\<lparr>lx_current := None\<rparr>
               | c # cs \<Rightarrow> lx1\<lparr>lx_current := Some c, lx_input := cs\<rparr>))"

definition lx_unget :: "lexer \<Rightarrow> lexer" where
  "lx_unget lx =
     lx\<lparr>lx_next_unget := True, lx_chars_read_total := lx_chars_read_total lx - 1\<rparr>"

definition lx_add :: "char \<Rightarrow> lexer \<Rightarrow> lexer" where
  "lx_add c lx = lx\<lparr>lx_token_buffer := lx_token_buffer lx @ [c]\<rparr>"

section \<open>Strings\<close>

text \<open>One hexadecimal digit of \<open>get_codepoint\<close>.\<close>

definition hex_value :: "char option \<Rightarrow> uint32 option" where
  "hex_value current =
     (case current of
        None \<Rightarrow> None
      | Some c \<Rightarrow>
          let b = byte_of c
          in if 0x30 \<le> b \<and> b \<le> 0x39 then Some (of_nat b - 0x30)
             else if 0x41 \<le> b \<and> b \<le> 0x46 then Some (of_nat b - 0x37)
             else if 0x61 \<le> b \<and> b \<le> 0x66 then Some (of_nat b - 0x57)
             else None)"

fun get_codepoint_loop :: "nat list \<Rightarrow> uint32 \<Rightarrow> lexer \<Rightarrow> uint32 option \<times> lexer" where
  "get_codepoint_loop [] codepoint lx = (Some codepoint, lx)"
| "get_codepoint_loop (factor # factors) codepoint lx =
     (let lx1 = lx_get lx
      in case hex_value (lx_current lx1) of
           None \<Rightarrow> (None, lx1)
         | Some v \<Rightarrow> get_codepoint_loop factors (codepoint + push_bit factor v) lx1)"

definition get_codepoint :: "lexer \<Rightarrow> uint32 option \<times> lexer" where
  "get_codepoint lx = get_codepoint_loop [12, 8, 4, 0] 0 lx"

fun bytes_in_ranges :: "(nat \<times> nat) list \<Rightarrow> lexer \<Rightarrow> bool \<times> lexer" where
  "bytes_in_ranges [] lx = (True, lx)"
| "bytes_in_ranges ((lo, hi) # ranges) lx =
     (let lx1 = lx_get lx
      in case lx_current lx1 of
           None \<Rightarrow> (False, lx1)
         | Some c \<Rightarrow>
             if lo \<le> byte_of c \<and> byte_of c \<le> hi then bytes_in_ranges ranges (lx_add c lx1)
             else (False, lx1))"

text \<open>The current byte is added first; \<open>None\<close> tells the loop of \<open>scan_string\<close> to go on.\<close>

definition next_byte_in_range ::
    "char \<Rightarrow> (nat \<times> nat) list \<Rightarrow> lexer \<Rightarrow> token_type option \<times> lexer" where
  "next_byte_in_range current ranges lx =
     (let (ok, lx1) = bytes_in_ranges ranges (lx_add current lx)
      in (if ok then None else Some parse_error, lx1))"

text \<open>\<open>add(int)\<close> keeps the low byte.\<close>

definition lx_add_int :: "uint32 \<Rightarrow> lexer \<Rightarrow> lexer" where
  "lx_add_int w lx = lx_add (char_of (unat w)) lx"

definition add_codepoint :: "uint32 \<Rightarrow> lexer \<Rightarrow> lexer" where
  "add_codepoint codepoint lx =
     (if codepoint < 0x80 then lx_add_int codepoint lx
      else if codepoint \<le> 0x7FF
      then lx_add_int (0x80 OR (codepoint AND 0x3F)) (lx_add_int (0xC0 OR drop_bit 6 codepoint) lx)
      else if codepoint \<le> 0xFFFF
      then lx_add_int (0x80 OR (codepoint AND 0x3F))
             (lx_add_int (0x80 OR (drop_bit 6 codepoint AND 0x3F))
               (lx_add_int (0xE0 OR drop_bit 12 codepoint) lx))
      else lx_add_int (0x80 OR (codepoint AND 0x3F))
             (lx_add_int (0x80 OR (drop_bit 6 codepoint AND 0x3F))
               (lx_add_int (0x80 OR (drop_bit 12 codepoint AND 0x3F))
                 (lx_add_int (0xF0 OR drop_bit 18 codepoint) lx))))"

text \<open>The case \<^verbatim>\<open>'u'\<close>: a surrogate must be followed by its partner.\<close>

definition scan_unicode :: "lexer \<Rightarrow> token_type option \<times> lexer" where
  "scan_unicode lx =
     (case get_codepoint lx of
        (None, lx1) \<Rightarrow> (Some parse_error, lx1)
      | (Some codepoint1, lx1) \<Rightarrow>
          if 0xD800 \<le> codepoint1 \<and> codepoint1 \<le> 0xDBFF
          then (let lx2 = lx_get lx1
                in if lx_current lx2 \<noteq> Some (CHR 0x5C) then (Some parse_error, lx2)
                   else let lx3 = lx_get lx2
                        in if lx_current lx3 \<noteq> Some (CHR ''u'') then (Some parse_error, lx3)
                           else (case get_codepoint lx3 of
                                   (None, lx4) \<Rightarrow> (Some parse_error, lx4)
                                 | (Some codepoint2, lx4) \<Rightarrow>
                                     if 0xDC00 \<le> codepoint2 \<and> codepoint2 \<le> 0xDFFF
                                     then (None, add_codepoint
                                             (push_bit 10 codepoint1 + codepoint2 - 0x35FDC00) lx4)
                                     else (Some parse_error, lx4)))
          else if 0xDC00 \<le> codepoint1 \<and> codepoint1 \<le> 0xDFFF then (Some parse_error, lx1)
          else (None, add_codepoint codepoint1 lx1))"

definition scan_escape :: "lexer \<Rightarrow> token_type option \<times> lexer" where
  "scan_escape lx =
     (let lx1 = lx_get lx
      in case lx_current lx1 of
           None \<Rightarrow> (Some parse_error, lx1)
         | Some c \<Rightarrow>
             if c = CHR 0x22 then (None, lx_add (CHR 0x22) lx1)
             else if c = CHR 0x5C then (None, lx_add (CHR 0x5C) lx1)
             else if c = CHR ''/'' then (None, lx_add (CHR ''/'') lx1)
             else if c = CHR ''b'' then (None, lx_add (CHR 0x08) lx1)
             else if c = CHR ''f'' then (None, lx_add (CHR 0x0C) lx1)
             else if c = CHR ''n'' then (None, lx_add (CHR 0x0A) lx1)
             else if c = CHR ''r'' then (None, lx_add (CHR 0x0D) lx1)
             else if c = CHR ''t'' then (None, lx_add (CHR 0x09) lx1)
             else if c = CHR ''u'' then scan_unicode lx1
             else (Some parse_error, lx1))"

text \<open>The three groups of cases for other bytes: control characters, ASCII, and the rest.\<close>

definition is_control_byte :: "nat \<Rightarrow> bool" where
  "is_control_byte b \<longleftrightarrow> b \<le> 0x1F"

definition is_ascii_byte :: "nat \<Rightarrow> bool" where
  "is_ascii_byte b \<longleftrightarrow> 0x20 \<le> b \<and> b \<le> 0x7F \<and> b \<noteq> 0x22 \<and> b \<noteq> 0x5C"

definition scan_multibyte :: "char \<Rightarrow> lexer \<Rightarrow> token_type option \<times> lexer" where
  "scan_multibyte c lx =
     (let b = byte_of c
      in if 0xC2 \<le> b \<and> b \<le> 0xDF then next_byte_in_range c [(0x80, 0xBF)] lx
         else if b = 0xE0 then next_byte_in_range c [(0xA0, 0xBF), (0x80, 0xBF)] lx
         else if 0xE1 \<le> b \<and> b \<le> 0xEC \<or> 0xEE \<le> b \<and> b \<le> 0xEF
         then next_byte_in_range c [(0x80, 0xBF), (0x80, 0xBF)] lx
         else if b = 0xED then next_byte_in_range c [(0x80, 0x9F), (0x80, 0xBF)] lx
         else if b = 0xF0
         then next_byte_in_range c [(0x90, 0xBF), (0x80, 0xBF), (0x80, 0xBF)] lx
         else if 0xF1 \<le> b \<and> b \<le> 0xF3
         then next_byte_in_range c [(0x80, 0xBF), (0x80, 0xBF), (0x80, 0xBF)] lx
         else if b = 0xF4
         then next_byte_in_range c [(0x80, 0x8F), (0x80, 0xBF), (0x80, 0xBF)] lx
         else (Some parse_error, lx))"

text \<open>One iteration of the loop of \<open>scan_string\<close>.\<close>

definition scan_string_body :: "lexer \<Rightarrow> token_type option \<times> lexer" where
  "scan_string_body lx =
     (let lx1 = lx_get lx
      in case lx_current lx1 of
           None \<Rightarrow> (Some parse_error, lx1)
         | Some c \<Rightarrow>
             if c = CHR 0x22 then (Some value_string, lx1)
             else if c = CHR 0x5C then scan_escape lx1
             else if is_control_byte (byte_of c) then (Some parse_error, lx1)
             else if is_ascii_byte (byte_of c) then (None, lx_add c lx1)
             else scan_multibyte c lx1)"

lemmas scan_string_cases = scan_string_body_def scan_multibyte_def is_control_byte_def is_ascii_byte_def Let_def

section \<open>Reading always makes progress\<close>

text \<open>How many characters \<open>lx_get\<close> can still deliver.\<close>

definition remaining :: "lexer \<Rightarrow> nat" where
  "remaining lx =
     length (lx_input lx) + (if lx_next_unget lx \<and> lx_current lx \<noteq> None then 1 else 0)"

lemma remaining_get [simp]: "remaining (lx_get lx) \<le> remaining lx"
  by (auto simp: remaining_def lx_get_def Let_def split: list.split)

lemmas remaining_get_trans [intro] = order_trans[OF _ remaining_get]

lemma get_not_eof: "lx_current (lx_get lx) = Some c \<Longrightarrow> remaining (lx_get lx) < remaining lx"
  by (auto simp: remaining_def lx_get_def Let_def split: list.splits if_splits)

lemma get_clears_unget [simp]: "lx_next_unget (lx_get lx) = False"
  by (auto simp: lx_get_def Let_def split: list.split)

lemma remaining_updates [simp]:
  "remaining (lx\<lparr>lx_token_buffer := b\<rparr>) = remaining lx"
  "remaining (lx\<lparr>lx_value_integer := i\<rparr>) = remaining lx"
  "remaining (lx\<lparr>lx_value_unsigned := u\<rparr>) = remaining lx"
  "remaining (lx\<lparr>lx_value_float := f\<rparr>) = remaining lx"
  by (simp_all add: remaining_def)

lemma remaining_add [simp]:
  "remaining (lx_add c lx) = remaining lx"
  "remaining (lx_add_int w lx) = remaining lx"
  "remaining (lx_reset lx) = remaining lx"
  "remaining (add_codepoint cp lx) = remaining lx"
  by (simp_all add: lx_add_def lx_add_int_def lx_reset_def add_codepoint_def)

lemma remaining_unget_get: "remaining (lx_unget (lx_get lx)) \<le> remaining lx"
  by (auto simp: remaining_def lx_get_def lx_unget_def Let_def split: list.split)

lemma remaining_codepoint_loop:
  "get_codepoint_loop fs cp lx = (r, lx') \<Longrightarrow> remaining lx' \<le> remaining lx"
proof (induction fs cp lx rule: get_codepoint_loop.induct)
  case (2 f fs cp lx)
  show ?case
  proof (cases "hex_value (lx_current (lx_get lx))")
    case None
    with "2.prems" show ?thesis by (auto simp: Let_def)
  next
    case (Some v)
    with "2.prems" have "get_codepoint_loop fs (cp + push_bit f v) (lx_get lx) = (r, lx')"
      by (simp add: Let_def)
    from "2.IH"[OF refl Some this] show ?thesis by (rule remaining_get_trans)
  qed
qed simp

lemma remaining_codepoint: "get_codepoint lx = (r, lx') \<Longrightarrow> remaining lx' \<le> remaining lx"
  unfolding get_codepoint_def by (rule remaining_codepoint_loop)

lemma remaining_ranges: "bytes_in_ranges rs lx = (r, lx') \<Longrightarrow> remaining lx' \<le> remaining lx"
  by (induction rs lx rule: bytes_in_ranges.induct)
    (fastforce simp: Let_def split: option.splits if_splits)+

lemma remaining_in_range:
  "next_byte_in_range c rs lx = (r, lx') \<Longrightarrow> remaining lx' \<le> remaining lx"
  by (auto simp: next_byte_in_range_def split: prod.splits dest: remaining_ranges)

lemma remaining_unicode:
  assumes "scan_unicode lx = (r, lx')"
  shows "remaining lx' \<le> remaining lx"
proof -
  obtain cp1 lx1 where cp1: "get_codepoint lx = (cp1, lx1)" by force
  obtain cp2 lx4 where cp2: "get_codepoint (lx_get (lx_get lx1)) = (cp2, lx4)" by force
  note chain = remaining_codepoint[OF cp1] remaining_codepoint[OF cp2] remaining_get[of lx1]
    remaining_get[of "lx_get lx1"]
  have "lx' \<in> {lx1, lx_get lx1, lx_get (lx_get lx1), lx4} \<or> (\<exists>cp l. l \<in> {lx1, lx4} \<and> lx' = add_codepoint cp l)"
    using assms by (auto simp: scan_unicode_def Let_def cp1 cp2 split: option.splits if_splits)
  with chain show ?thesis by (auto simp del: remaining_get)
qed

lemma remaining_escape: "scan_escape lx = (r, lx') \<Longrightarrow> remaining lx' \<le> remaining lx"
  by (fastforce simp: scan_escape_def Let_def dest: remaining_unicode
      split: option.splits if_splits)

lemma remaining_string_body:
  assumes "scan_string_body lx = (r, lx')"
  shows "remaining lx' \<le> remaining lx \<and> (r = None \<longrightarrow> remaining lx' < remaining lx)"
proof (cases "lx_current (lx_get lx)")
  case None
  with assms show ?thesis by (auto simp: scan_string_cases)
next
  case (Some c)
  have "remaining lx' \<le> remaining (lx_get lx)"
    using assms Some unfolding scan_string_cases
    by (auto split: if_splits dest: remaining_escape remaining_in_range)
  with get_not_eof[OF Some] show ?thesis by simp
qed

function (sequential) scan_string_loop :: "lexer \<Rightarrow> token_type \<times> lexer" where
  "scan_string_loop lx =
     (case scan_string_body lx of
        (Some token, lx1) \<Rightarrow> (token, lx1)
      | (None, lx1) \<Rightarrow> scan_string_loop lx1)"
  by pat_completeness auto
termination
  by (relation "measure remaining") (auto dest: sym[THEN remaining_string_body])

declare scan_string_loop.simps [simp del]

definition scan_string :: "lexer \<Rightarrow> token_type \<times> lexer" where
  "scan_string lx = scan_string_loop (lx_reset lx)"

section \<open>Numbers\<close>

text \<open>
  The labels of \<open>scan_number\<close>, and where each of them goes for the next character: to another
  label (adding the character), to the end, or to an error.
\<close>

datatype number_label = n_minus | n_zero | n_any1 | n_decimal1 | n_decimal2 | n_exponent | n_sign | n_any2

datatype number_target = Goto number_label | NumberDone | NumberError

definition dec_digit :: "char \<Rightarrow> bool" where
  "dec_digit c \<longleftrightarrow> 0x30 \<le> byte_of c \<and> byte_of c \<le> 0x39"

fun number_jump :: "number_label \<Rightarrow> char \<Rightarrow> number_target" where
  "number_jump n_minus c =
     (if c = CHR ''0'' then Goto n_zero else if dec_digit c then Goto n_any1 else NumberError)"
| "number_jump n_zero c =
     (if c = CHR ''.'' then Goto n_decimal1
      else if c = CHR ''e'' \<or> c = CHR ''E'' then Goto n_exponent else NumberDone)"
| "number_jump n_any1 c =
     (if dec_digit c then Goto n_any1 else if c = CHR ''.'' then Goto n_decimal1
      else if c = CHR ''e'' \<or> c = CHR ''E'' then Goto n_exponent else NumberDone)"
| "number_jump n_decimal1 c = (if dec_digit c then Goto n_decimal2 else NumberError)"
| "number_jump n_decimal2 c =
     (if dec_digit c then Goto n_decimal2
      else if c = CHR ''e'' \<or> c = CHR ''E'' then Goto n_exponent else NumberDone)"
| "number_jump n_exponent c =
     (if c = CHR ''+'' \<or> c = CHR ''-'' then Goto n_sign
      else if dec_digit c then Goto n_any2 else NumberError)"
| "number_jump n_sign c = (if dec_digit c then Goto n_any2 else NumberError)"
| "number_jump n_any2 c = (if dec_digit c then Goto n_any2 else NumberDone)"

text \<open>What the labels do at the end of the input.\<close>

fun number_eof :: "number_label \<Rightarrow> number_target" where
  "number_eof n_minus = NumberError"
| "number_eof n_zero = NumberDone"
| "number_eof n_any1 = NumberDone"
| "number_eof n_decimal1 = NumberError"
| "number_eof n_decimal2 = NumberDone"
| "number_eof n_exponent = NumberError"
| "number_eof n_sign = NumberError"
| "number_eof n_any2 = NumberDone"

text \<open>The assignments to \<^verbatim>\<open>number_type\<close> at the labels.\<close>

fun number_type_at :: "number_label \<Rightarrow> token_type \<Rightarrow> token_type" where
  "number_type_at n_minus number_type = value_integer"
| "number_type_at n_decimal1 number_type = value_float"
| "number_type_at n_exponent number_type = value_float"
| "number_type_at l number_type = number_type"

function (sequential) scan_number_from ::
    "number_label \<Rightarrow> token_type \<Rightarrow> lexer \<Rightarrow> token_type option \<times> lexer" where
  "scan_number_from l number_type lx =
     (let number_type1 = number_type_at l number_type;
          lx1 = lx_get lx
      in case lx_current lx1 of
           None \<Rightarrow> (if number_eof l = NumberDone then Some number_type1 else None, lx1)
         | Some c \<Rightarrow>
             (case number_jump l c of
                Goto l' \<Rightarrow> scan_number_from l' number_type1 (lx_add c lx1)
              | NumberDone \<Rightarrow> (Some number_type1, lx1)
              | NumberError \<Rightarrow> (None, lx1)))"
  by pat_completeness auto
termination
  by (relation "measure (\<lambda>(_, _, lx). remaining lx)") (auto dest: get_not_eof)

declare scan_number_from.simps [simp del]

text \<open>
  \<^verbatim>\<open>strtoull\<close> and \<^verbatim>\<open>strtoll\<close> on a buffer that holds digits (after a minus sign): the value, or
  \<open>None\<close> when \<^verbatim>\<open>errno\<close> becomes \<^verbatim>\<open>ERANGE\<close>.
\<close>

definition decimal_value :: "string \<Rightarrow> nat" where
  "decimal_value digits = foldl (\<lambda>n c. 10 * n + (byte_of c - 0x30)) 0 digits"

definition strtoull :: "string \<Rightarrow> 64 word option" where
  "strtoull buffer =
     (let x = decimal_value buffer in if x < 2 ^ 64 then Some (of_nat x) else None)"

definition strtoll :: "string \<Rightarrow> 64 word option" where
  "strtoll buffer =
     (let x = decimal_value (tl buffer) in if x \<le> 2 ^ 63 then Some (- of_nat x) else None)"

definition scan_number_done :: "(string \<Rightarrow> 64 word) \<Rightarrow> token_type \<Rightarrow> lexer \<Rightarrow> token_type \<times> lexer" where
  "scan_number_done strtod number_type lx =
     (let lx1 = lx_unget lx;
          buffer = lx_token_buffer lx1;
          float = (value_float, lx1\<lparr>lx_value_float := strtod buffer\<rparr>)
      in if number_type = value_unsigned
         then (case strtoull buffer of
                 Some x \<Rightarrow> (value_unsigned, lx1\<lparr>lx_value_unsigned := x\<rparr>) | None \<Rightarrow> float)
         else if number_type = value_integer
         then (case strtoll buffer of
                 Some x \<Rightarrow> (value_integer, lx1\<lparr>lx_value_integer := x\<rparr>) | None \<Rightarrow> float)
         else float)"

text \<open>The function is called only when the current character is a minus sign or a digit.\<close>

definition scan_number :: "(string \<Rightarrow> 64 word) \<Rightarrow> char \<Rightarrow> lexer \<Rightarrow> token_type \<times> lexer" where
  "scan_number strtod current lx =
     (let l = (if current = CHR ''-'' then n_minus
               else if current = CHR ''0'' then n_zero else n_any1)
      in case scan_number_from l value_unsigned (lx_add current (lx_reset lx)) of
           (None, lx1) \<Rightarrow> (parse_error, lx1)
         | (Some number_type, lx1) \<Rightarrow> scan_number_done strtod number_type lx1)"

section \<open>Literals and the scanner\<close>

text \<open>\<open>expected\<close> are the characters of the literal after the first.\<close>

fun scan_literal :: "string \<Rightarrow> token_type \<Rightarrow> lexer \<Rightarrow> token_type \<times> lexer" where
  "scan_literal [] return_type lx = (return_type, lx)"
| "scan_literal (c # expected) return_type lx =
     (let lx1 = lx_get lx
      in if lx_current lx1 \<noteq> Some c then (parse_error, lx1)
         else scan_literal expected return_type lx1)"

definition skip_bom :: "lexer \<Rightarrow> bool \<times> lexer" where
  "skip_bom lx =
     (let lx1 = lx_get lx
      in if lx_current lx1 = Some (CHR 0xEF)
         then (let lx2 = lx_get lx1
               in if lx_current lx2 \<noteq> Some (CHR 0xBB) then (False, lx2)
                  else let lx3 = lx_get lx2 in (lx_current lx3 = Some (CHR 0xBF), lx3))
         else (True, lx_unget lx1))"

definition is_json_space :: "char \<Rightarrow> bool" where
  "is_json_space c \<longleftrightarrow> c = CHR '' '' \<or> c = CHR 0x09 \<or> c = CHR 0x0A \<or> c = CHR 0x0D"

function (sequential) skip_spaces :: "lexer \<Rightarrow> lexer" where
  "skip_spaces lx =
     (let lx1 = lx_get lx
      in case lx_current lx1 of
           None \<Rightarrow> lx1
         | Some c \<Rightarrow> if is_json_space c then skip_spaces lx1 else lx1)"
  by pat_completeness auto
termination
  by (relation "measure remaining") (auto dest: get_not_eof)

declare skip_spaces.simps [simp del]

definition scan_current :: "(string \<Rightarrow> 64 word) \<Rightarrow> lexer \<Rightarrow> token_type \<times> lexer" where
  "scan_current strtod lx =
     (case lx_current lx of
        None \<Rightarrow> (end_of_input, lx)
      | Some c \<Rightarrow>
          if c = CHR ''['' then (begin_array, lx)
          else if c = CHR '']'' then (end_array, lx)
          else if c = CHR ''{'' then (begin_object, lx)
          else if c = CHR ''}'' then (end_object, lx)
          else if c = CHR '':'' then (name_separator, lx)
          else if c = CHR '','' then (value_separator, lx)
          else if c = CHR ''t'' then scan_literal ''rue'' literal_true lx
          else if c = CHR ''f'' then scan_literal ''alse'' literal_false lx
          else if c = CHR ''n'' then scan_literal ''ull'' literal_null lx
          else if c = CHR 0x22 then scan_string lx
          else if c = CHR ''-'' \<or> dec_digit c then scan_number strtod c lx
          else if c = CHR 0x00 then (end_of_input, lx)
          else (parse_error, lx))"

definition scan :: "(string \<Rightarrow> 64 word) \<Rightarrow> lexer \<Rightarrow> token_type \<times> lexer" where
  "scan strtod lx =
     (case (if lx_chars_read_total lx = 0 then skip_bom lx else (True, lx)) of
        (False, lx1) \<Rightarrow> (parse_error, lx1)
      | (True, lx1) \<Rightarrow> scan_current strtod (skip_spaces lx1))"

end
