(* ===== verification/Json_Parser.thy ===== *)
theory Json_Parser
  imports Json_Lexer
begin

text \<open>
  The parser of \<^verbatim>\<open>tools/json/json.hpp\<close> (class \<open>parser\<close>) with the two handlers of its events that the
  program uses: \<open>json_sax_acceptor\<close> (behind \<^verbatim>\<open>json::accept\<close>) and \<open>json_sax_dom_parser\<close> (behind
  \<^verbatim>\<open>operator>>\<close>), which builds the value through pointers into the tree. Both are used with exceptions
  enabled and without a callback.
\<close>

section \<open>Events and handlers\<close>

datatype sax_event =
    SaxNull
  | SaxBoolean bool
  | SaxInteger "64 word"
  | SaxUnsigned "64 word"
  | SaxFloat "64 word"
  | SaxString string
  | SaxStartObject
  | SaxKey string
  | SaxEndObject
  | SaxStartArray
  | SaxEndArray

text \<open>
  A handler with state \<open>'s\<close>: the member functions for the events and \<^verbatim>\<open>parse_error\<close>. Each returns
  whether to go on, or throws.
\<close>

record 's sax =
  sax_on :: "sax_event \<Rightarrow> 's \<Rightarrow> (bool \<times> 's) res"
  sax_parse_error :: "exn \<Rightarrow> 's \<Rightarrow> (bool \<times> 's) res"

definition json_sax_acceptor :: "unit sax" where
  "json_sax_acceptor =
     \<lparr>sax_on = (\<lambda>_ s. Inr (True, s)), sax_parse_error = (\<lambda>_ s. Inr (False, s))\<rparr>"

section \<open>Parsing\<close>

text \<open>\<^verbatim>\<open>states\<close> has its last element first: \<open>True\<close> for an array, \<open>False\<close> for an object.\<close>

record 's parser =
  p_lexer :: lexer
  p_last_token :: token_type
  p_states :: "bool list"
  p_skip :: bool
  p_sax :: 's

definition get_token :: "(string \<Rightarrow> 64 word) \<Rightarrow> 's parser \<Rightarrow> 's parser" where
  "get_token strtod p =
     (let (token, lx) = scan strtod (p_lexer p) in p\<lparr>p_lexer := lx, p_last_token := token\<rparr>)"

text \<open>How control leaves a part of the loop: the rest of the body follows, \<^verbatim>\<open>continue\<close>, or \<^verbatim>\<open>return\<close>.\<close>

datatype 'p flow = Fall 'p | Continue 'p | Return bool 'p

definition sax_emit ::
    "'s sax \<Rightarrow> sax_event \<Rightarrow> 's parser \<Rightarrow> ('s parser \<Rightarrow> 's parser flow res) \<Rightarrow> 's parser flow res" where
  "sax_emit h ev p k =
     rbind (sax_on h ev (p_sax p)) (\<lambda>(ok, s).
       let p1 = p\<lparr>p_sax := s\<rparr> in if ok then k p1 else Inr (Return False p1))"

definition sax_fail :: "'s sax \<Rightarrow> exn \<Rightarrow> 's parser \<Rightarrow> 's parser flow res" where
  "sax_fail h e p =
     rbind (sax_parse_error h e (p_sax p)) (\<lambda>(b, s). Inr (Return b (p\<lparr>p_sax := s\<rparr>)))"

text \<open>A key, the colon and the first token of its value; the current token is to be the key.\<close>

definition parse_key ::
    "(string \<Rightarrow> 64 word) \<Rightarrow> 's sax \<Rightarrow> ('s parser \<Rightarrow> 's parser) \<Rightarrow> 's parser \<Rightarrow> 's parser flow res" where
  "parse_key strtod h enter p =
     (if p_last_token p \<noteq> value_string then sax_fail h JsonParseError p
      else sax_emit h (SaxKey (lx_token_buffer (p_lexer p))) p (\<lambda>p1.
           let p2 = get_token strtod p1
           in if p_last_token p2 \<noteq> name_separator then sax_fail h JsonParseError p2
              else Inr (Continue (get_token strtod (enter p2)))))"

text \<open>The switch over the last token.\<close>

definition parse_value ::
    "(string \<Rightarrow> 64 word) \<Rightarrow> 's sax \<Rightarrow> 's parser \<Rightarrow> 's parser flow res" where
  "parse_value strtod h p =
     (case p_last_token p of
        begin_object \<Rightarrow>
          sax_emit h SaxStartObject p (\<lambda>p1.
            let p2 = get_token strtod p1
            in if p_last_token p2 = end_object then sax_emit h SaxEndObject p2 (\<lambda>p3. Inr (Fall p3))
               else parse_key strtod h (\<lambda>p3. p3\<lparr>p_states := False # p_states p3\<rparr>) p2)
      | begin_array \<Rightarrow>
          sax_emit h SaxStartArray p (\<lambda>p1.
            let p2 = get_token strtod p1
            in if p_last_token p2 = end_array then sax_emit h SaxEndArray p2 (\<lambda>p3. Inr (Fall p3))
               else Inr (Continue (p2\<lparr>p_states := True # p_states p2\<rparr>)))
      | value_float \<Rightarrow>
          let res = lx_value_float (p_lexer p)
          in if \<not> isfinite res then sax_fail h (JsonOutOfRange 406) p
             else sax_emit h (SaxFloat res) p (\<lambda>p1. Inr (Fall p1))
      | literal_false \<Rightarrow> sax_emit h (SaxBoolean False) p (\<lambda>p1. Inr (Fall p1))
      | literal_null \<Rightarrow> sax_emit h SaxNull p (\<lambda>p1. Inr (Fall p1))
      | literal_true \<Rightarrow> sax_emit h (SaxBoolean True) p (\<lambda>p1. Inr (Fall p1))
      | value_integer \<Rightarrow>
          sax_emit h (SaxInteger (lx_value_integer (p_lexer p))) p (\<lambda>p1. Inr (Fall p1))
      | value_string \<Rightarrow>
          sax_emit h (SaxString (lx_token_buffer (p_lexer p))) p (\<lambda>p1. Inr (Fall p1))
      | value_unsigned \<Rightarrow>
          sax_emit h (SaxUnsigned (lx_value_unsigned (p_lexer p))) p (\<lambda>p1. Inr (Fall p1))
      | _ \<Rightarrow> sax_fail h JsonParseError p)"

text \<open>Closing an array or object: its state is popped and the state below is evaluated next.\<close>

definition parse_close :: "'s sax \<Rightarrow> sax_event \<Rightarrow> 's parser \<Rightarrow> 's parser flow res" where
  "parse_close h ev p =
     sax_emit h ev p (\<lambda>p1. Inr (Continue (p1\<lparr>p_states := tl (p_states p1), p_skip := True\<rparr>)))"

text \<open>The part of the body after a value.\<close>

definition parse_state :: "(string \<Rightarrow> 64 word) \<Rightarrow> 's sax \<Rightarrow> 's parser \<Rightarrow> 's parser flow res" where
  "parse_state strtod h p =
     (case p_states p of
        [] \<Rightarrow> Inr (Return True p)
      | True # _ \<Rightarrow>
          (let p1 = get_token strtod p
           in if p_last_token p1 = value_separator then Inr (Continue (get_token strtod p1))
              else if p_last_token p1 = end_array then parse_close h SaxEndArray p1
              else sax_fail h JsonParseError p1)
      | False # _ \<Rightarrow>
          (let p1 = get_token strtod p
           in if p_last_token p1 = value_separator
              then parse_key strtod h (\<lambda>p2. p2) (get_token strtod p1)
              else if p_last_token p1 = end_object then parse_close h SaxEndObject p1
              else sax_fail h JsonParseError p1))"

definition parse_iteration :: "(string \<Rightarrow> 64 word) \<Rightarrow> 's sax \<Rightarrow> 's parser \<Rightarrow> 's parser flow res" where
  "parse_iteration strtod h p =
     (if p_skip p then parse_state strtod h (p\<lparr>p_skip := False\<rparr>)
      else rbind (parse_value strtod h p) (\<lambda>fl.
             case fl of Fall p1 \<Rightarrow> parse_state strtod h p1 | _ \<Rightarrow> Inr fl))"

section \<open>The loop ends\<close>

lemma remaining_number_from:
  "scan_number_from l t lx = (r, lx') \<Longrightarrow>
     remaining lx' \<le> remaining lx \<and> remaining (lx_unget lx') \<le> remaining lx"
proof (induction l t lx rule: scan_number_from.induct)
  case (1 l t lx)
  show ?case
  proof (cases "lx_current (lx_get lx)")
    case None
    with 1(2) remaining_unget_get[of lx] show ?thesis
      by (auto simp: Let_def scan_number_from.simps[of l t lx])
  next
    case (Some c)
    with 1(2) remaining_unget_get[of lx] "1.IH"[OF refl refl Some] show ?thesis
      by (cases "number_jump l c") (auto simp: Let_def scan_number_from.simps[of l t lx] intro: remaining_get_trans)
  qed
qed

lemma remaining_number:
  "scan_number strtod c lx = (t, lx') \<Longrightarrow> remaining lx' \<le> remaining lx"
  by (auto simp: scan_number_def scan_number_done_def Let_def dest!: remaining_number_from
      split: prod.splits option.splits if_splits)

lemma remaining_literal:
  "scan_literal cs t lx = (r, lx') \<Longrightarrow> remaining lx' \<le> remaining lx"
  by (induction cs t lx rule: scan_literal.induct)
    (auto simp: Let_def intro: remaining_get_trans split: if_splits)

lemma remaining_string_loop:
  "scan_string_loop lx = (t, lx') \<Longrightarrow> remaining lx' \<le> remaining lx"
proof (induction lx rule: scan_string_loop.induct)
  case (1 lx)
  obtain r lx1 where body: "scan_string_body lx = (r, lx1)" by force
  from remaining_string_body[OF body] "1.IH"[OF body[symmetric]] 1(2) body show ?case
    by (cases r) (auto simp: scan_string_loop.simps[of lx])
qed

lemma remaining_spaces: "remaining (skip_spaces lx) \<le> remaining (lx_get lx)"
proof (induction lx rule: skip_spaces.induct)
  case (1 lx)
  show ?case
    using "1.IH"[OF refl] remaining_get[of "lx_get lx"]
    by (subst skip_spaces.simps) (fastforce simp: Let_def split: option.split)
qed

lemma spaces_not_eof:
  "lx_current (skip_spaces lx) = Some c \<Longrightarrow> remaining (skip_spaces lx) < remaining lx"
  using remaining_spaces[of lx] get_not_eof[of lx]
  by (cases "lx_current (lx_get lx)") (auto simp: skip_spaces.simps[of lx] Let_def)

lemma remaining_bom: "skip_bom lx = (r, lx') \<Longrightarrow>
    remaining lx' \<le> remaining lx \<and> (\<not> r \<longrightarrow> remaining lx' < remaining lx)"
proof -
  assume bom: "skip_bom lx = (r, lx')"
  show ?thesis
  proof (cases "lx_current (lx_get lx) = Some (CHR 0xEF)")
    case True
    with bom get_not_eof[OF True] remaining_get[of "lx_get lx"] remaining_get[of "lx_get (lx_get lx)"]
    show ?thesis by (auto simp: skip_bom_def Let_def split: if_splits simp del: remaining_get)
  next
    case False
    with bom remaining_unget_get[of lx] show ?thesis by (auto simp: skip_bom_def Let_def)
  qed
qed

lemma remaining_ifI:
  "remaining (snd a) \<le> n \<Longrightarrow> remaining (snd b) \<le> n \<Longrightarrow> remaining (snd (if c then a else b)) \<le> n"
  by simp

lemma remaining_current: "remaining (snd (scan_current strtod lx)) \<le> remaining lx"
proof (cases "lx_current lx")
  case None
  then show ?thesis by (simp add: scan_current_def)
next
  case (Some c)
  have "remaining (snd (scan_literal cs t lx)) \<le> remaining lx" for cs t
    using remaining_literal[of cs t lx] by (cases "scan_literal cs t lx") simp
  moreover have "remaining (snd (scan_number strtod c lx)) \<le> remaining lx"
    using remaining_number[of strtod c lx] by (cases "scan_number strtod c lx") simp
  moreover have "remaining (snd (scan_string lx)) \<le> remaining lx"
    using remaining_string_loop[of "lx_reset lx"] by (cases "scan_string lx") (simp add: scan_string_def)
  ultimately show ?thesis
    unfolding scan_current_def Some option.case by (intro remaining_ifI) (simp_all del: scan_literal.simps)
qed

lemma scan_current_eof: "lx_current lx = None \<Longrightarrow> scan_current strtod lx = (end_of_input, lx)"
  by (simp add: scan_current_def)

lemma scan_consumes:
  assumes "scan strtod lx = (t, lx')"
  shows "remaining lx' \<le> remaining lx \<and> (t \<noteq> end_of_input \<longrightarrow> remaining lx' < remaining lx)"
proof -
  obtain r lx1 where bom: "(if lx_chars_read_total lx = 0 then skip_bom lx else (True, lx)) = (r, lx1)"
    by force
  have le: "remaining lx1 \<le> remaining lx \<and> (\<not> r \<longrightarrow> remaining lx1 < remaining lx)"
    using bom remaining_bom[of lx] by (auto split: if_splits)
  show ?thesis
  proof (cases r)
    case False
    with assms bom le show ?thesis by (auto simp: scan_def)
  next
    case True
    with assms bom have cur: "scan_current strtod (skip_spaces lx1) = (t, lx')" by (simp add: scan_def)
    have "remaining (skip_spaces lx1) \<le> remaining lx1"
      using remaining_spaces[of lx1] remaining_get[of lx1] by linarith
    with remaining_current[of strtod "skip_spaces lx1"] cur spaces_not_eof[of lx1] le show ?thesis
      by (cases "lx_current (skip_spaces lx1)") (auto simp: scan_current_eof)
  qed
qed

definition parse_measure :: "'s parser \<Rightarrow> nat" where
  "parse_measure p =
     2 * remaining (p_lexer p) + (if p_skip p \<or> p_last_token p \<noteq> end_of_input then 1 else 0)"

abbreviation p_left :: "'s parser \<Rightarrow> nat" where
  "p_left p \<equiv> remaining (p_lexer p)"

lemma get_token_fields [simp]:
  "p_states (get_token strtod p) = p_states p"
  "p_skip (get_token strtod p) = p_skip p"
  "p_sax (get_token strtod p) = p_sax p"
  by (simp_all add: get_token_def split: prod.split)

lemma get_token_left:
  "p_left (get_token strtod p) \<le> p_left p"
  "p_last_token (get_token strtod p) \<noteq> end_of_input \<Longrightarrow> p_left (get_token strtod p) < p_left p"
  using scan_consumes[of strtod "p_lexer p"] by (simp_all add: get_token_def split: prod.splits)

lemma sax_emit_goes_on:
  "sax_emit h ev p k = Inr fl \<Longrightarrow> (\<And>b q. fl \<noteq> Return b q) \<Longrightarrow> \<exists>s. k (p\<lparr>p_sax := s\<rparr>) = Inr fl"
  by (auto simp: sax_emit_def std_simps Let_def split: if_splits)

lemma sax_fail_stops [simp]: "sax_fail h e p \<noteq> Inr (Continue q)" "sax_fail h e p \<noteq> Inr (Fall q)"
  by (auto simp: sax_fail_def std_simps)

lemma parse_key_left:
  assumes "parse_key strtod h enter p = Inr fl" "\<And>b q. fl \<noteq> Return b q" "\<And>q. p_lexer (enter q) = p_lexer q"
  shows "\<exists>q. fl = Continue q \<and> p_left q < p_left p"
proof -
  have "p_last_token p = value_string"
    using assms(1,2) by (cases fl) (auto simp: parse_key_def split: if_splits)
  with assms(1) have "sax_emit h (SaxKey (lx_token_buffer (p_lexer p))) p (\<lambda>p1.
           let p2 = get_token strtod p1
           in if p_last_token p2 \<noteq> name_separator then sax_fail h JsonParseError p2
              else Inr (Continue (get_token strtod (enter p2)))) = Inr fl"
    by (simp add: parse_key_def)
  from sax_emit_goes_on[OF this assms(2)] obtain s where
    s: "(let p2 = get_token strtod (p\<lparr>p_sax := s\<rparr>)
         in if p_last_token p2 \<noteq> name_separator then sax_fail h JsonParseError p2
            else Inr (Continue (get_token strtod (enter p2)))) = Inr fl" ..
  let ?p2 = "get_token strtod (p\<lparr>p_sax := s\<rparr>)"
  from s assms(2) have "p_last_token ?p2 = name_separator" "fl = Continue (get_token strtod (enter ?p2))"
    by (cases fl; auto simp: Let_def split: if_splits)+
  with get_token_left[of strtod "p\<lparr>p_sax := s\<rparr>"] get_token_left(1)[of strtod "enter ?p2"] assms(3)[of ?p2]
  show ?thesis by simp
qed

lemma parse_close_left:
  "parse_close h ev p = Inr fl \<Longrightarrow> (\<And>b q. fl \<noteq> Return b q) \<Longrightarrow> \<exists>q. fl = Continue q \<and> p_left q = p_left p"
  unfolding parse_close_def by (drule sax_emit_goes_on) auto

lemma parse_state_left:
  assumes "parse_state strtod h p = Inr fl" "\<And>b q. fl \<noteq> Return b q"
  shows "\<exists>q. fl = Continue q \<and> p_left q < p_left p"
proof (cases "p_states p")
  case Nil
  with assms show ?thesis by (auto simp: parse_state_def)
next
  case (Cons b bs)
  let ?p1 = "get_token strtod p"
  note left = get_token_left[of strtod p] get_token_left(1)[of strtod ?p1]
  from assms Cons have "p_last_token ?p1 \<in> {value_separator, end_array, end_object}"
    by (cases fl) (auto simp: parse_state_def Let_def split: bool.splits if_splits)
  with left have lt: "p_left ?p1 < p_left p" "p_left (get_token strtod ?p1) < p_left p" by auto
  show ?thesis
  proof (cases "p_last_token ?p1 = value_separator")
    case True
    with assms Cons lt parse_key_left[of strtod h "\<lambda>p. p" "get_token strtod ?p1" fl] show ?thesis
      by (auto simp: parse_state_def Let_def split: bool.splits)
  next
    case False
    then obtain ev where "parse_close h ev ?p1 = Inr fl"
      using assms Cons by (cases fl) (auto simp: parse_state_def Let_def split: bool.splits if_splits)
    from parse_close_left[OF this assms(2)] lt show ?thesis by auto
  qed
qed

definition falls_or_shrinks :: "'s parser \<Rightarrow> 's parser flow \<Rightarrow> bool" where
  "falls_or_shrinks p fl \<longleftrightarrow>
     (case fl of Fall q \<Rightarrow> p_left q \<le> p_left p | Continue q \<Rightarrow> parse_measure q < parse_measure p
        | Return b q \<Rightarrow> True)"

lemma falls_or_shrinks_emit:
  assumes "sax_emit h ev p k = Inr fl" "\<And>s fl. k (p\<lparr>p_sax := s\<rparr>) = Inr fl \<Longrightarrow> falls_or_shrinks p fl"
  shows "falls_or_shrinks p fl"
proof (cases "\<exists>b q. fl = Return b q")
  case False
  with sax_emit_goes_on[OF assms(1)] assms(2) show ?thesis by blast
qed (auto simp: falls_or_shrinks_def)

lemma falls_or_shrinks_atom:
  "sax_emit h ev p (\<lambda>p1. Inr (Fall p1)) = Inr fl \<Longrightarrow> falls_or_shrinks p fl"
  by (rule falls_or_shrinks_emit) (auto simp: falls_or_shrinks_def)

lemma falls_or_shrinks_fail: "sax_fail h e p = Inr fl \<Longrightarrow> falls_or_shrinks q fl"
  by (auto simp: sax_fail_def falls_or_shrinks_def std_simps)

lemma falls_or_shrinks_le:
  assumes "falls_or_shrinks q fl" "parse_measure q \<le> parse_measure p" "p_left q \<le> p_left p"
  shows "falls_or_shrinks p fl"
  using assms by (auto simp: falls_or_shrinks_def split: flow.splits)

lemma falls_or_shrinks_object:
  assumes "sax_emit h SaxStartObject p (\<lambda>p1.
            let p2 = get_token strtod p1
            in if p_last_token p2 = end_object then sax_emit h SaxEndObject p2 (\<lambda>p3. Inr (Fall p3))
               else parse_key strtod h (\<lambda>p3. p3\<lparr>p_states := False # p_states p3\<rparr>) p2) = Inr fl"
  shows "falls_or_shrinks p fl"
  using assms
proof (rule falls_or_shrinks_emit)
  fix s fl
  let ?p2 = "get_token strtod (p\<lparr>p_sax := s\<rparr>)"
  assume fl: "(let p2 = ?p2
            in if p_last_token p2 = end_object then sax_emit h SaxEndObject p2 (\<lambda>p3. Inr (Fall p3))
               else parse_key strtod h (\<lambda>p3. p3\<lparr>p_states := False # p_states p3\<rparr>) p2) = Inr fl"
  show "falls_or_shrinks p fl"
  proof (cases "p_last_token ?p2 = end_object")
    case True
    with fl have "falls_or_shrinks ?p2 fl" by (auto intro: falls_or_shrinks_atom)
    with fl True sax_emit_goes_on[of h SaxEndObject ?p2 "\<lambda>p3. Inr (Fall p3)" fl]
      get_token_left(1)[of strtod "p\<lparr>p_sax := s\<rparr>"] show ?thesis
      by (cases fl) (auto simp: falls_or_shrinks_def)
  next
    case False
    with fl parse_key_left[of strtod h "\<lambda>p3. p3\<lparr>p_states := False # p_states p3\<rparr>" ?p2 fl]
      get_token_left(1)[of strtod "p\<lparr>p_sax := s\<rparr>"] show ?thesis
      by (cases fl) (auto simp: falls_or_shrinks_def parse_measure_def)
  qed
qed

lemma falls_or_shrinks_array:
  assumes "sax_emit h SaxStartArray p (\<lambda>p1.
            let p2 = get_token strtod p1
            in if p_last_token p2 = end_array then sax_emit h SaxEndArray p2 (\<lambda>p3. Inr (Fall p3))
               else Inr (Continue (p2\<lparr>p_states := True # p_states p2\<rparr>))) = Inr fl"
    "p_last_token p = begin_array" "\<not> p_skip p"
  shows "falls_or_shrinks p fl"
  using assms(1)
proof (rule falls_or_shrinks_emit)
  fix s fl
  let ?p2 = "get_token strtod (p\<lparr>p_sax := s\<rparr>)"
  assume fl: "(let p2 = ?p2
            in if p_last_token p2 = end_array then sax_emit h SaxEndArray p2 (\<lambda>p3. Inr (Fall p3))
               else Inr (Continue (p2\<lparr>p_states := True # p_states p2\<rparr>))) = Inr fl"
  show "falls_or_shrinks p fl"
  proof (cases "p_last_token ?p2 = end_array")
    case True
    with fl sax_emit_goes_on[of h SaxEndArray ?p2 "\<lambda>p3. Inr (Fall p3)" fl]
      get_token_left(1)[of strtod "p\<lparr>p_sax := s\<rparr>"] show ?thesis
      by (cases fl) (auto simp: falls_or_shrinks_def)
  next
    case False
    with fl get_token_left[of strtod "p\<lparr>p_sax := s\<rparr>"] assms(2,3) show ?thesis
      by (auto simp: falls_or_shrinks_def parse_measure_def)
  qed
qed

lemma parse_value_shrinks:
  assumes "parse_value strtod h p = Inr fl" "\<not> p_skip p"
  shows "falls_or_shrinks p fl"
proof (cases "p_last_token p")
  case begin_object
  with assms show ?thesis by (auto simp: parse_value_def intro: falls_or_shrinks_object)
next
  case begin_array
  with assms show ?thesis by (auto simp: parse_value_def intro: falls_or_shrinks_array)
qed (use assms in \<open>auto simp: parse_value_def Let_def split: if_splits
       intro: falls_or_shrinks_atom falls_or_shrinks_fail\<close>)

lemma parse_iteration_shrinks:
  assumes "parse_iteration strtod h p = Inr (Continue q)"
  shows "parse_measure q < parse_measure p"
proof -
  have state: "parse_measure q < parse_measure p"
    if "parse_state strtod h p1 = Inr (Continue q)" "p_left p1 \<le> p_left p" for p1
    using parse_state_left[OF that(1)] that(2) by (auto simp: parse_measure_def)
  show ?thesis
  proof (cases "p_skip p")
    case True
    with assms state[of "p\<lparr>p_skip := False\<rparr>"] show ?thesis by (simp add: parse_iteration_def)
  next
    case False
    with assms obtain fl where "parse_value strtod h p = Inr fl"
      and fl: "(case fl of Fall p1 \<Rightarrow> parse_state strtod h p1 | _ \<Rightarrow> Inr fl) = Inr (Continue q)"
      by (auto simp: parse_iteration_def std_simps)
    from parse_value_shrinks[OF this(1) False] fl state show ?thesis
      by (cases fl) (auto simp: falls_or_shrinks_def)
  qed
qed

lemma parse_iteration_no_fall: "parse_iteration strtod h p \<noteq> Inr (Fall q)"
proof
  assume "parse_iteration strtod h p = Inr (Fall q)"
  then have "\<exists>p1. parse_state strtod h p1 = Inr (Fall q)"
    by (cases "parse_value strtod h p") (auto simp: parse_iteration_def split: if_splits flow.splits)
  then show False using parse_state_left[of strtod h _ "Fall q"] by auto
qed

function (sequential) sax_parse_internal ::
    "(string \<Rightarrow> 64 word) \<Rightarrow> 's sax \<Rightarrow> 's parser \<Rightarrow> (bool \<times> 's parser) res" where
  "sax_parse_internal strtod h p =
     (case parse_iteration strtod h p of
        Inl e \<Rightarrow> Inl e
      | Inr (Return b q) \<Rightarrow> Inr (b, q)
      | Inr (Continue q) \<Rightarrow> sax_parse_internal strtod h q
      | Inr (Fall q) \<Rightarrow> Inr (True, q))"
  by pat_completeness auto
termination
  by (relation "measure (\<lambda>(_, _, p). parse_measure p)") (auto dest: parse_iteration_shrinks)

declare sax_parse_internal.simps [simp del]

section \<open>The interface of the parser\<close>

text \<open>The constructor reads the first token.\<close>

definition parser_init :: "(string \<Rightarrow> 64 word) \<Rightarrow> string \<Rightarrow> 's \<Rightarrow> 's parser" where
  "parser_init strtod text s =
     get_token strtod
       \<lparr>p_lexer = lexer_init text, p_last_token = uninitialized, p_states = [], p_skip = False, p_sax = s\<rparr>"

definition sax_parse ::
    "(string \<Rightarrow> 64 word) \<Rightarrow> 's sax \<Rightarrow> bool \<Rightarrow> 's parser \<Rightarrow> (bool \<times> 's) res" where
  "sax_parse strtod h strict p =
     rbind (sax_parse_internal strtod h p) (\<lambda>(result, p1).
       if result \<and> strict \<and> p_last_token (get_token strtod p1) \<noteq> end_of_input
       then sax_parse_error h JsonParseError (p_sax p1) else Inr (result, p_sax p1))"

definition json_accept :: "(string \<Rightarrow> 64 word) \<Rightarrow> string \<Rightarrow> bool res" where
  "json_accept strtod text =
     rbind (sax_parse strtod json_sax_acceptor True (parser_init strtod text ())) (\<lambda>(result, _). Inr result)"

end
