(* ===== verification/Json_Dom.thy ===== *)
theory Json_Dom
  imports Json_Parser
begin

text \<open>
  \<open>json_sax_dom_parser\<close> of \<^verbatim>\<open>tools/json/json.hpp\<close>, which builds the value while the parser runs, and
  \<^verbatim>\<open>operator>>\<close>. A pointer into the tree is the path from the root to the element. The contract
  between the parser and its handlers is the locale \<open>sax_contract\<close>; it gives that both handlers
  accept the same texts.
\<close>

section \<open>Pointers into a value\<close>

datatype jstep = AtIndex nat | AtKey string

fun get_at :: "jstep list \<Rightarrow> json \<Rightarrow> json option" where
  "get_at [] j = Some j"
| "get_at (AtIndex i # p) (JArray xs) = (if i < length xs then get_at p (xs ! i) else None)"
| "get_at (AtKey k # p) (JObject m) =
     (case map_find k m of None \<Rightarrow> None | Some v \<Rightarrow> get_at p v)"
| "get_at _ _ = None"

fun put_at :: "jstep list \<Rightarrow> json \<Rightarrow> json \<Rightarrow> json" where
  "put_at [] v j = v"
| "put_at (AtIndex i # p) v (JArray xs) =
     JArray (if i < length xs then xs[i := put_at p v (xs ! i)] else xs)"
| "put_at (AtKey k # p) v (JObject m) =
     JObject (case map_find k m of None \<Rightarrow> m | Some w \<Rightarrow> map_put k (put_at p v w) m)"
| "put_at _ v j = j"

lemma map_find_put_same [simp]: "map_find k (map_put k v m) = Some v"
  by (induction k v m rule: map_put.induct) (auto simp: map_find_def)

lemma map_put_put [simp]: "map_put k v (map_put k v' m) = map_put k v m"
  by (induction k v' m rule: map_put.induct) auto

lemma get_put_at: "get_at p j = Some w \<Longrightarrow> get_at p (put_at p v j) = Some v"
  by (induction p j rule: get_at.induct) (auto split: if_splits option.splits)

lemma put_put_at: "get_at p j = Some w \<Longrightarrow> put_at p v (put_at p v' j) = put_at p v j"
  by (induction p j rule: get_at.induct) (auto split: if_splits option.splits)

lemma get_at_append:
  "get_at (p @ q) j = (case get_at p j of None \<Rightarrow> None | Some w \<Rightarrow> get_at q w)"
  by (induction p j rule: get_at.induct) (auto split: option.split)

lemma put_at_append: "get_at p j = Some w \<Longrightarrow> put_at (p @ q) v j = put_at p (put_at q v w) j"
  by (induction p j rule: get_at.induct) (auto split: if_splits option.splits)

section \<open>The handler\<close>

record dom =
  dom_root :: json
  dom_ref_stack :: "jstep list list"
  dom_object_element :: "jstep list option"

text \<open>
  \<open>handle_value\<close> returns the pointer to the stored value. The assertions of the source, and the
  validity of the pointers it follows, are the defined cases.
\<close>

definition handle_value :: "json \<Rightarrow> dom \<Rightarrow> (jstep list \<times> dom) res" where
  "handle_value v d =
     (case dom_ref_stack d of
        [] \<Rightarrow> Inr ([], d\<lparr>dom_root := v\<rparr>)
      | p # _ \<Rightarrow>
          (case get_at p (dom_root d) of
             Some (JArray xs) \<Rightarrow>
               Inr (p @ [AtIndex (length xs)],
                    d\<lparr>dom_root := put_at p (JArray (xs @ [v])) (dom_root d)\<rparr>)
           | Some (JObject m) \<Rightarrow>
               (case dom_object_element d of
                  None \<Rightarrow> Inl (Undefined ''object_element'')
                | Some e \<Rightarrow>
                    if get_at e (dom_root d) = None then Inl (Undefined ''object_element'')
                    else Inr (e, d\<lparr>dom_root := put_at e v (dom_root d)\<rparr>))
           | _ \<Rightarrow> Inl (Undefined ''ref_stack'')))"

definition dom_value :: "json \<Rightarrow> dom \<Rightarrow> (bool \<times> dom) res" where
  "dom_value v d = rbind (handle_value v d) (\<lambda>(_, d'). Inr (True, d'))"

definition dom_start :: "json \<Rightarrow> dom \<Rightarrow> (bool \<times> dom) res" where
  "dom_start v d =
     rbind (handle_value v d) (\<lambda>(e, d'). Inr (True, d'\<lparr>dom_ref_stack := e # dom_ref_stack d'\<rparr>))"

definition dom_end :: "dom \<Rightarrow> (bool \<times> dom) res" where
  "dom_end d =
     (case dom_ref_stack d of
        [] \<Rightarrow> Inl (Undefined ''ref_stack'') | _ # ps \<Rightarrow> Inr (True, d\<lparr>dom_ref_stack := ps\<rparr>))"

definition dom_key :: "string \<Rightarrow> dom \<Rightarrow> (bool \<times> dom) res" where
  "dom_key k d =
     (case dom_ref_stack d of
        [] \<Rightarrow> Inl (Undefined ''ref_stack'')
      | p # _ \<Rightarrow>
          (case get_at p (dom_root d) of
             Some (JObject m) \<Rightarrow>
               Inr (True, d\<lparr>dom_root := put_at p (JObject (snd (map_index JNull k m))) (dom_root d),
                            dom_object_element := Some (p @ [AtKey k])\<rparr>)
           | _ \<Rightarrow> Inl (Undefined ''ref_stack'')))"

fun dom_on :: "sax_event \<Rightarrow> dom \<Rightarrow> (bool \<times> dom) res" where
  "dom_on SaxNull d = dom_value JNull d"
| "dom_on (SaxBoolean b) d = dom_value (JBool b) d"
| "dom_on (SaxInteger w) d = dom_value (JInteger w) d"
| "dom_on (SaxUnsigned w) d = dom_value (JUnsigned w) d"
| "dom_on (SaxFloat w) d = dom_value (JFloat w) d"
| "dom_on (SaxString s) d = dom_value (JString s) d"
| "dom_on SaxStartObject d = dom_start (JObject []) d"
| "dom_on (SaxKey k) d = dom_key k d"
| "dom_on SaxEndObject d = dom_end d"
| "dom_on SaxStartArray d = dom_start (JArray []) d"
| "dom_on SaxEndArray d = dom_end d"

definition json_sax_dom_parser :: "dom sax" where
  "json_sax_dom_parser = \<lparr>sax_on = dom_on, sax_parse_error = (\<lambda>e _. Inl e)\<rparr>"

definition dom_init :: dom where
  "dom_init = \<lparr>dom_root = JNull, dom_ref_stack = [], dom_object_element = None\<rparr>"

text \<open>\<open>parser::parse\<close>; a new value is overwritten by the first value read.\<close>

definition json_parse :: "(string \<Rightarrow> 64 word) \<Rightarrow> bool \<Rightarrow> string \<Rightarrow> json res" where
  "json_parse strtod strict text =
     rbind (sax_parse_internal strtod json_sax_dom_parser (parser_init strtod text dom_init)) (\<lambda>(_, p).
       if strict \<and> p_last_token (get_token strtod p) \<noteq> end_of_input then Inl JsonParseError
       else Inr (dom_root (p_sax p)))"

text \<open>\<^verbatim>\<open>operator>>\<close>\<close>

definition json_read :: "(string \<Rightarrow> 64 word) \<Rightarrow> string \<Rightarrow> json res" where
  "json_read strtod text = json_parse strtod False text"

section \<open>The contract between parser and handler\<close>

fun sax_atom :: "sax_event \<Rightarrow> bool" where
  "sax_atom SaxNull = True"
| "sax_atom (SaxBoolean _) = True"
| "sax_atom (SaxInteger _) = True"
| "sax_atom (SaxUnsigned _) = True"
| "sax_atom (SaxFloat _) = True"
| "sax_atom (SaxString _) = True"
| "sax_atom _ = False"

text \<open>
  \<open>ready st s\<close>: the handler expects a value inside the open containers \<open>st\<close>; \<open>closed st s\<close>: a
  value was completed there, or a container was just opened.
\<close>

definition p_with :: "'t \<Rightarrow> 's parser \<Rightarrow> 't parser" where
  "p_with s p =
     \<lparr>p_lexer = p_lexer p, p_last_token = p_last_token p, p_states = p_states p, p_skip = p_skip p, p_sax = s\<rparr>"

abbreviation p_blank :: "'s parser \<Rightarrow> unit parser" where
  "p_blank \<equiv> p_with ()"

lemma p_with_simps [simp]:
  "p_lexer (p_with s p) = p_lexer p" "p_last_token (p_with s p) = p_last_token p"
  "p_states (p_with s p) = p_states p" "p_skip (p_with s p) = p_skip p" "p_sax (p_with s p) = s"
  "(p_with s p)\<lparr>p_skip := b\<rparr> = p_with s (p\<lparr>p_skip := b\<rparr>)"
  "(p_with s p)\<lparr>p_states := st\<rparr> = p_with s (p\<lparr>p_states := st\<rparr>)"
  by (simp_all add: p_with_def)

lemma p_with_sax [simp]: "p_with s (p\<lparr>p_sax := t\<rparr>) = p_with s p"
  by (simp add: p_with_def)

lemma p_with_with [simp]: "(p_with s p)\<lparr>p_sax := t\<rparr> = p_with t p"
  by (simp add: p_with_def)

lemma get_token_with [simp]: "get_token strtod (p_with s p) = p_with s (get_token strtod p)"
  by (simp add: get_token_def p_with_def split: prod.split)

lemma sax_fail_acceptor [simp]: "sax_fail json_sax_acceptor e (p_blank q) = Inr (Return False (p_blank q))"
  by (simp add: sax_fail_def json_sax_acceptor_def p_with_def)

lemma sax_fail_bind:
  "rbind (sax_fail k e q) (\<lambda>fl. case fl of Fall p1 \<Rightarrow> parse_state strtod k p1 | _ \<Rightarrow> Inr fl) = sax_fail k e q"
  by (cases "sax_parse_error k e (p_sax q)") (auto simp: sax_fail_def)

locale sax_contract =
  fixes h :: "'s sax"
    and ready closed :: "bool list \<Rightarrow> 's \<Rightarrow> bool"
  assumes atom: "sax_atom ev \<Longrightarrow> ready st s \<Longrightarrow> \<exists>s'. sax_on h ev s = Inr (True, s') \<and> closed st s'"
    and start_object: "ready st s \<Longrightarrow> \<exists>s'. sax_on h SaxStartObject s = Inr (True, s') \<and> closed (False # st) s'"
    and start_array: "ready st s \<Longrightarrow> \<exists>s'. sax_on h SaxStartArray s = Inr (True, s') \<and> closed (True # st) s'"
    and element: "closed (True # st) s \<Longrightarrow> ready (True # st) s"
    and key: "closed (False # st) s \<Longrightarrow> \<exists>s'. sax_on h (SaxKey k) s = Inr (True, s') \<and> ready (False # st) s'"
    and end_object: "closed (False # st) s \<Longrightarrow> \<exists>s'. sax_on h SaxEndObject s = Inr (True, s') \<and> closed st s'"
    and end_array: "closed (True # st) s \<Longrightarrow> \<exists>s'. sax_on h SaxEndArray s = Inr (True, s') \<and> closed st s'"
begin

definition agree :: "'s parser flow res \<Rightarrow> unit parser flow res \<Rightarrow> bool" where
  "agree r a \<longleftrightarrow>
     (\<exists>p. (if p_skip p then closed (p_states p) (p_sax p) else ready (p_states p) (p_sax p)) \<and>
          r = Inr (Continue p) \<and> a = Inr (Continue (p_blank p))) \<or>
     (\<exists>p. closed [] (p_sax p) \<and> p_states p = [] \<and> r = Inr (Return True p) \<and> a = Inr (Return True (p_blank p))) \<or>
     (\<exists>p. closed (p_states p) (p_sax p) \<and> \<not> p_skip p \<and> r = Inr (Fall p) \<and> a = Inr (Fall (p_blank p))) \<or>
     (\<exists>e p. r = sax_fail h e p \<and> a = Inr (Return False (p_blank p)))"

lemma agree_fail: "agree (sax_fail h e p) (Inr (Return False (p_blank p)))"
  unfolding agree_def by blast

lemma agree_continue:
  "(if p_skip p then closed (p_states p) (p_sax p) else ready (p_states p) (p_sax p)) \<Longrightarrow>
     agree (Inr (Continue p)) (Inr (Continue (p_blank p)))"
  unfolding agree_def by blast

lemma agree_fall:
  "closed (p_states p) (p_sax p) \<Longrightarrow> \<not> p_skip p \<Longrightarrow> agree (Inr (Fall p)) (Inr (Fall (p_blank p)))"
  unfolding agree_def by blast

lemma agree_emit:
  assumes "\<exists>s'. sax_on h ev (p_sax p) = Inr (True, s') \<and> P s'"
    and "\<And>s'. P s' \<Longrightarrow> agree (k (p\<lparr>p_sax := s'\<rparr>)) (k' (p_blank p))"
  shows "agree (sax_emit h ev p k) (sax_emit json_sax_acceptor ev (p_blank p) k')"
  using assms by (auto simp: sax_emit_def json_sax_acceptor_def)

lemma agree_key:
  assumes "closed (False # st) (p_sax p)" "\<not> p_skip p"
    and "\<And>q. p_states q = p_states p \<Longrightarrow> p_states (enter q) = False # st"
    and "\<And>q. p_sax (enter q) = p_sax q" "\<And>q. p_skip (enter q) = p_skip q"
    and "\<And>q. enter' (p_blank q) = p_blank (enter q)"
  shows "agree (parse_key strtod h enter p) (parse_key strtod json_sax_acceptor enter' (p_blank p))"
proof (cases "p_last_token p = value_string")
  case True
  then have "agree (parse_key strtod h enter p) (parse_key strtod json_sax_acceptor enter' (p_blank p)) =
    agree (sax_emit h (SaxKey (lx_token_buffer (p_lexer p))) p (\<lambda>p1.
           let p2 = get_token strtod p1
           in if p_last_token p2 \<noteq> name_separator then sax_fail h JsonParseError p2
              else Inr (Continue (get_token strtod (enter p2)))))
      (sax_emit json_sax_acceptor (SaxKey (lx_token_buffer (p_lexer p))) (p_blank p) (\<lambda>p1.
           let p2 = get_token strtod p1
           in if p_last_token p2 \<noteq> name_separator then sax_fail json_sax_acceptor JsonParseError p2
              else Inr (Continue (get_token strtod (enter' p2)))))"
    by (simp add: parse_key_def)
  also have "\<dots>"
  proof (rule agree_emit[OF key[OF assms(1)]])
    fix s' assume s': "ready (False # st) s'"
    let ?p2 = "get_token strtod (p\<lparr>p_sax := s'\<rparr>)"
    have blank: "get_token strtod (p_blank p) = p_blank ?p2" by (metis get_token_with p_with_sax)
    have "agree (Inr (Continue (get_token strtod (enter ?p2)))) (Inr (Continue (p_blank (get_token strtod (enter ?p2)))))"
      by (rule agree_continue) (use s' assms in simp)
    with agree_fail[of JsonParseError ?p2]
    show "agree (let p2 = ?p2 in if p_last_token p2 \<noteq> name_separator then sax_fail h JsonParseError p2
              else Inr (Continue (get_token strtod (enter p2))))
       (let p2 = get_token strtod (p_blank p) in if p_last_token p2 \<noteq> name_separator then sax_fail json_sax_acceptor JsonParseError p2
              else Inr (Continue (get_token strtod (enter' p2))))"
      unfolding blank Let_def by (simp add: assms(6))
  qed
  finally show ?thesis .
next
  case False
  then show ?thesis using agree_fail[of JsonParseError p] by (simp add: parse_key_def)
qed

lemma agree_atom:
  assumes "sax_atom ev" "ready (p_states p) (p_sax p)" "\<not> p_skip p"
  shows "agree (sax_emit h ev p (\<lambda>p1. Inr (Fall p1)))
           (sax_emit json_sax_acceptor ev (p_blank p) (\<lambda>p1. Inr (Fall p1)))"
proof (rule agree_emit[OF atom[OF assms(1,2)]])
  fix s' assume "closed (p_states p) s'"
  then show "agree (Inr (Fall (p\<lparr>p_sax := s'\<rparr>))) (Inr (Fall (p_blank p)))"
    using agree_fall[of "p\<lparr>p_sax := s'\<rparr>"] assms(3) by simp
qed

lemma agree_object:
  assumes "ready (p_states p) (p_sax p)" "\<not> p_skip p" "p_last_token p = begin_object"
  shows "agree (parse_value strtod h p) (parse_value strtod json_sax_acceptor (p_blank p))"
  unfolding parse_value_def p_with_simps assms(3) token_type.case
proof (rule agree_emit[OF start_object[OF assms(1)]])
  fix s' assume s': "closed (False # p_states p) s'"
  let ?p2 = "get_token strtod (p\<lparr>p_sax := s'\<rparr>)"
  let ?fall = "\<lambda>p3 :: 's parser. Inr (Fall p3)"
  have blank: "get_token strtod (p_blank p) = p_blank ?p2" by (metis get_token_with p_with_sax)
  have "agree (sax_emit h SaxEndObject ?p2 ?fall)
     (sax_emit json_sax_acceptor SaxEndObject (p_blank ?p2) (\<lambda>p3. Inr (Fall p3)))"
  proof (rule agree_emit)
    show "\<exists>s''. sax_on h SaxEndObject (p_sax ?p2) = Inr (True, s'') \<and> closed (p_states p) s''"
      using end_object[OF s'] by simp
    fix s'' assume "closed (p_states p) s''"
    then show "agree (Inr (Fall (?p2\<lparr>p_sax := s''\<rparr>))) (Inr (Fall (p_blank ?p2)))"
      using agree_fall[of "?p2\<lparr>p_sax := s''\<rparr>"] assms(2) by simp
  qed
  moreover have "agree (parse_key strtod h (\<lambda>p3. p3\<lparr>p_states := False # p_states p3\<rparr>) ?p2)
      (parse_key strtod json_sax_acceptor (\<lambda>p3. p3\<lparr>p_states := False # p_states p3\<rparr>) (p_blank ?p2))"
    by (rule agree_key[where st = "p_states p"]) (use s' assms(2) in simp_all)
  ultimately show "agree (let p2 = ?p2
            in if p_last_token p2 = end_object then sax_emit h SaxEndObject p2 ?fall
               else parse_key strtod h (\<lambda>p3. p3\<lparr>p_states := False # p_states p3\<rparr>) p2)
     (let p2 = get_token strtod (p_blank p)
            in if p_last_token p2 = end_object then sax_emit json_sax_acceptor SaxEndObject p2 (\<lambda>p3. Inr (Fall p3))
               else parse_key strtod json_sax_acceptor (\<lambda>p3. p3\<lparr>p_states := False # p_states p3\<rparr>) p2)"
    unfolding blank Let_def by simp
qed

lemma agree_array:
  assumes "ready (p_states p) (p_sax p)" "\<not> p_skip p" "p_last_token p = begin_array"
  shows "agree (parse_value strtod h p) (parse_value strtod json_sax_acceptor (p_blank p))"
  unfolding parse_value_def p_with_simps assms(3) token_type.case
proof (rule agree_emit[OF start_array[OF assms(1)]])
  fix s' assume s': "closed (True # p_states p) s'"
  let ?p2 = "get_token strtod (p\<lparr>p_sax := s'\<rparr>)"
  let ?fall = "\<lambda>p3 :: 's parser. Inr (Fall p3)"
  have blank: "get_token strtod (p_blank p) = p_blank ?p2" by (metis get_token_with p_with_sax)
  have "agree (sax_emit h SaxEndArray ?p2 ?fall)
     (sax_emit json_sax_acceptor SaxEndArray (p_blank ?p2) (\<lambda>p3. Inr (Fall p3)))"
  proof (rule agree_emit)
    show "\<exists>s''. sax_on h SaxEndArray (p_sax ?p2) = Inr (True, s'') \<and> closed (p_states p) s''"
      using end_array[OF s'] by simp
    fix s'' assume "closed (p_states p) s''"
    then show "agree (Inr (Fall (?p2\<lparr>p_sax := s''\<rparr>))) (Inr (Fall (p_blank ?p2)))"
      using agree_fall[of "?p2\<lparr>p_sax := s''\<rparr>"] assms(2) by simp
  qed
  moreover have "agree (Inr (Continue (?p2\<lparr>p_states := True # p_states ?p2\<rparr>)))
      (Inr (Continue (p_blank (?p2\<lparr>p_states := True # p_states ?p2\<rparr>))))"
    by (rule agree_continue) (use element[OF s'] assms(2) in simp)
  ultimately show "agree (let p2 = ?p2
            in if p_last_token p2 = end_array then sax_emit h SaxEndArray p2 ?fall
               else Inr (Continue (p2\<lparr>p_states := True # p_states p2\<rparr>)))
     (let p2 = get_token strtod (p_blank p)
            in if p_last_token p2 = end_array then sax_emit json_sax_acceptor SaxEndArray p2 (\<lambda>p3. Inr (Fall p3))
               else Inr (Continue (p2\<lparr>p_states := True # p_states p2\<rparr>)))"
    unfolding blank Let_def by simp
qed

lemma agree_value:
  assumes "ready (p_states p) (p_sax p)" "\<not> p_skip p"
  shows "agree (parse_value strtod h p) (parse_value strtod json_sax_acceptor (p_blank p))"
proof (cases "p_last_token p")
  case begin_object
  then show ?thesis by (rule agree_object[OF assms])
next
  case begin_array
  then show ?thesis by (rule agree_array[OF assms])
qed (use assms in \<open>simp_all add: parse_value_def Let_def agree_atom agree_fail\<close>)

lemma agree_close:
  assumes "\<exists>s'. sax_on h ev (p_sax p) = Inr (True, s') \<and> closed (tl (p_states p)) s'"
  shows "agree (parse_close h ev p) (parse_close json_sax_acceptor ev (p_blank p))"
  unfolding parse_close_def
proof (rule agree_emit[OF assms])
  fix s' assume "closed (tl (p_states p)) s'"
  then show "agree (Inr (Continue (p\<lparr>p_sax := s', p_states := tl (p_states (p\<lparr>p_sax := s'\<rparr>)), p_skip := True\<rparr>)))
      (Inr (Continue ((p_blank p)\<lparr>p_states := tl (p_states (p_blank p)), p_skip := True\<rparr>)))"
    using agree_continue[of "p\<lparr>p_sax := s', p_states := tl (p_states p), p_skip := True\<rparr>"]
    by (simp add: p_with_def)
qed

lemma agree_state:
  assumes "closed (p_states p) (p_sax p)" "\<not> p_skip p"
  shows "agree (parse_state strtod h p) (parse_state strtod json_sax_acceptor (p_blank p))"
proof (cases "p_states p")
  case Nil
  with assms show ?thesis by (auto simp: parse_state_def agree_def)
next
  case (Cons b st)
  let ?p1 = "get_token strtod p"
  have blank: "get_token strtod (p_blank p) = p_blank ?p1" by simp
  show ?thesis
  proof (cases b)
    case True
    with Cons assms(1) have c: "closed (True # st) (p_sax p)" by simp
    have "agree (Inr (Continue (get_token strtod ?p1))) (Inr (Continue (p_blank (get_token strtod ?p1))))"
      by (rule agree_continue) (use element[OF c] assms(2) Cons True in simp)
    moreover have "agree (parse_close h SaxEndArray ?p1) (parse_close json_sax_acceptor SaxEndArray (p_blank ?p1))"
      by (rule agree_close) (use end_array[OF c] Cons in simp)
    ultimately show ?thesis using Cons True by (simp add: parse_state_def Let_def agree_fail)
  next
    case False
    with Cons assms(1) have c: "closed (False # st) (p_sax p)" by simp
    have "agree (parse_key strtod h (\<lambda>p2. p2) (get_token strtod ?p1))
        (parse_key strtod json_sax_acceptor (\<lambda>p2. p2) (p_blank (get_token strtod ?p1)))"
      by (rule agree_key[where st = st]) (use c assms(2) Cons False in simp_all)
    moreover have "agree (parse_close h SaxEndObject ?p1) (parse_close json_sax_acceptor SaxEndObject (p_blank ?p1))"
      by (rule agree_close) (use end_object[OF c] Cons in simp)
    ultimately show ?thesis using Cons False by (simp add: parse_state_def Let_def agree_fail)
  qed
qed

lemma agree_iteration:
  assumes "if p_skip p then closed (p_states p) (p_sax p) else ready (p_states p) (p_sax p)"
  shows "agree (parse_iteration strtod h p) (parse_iteration strtod json_sax_acceptor (p_blank p))"
proof (cases "p_skip p")
  case True
  with assms agree_state[of "p\<lparr>p_skip := False\<rparr>"] show ?thesis by (simp add: parse_iteration_def)
next
  case False
  with assms have "agree (parse_value strtod h p) (parse_value strtod json_sax_acceptor (p_blank p))"
    by (intro agree_value) simp_all
  then consider
      q where "if p_skip q then closed (p_states q) (p_sax q) else ready (p_states q) (p_sax q)"
        "parse_value strtod h p = Inr (Continue q)" "parse_value strtod json_sax_acceptor (p_blank p) = Inr (Continue (p_blank q))"
    | q where "closed [] (p_sax q)" "p_states q = []"
        "parse_value strtod h p = Inr (Return True q)" "parse_value strtod json_sax_acceptor (p_blank p) = Inr (Return True (p_blank q))"
    | q where "closed (p_states q) (p_sax q)" "\<not> p_skip q"
        "parse_value strtod h p = Inr (Fall q)" "parse_value strtod json_sax_acceptor (p_blank p) = Inr (Fall (p_blank q))"
    | e q where "parse_value strtod h p = sax_fail h e q"
        "parse_value strtod json_sax_acceptor (p_blank p) = Inr (Return False (p_blank q))"
    unfolding agree_def by blast
  then show ?thesis
  proof cases
    case 1
    then show ?thesis using False agree_continue[of q] by (simp add: parse_iteration_def)
  next
    case 2
    then show ?thesis using False by (auto simp: parse_iteration_def agree_def)
  next
    case 3
    then show ?thesis using False agree_state[of q] by (simp add: parse_iteration_def)
  next
    case 4
    have "agree (parse_iteration strtod h p) (parse_iteration strtod json_sax_acceptor (p_blank p)) =
      agree (rbind (sax_fail h e q) (\<lambda>fl. case fl of Fall p1 \<Rightarrow> parse_state strtod h p1 | _ \<Rightarrow> Inr fl))
        (Inr (Return False (p_blank q)))"
      by (simp add: parse_iteration_def 4 False)
    then show ?thesis using agree_fail[of e q] unfolding sax_fail_bind by simp
  qed
qed

text \<open>Both handlers see the same text in the same way: they succeed together and fail together.\<close>

lemma same_text:
  assumes "if p_skip p then closed (p_states p) (p_sax p) else ready (p_states p) (p_sax p)"
  shows "(\<exists>q. sax_parse_internal strtod h p = Inr (True, q) \<and> closed [] (p_sax q) \<and>
            sax_parse_internal strtod json_sax_acceptor (p_blank p) = Inr (True, p_blank q)) \<or>
         (\<exists>e q. sax_parse_internal strtod h p =
                 rbind (sax_parse_error h e (p_sax q)) (\<lambda>(b, s). Inr (b, q\<lparr>p_sax := s\<rparr>)) \<and>
            sax_parse_internal strtod json_sax_acceptor (p_blank p) = Inr (False, p_blank q))"
  using assms
proof (induction "parse_measure p" arbitrary: p rule: less_induct)
  case less
  note unf = sax_parse_internal.simps[of strtod h p] sax_parse_internal.simps[of strtod json_sax_acceptor "p_blank p"]
  from agree_iteration[OF less.prems, of strtod] consider
      q where "if p_skip q then closed (p_states q) (p_sax q) else ready (p_states q) (p_sax q)"
        "parse_iteration strtod h p = Inr (Continue q)" "parse_iteration strtod json_sax_acceptor (p_blank p) = Inr (Continue (p_blank q))"
    | q where "closed [] (p_sax q)"
        "parse_iteration strtod h p = Inr (Return True q)" "parse_iteration strtod json_sax_acceptor (p_blank p) = Inr (Return True (p_blank q))"
    | q where "parse_iteration strtod h p = Inr (Fall q)"
    | e q where "parse_iteration strtod h p = sax_fail h e q"
        "parse_iteration strtod json_sax_acceptor (p_blank p) = Inr (Return False (p_blank q))"
    unfolding agree_def by blast
  then show ?case
  proof cases
    case 1
    from less.hyps[OF parse_iteration_shrinks[OF 1(2)] 1(1)] show ?thesis by (simp add: unf 1(2,3))
  next
    case 2
    then show ?thesis by (auto simp: unf)
  next
    case 3
    then show ?thesis using parse_iteration_no_fall[of strtod h p q] by simp
  next
    case 4
    have "sax_parse_internal strtod h p = rbind (sax_parse_error h e (p_sax q)) (\<lambda>(b, s). Inr (b, q\<lparr>p_sax := s\<rparr>))"
      by (cases "sax_parse_error h e (p_sax q)") (auto simp: unf 4 sax_fail_def)
    moreover have "sax_parse_internal strtod json_sax_acceptor (p_blank p) = Inr (False, p_blank q)"
      by (simp add: unf 4)
    ultimately show ?thesis by blast
  qed
qed

end

section \<open>Both handlers meet the contract\<close>

interpretation acceptor: sax_contract json_sax_acceptor "\<lambda>_ _. True" "\<lambda>_ _. True"
  by unfold_locales (simp_all add: json_sax_acceptor_def)

text \<open>
  The pointers of the DOM handler: each points to a container of the right kind and lies below the
  one before it; where a value is expected inside an object, \<open>object_element\<close> points to an entry of
  that object.
\<close>

fun of_kind :: "bool \<Rightarrow> json option \<Rightarrow> bool" where
  "of_kind True (Some (JArray _)) = True"
| "of_kind False (Some (JObject _)) = True"
| "of_kind _ _ = False"

definition below :: "jstep list \<Rightarrow> jstep list \<Rightarrow> bool" where
  "below e q \<longleftrightarrow> (\<exists>s. s \<noteq> [] \<and> e = q @ s)"

fun stack_ok :: "bool list \<Rightarrow> jstep list list \<Rightarrow> json \<Rightarrow> bool" where
  "stack_ok [] [] r = True"
| "stack_ok (b # st) (p # ps) r \<longleftrightarrow> of_kind b (get_at p r) \<and> list_all (below p) ps \<and> stack_ok st ps r"
| "stack_ok _ _ _ = False"

fun dom_ready :: "bool list \<Rightarrow> dom \<Rightarrow> bool" where
  "dom_ready (False # st) d \<longleftrightarrow> stack_ok (False # st) (dom_ref_stack d) (dom_root d) \<and>
     (\<exists>k. dom_object_element d = Some (hd (dom_ref_stack d) @ [AtKey k]) \<and>
        get_at (hd (dom_ref_stack d) @ [AtKey k]) (dom_root d) \<noteq> None)"
| "dom_ready st d \<longleftrightarrow> stack_ok st (dom_ref_stack d) (dom_root d)"

definition dom_closed :: "bool list \<Rightarrow> dom \<Rightarrow> bool" where
  "dom_closed st d \<longleftrightarrow> stack_ok st (dom_ref_stack d) (dom_root d)"

lemma of_kind_put:
  assumes "of_kind b (get_at q r)" "below e q"
  shows "of_kind b (get_at q (put_at e v r))"
proof -
  from assms(2) obtain s where s: "s \<noteq> []" "e = q @ s" by (auto simp: below_def)
  from assms(1) obtain w where w: "get_at q r = Some w" by (cases "get_at q r") auto
  have "get_at q (put_at e v r) = Some (put_at s v w)"
    using get_put_at[OF w] put_at_append[OF w] s by simp
  moreover have "of_kind b (Some (put_at s v w))"
    using assms(1) s(1) w by (cases b; cases w; cases s; cases "hd s") auto
  ultimately show ?thesis by simp
qed

lemma stack_ok_put: "stack_ok st ps r \<Longrightarrow> list_all (below e) ps \<Longrightarrow> stack_ok st ps (put_at e v r)"
  by (induction st ps r rule: stack_ok.induct) (auto intro: of_kind_put)

lemma below_trans: "below e p \<Longrightarrow> below p q \<Longrightarrow> below e q"
  by (force simp: below_def)

lemma below_all: "below e p \<Longrightarrow> list_all (below p) ps \<Longrightarrow> list_all (below e) ps"
  by (auto simp: list_all_iff intro: below_trans)

text \<open>
  Where a value is expected there is one place \<open>e\<close> for it, whatever the value: \<open>put v\<close> is the tree
  with \<open>v\<close> there, and writing through the pointer replaces the value.
\<close>

definition placed :: "bool list \<Rightarrow> dom \<Rightarrow> jstep list \<Rightarrow> (json \<Rightarrow> json) \<Rightarrow> bool" where
  "placed st d e put \<longleftrightarrow>
     (\<forall>v. handle_value v d = Inr (e, d\<lparr>dom_root := put v\<rparr>) \<and> get_at e (put v) = Some v \<and>
          (\<forall>w. put_at e w (put v) = put w) \<and> stack_ok st (dom_ref_stack d) (put v)) \<and>
     list_all (below e) (dom_ref_stack d)"

lemma below_snoc [simp]: "below (p @ [x]) p"
  by (simp add: below_def)

lemma placed_array:
  assumes "dom_ready (True # st) d"
  shows "\<exists>e put. placed (True # st) d e put"
proof -
  from assms obtain p ps where ps: "dom_ref_stack d = p # ps" by (cases "dom_ref_stack d") auto
  with assms have ok: "of_kind True (get_at p (dom_root d))" "list_all (below p) ps" "stack_ok st ps (dom_root d)"
    by simp_all
  then obtain xs where xs: "get_at p (dom_root d) = Some (JArray xs)"
    by (cases "get_at p (dom_root d)" rule: of_kind.cases[of "(True, _)", simplified]) auto
  let ?e = "p @ [AtIndex (length xs)]" and ?put = "\<lambda>v. put_at p (JArray (xs @ [v])) (dom_root d)"
  have at: "get_at p (?put v) = Some (JArray (xs @ [v]))" for v by (rule get_put_at[OF xs])
  have "placed (True # st) d ?e ?put"
    unfolding placed_def
    using ok xs ps at put_at_append[OF at] put_put_at[OF xs] stack_ok_put[OF ok(3,2)]
    by (auto simp: handle_value_def get_at_append below_all[OF below_snoc])
  then show ?thesis by blast
qed

lemma placed_object:
  assumes "dom_ready (False # st) d"
  shows "\<exists>e put. placed (False # st) d e put"
proof -
  from assms obtain p ps where ps: "dom_ref_stack d = p # ps" by (cases "dom_ref_stack d") auto
  with assms obtain k w where
    ok: "of_kind False (get_at p (dom_root d))" "list_all (below p) ps" "stack_ok st ps (dom_root d)" and
    e: "dom_object_element d = Some (p @ [AtKey k])" "get_at (p @ [AtKey k]) (dom_root d) = Some w"
    by auto
  then obtain m where m: "get_at p (dom_root d) = Some (JObject m)"
    by (cases "get_at p (dom_root d)" rule: of_kind.cases[of "(False, _)", simplified]) auto
  let ?e = "p @ [AtKey k]"
  let ?put = "\<lambda>v. put_at ?e v (dom_root d)"
  have "list_all (below ?e) (p # ps)" using ok(2) by (simp add: below_all[OF below_snoc])
  moreover have "stack_ok (False # st) (p # ps) (dom_root d)" using ok by simp
  ultimately have "placed (False # st) d ?e ?put"
    unfolding placed_def
    using m ps e(1) e(2) get_put_at[OF e(2)] put_put_at[OF e(2)] stack_ok_put[of "False # st" "p # ps" "dom_root d" ?e]
    by (simp add: handle_value_def del: stack_ok.simps)
  then show ?thesis by blast
qed

lemma handle_value_placed:
  assumes "dom_ready st d"
  shows "\<exists>e put. placed st d e put"
proof (cases st)
  case Nil
  with assms have "dom_ref_stack d = []" by (cases "dom_ref_stack d") auto
  then have "placed [] d [] (\<lambda>v. v)" by (simp add: placed_def handle_value_def)
  with Nil show ?thesis by blast
next
  case (Cons b st')
  show ?thesis
  proof (cases b)
    case True
    with assms Cons placed_array[of st' d] show ?thesis by simp
  next
    case False
    with assms Cons placed_object[of st' d] show ?thesis by (simp del: dom_ready.simps)
  qed
qed

lemma dom_start_ok:
  assumes "dom_ready st d" "of_kind b (Some v)"
  shows "\<exists>d'. dom_start v d = Inr (True, d') \<and> dom_closed (b # st) d'"
proof -
  from handle_value_placed[OF assms(1)] obtain e "put" where "placed st d e put" by blast
  with assms(2) show ?thesis by (auto simp: placed_def dom_start_def dom_closed_def)
qed

lemma dom_value_ok: "dom_ready st d \<Longrightarrow> \<exists>d'. dom_value v d = Inr (True, d') \<and> dom_closed st d'"
  using handle_value_placed[of st d] by (auto simp: placed_def dom_value_def dom_closed_def)

lemma dom_key_ok:
  assumes "dom_closed (False # st) d"
  shows "\<exists>d'. dom_key k d = Inr (True, d') \<and> dom_ready (False # st) d'"
proof -
  from assms obtain p ps where ps: "dom_ref_stack d = p # ps"
    by (cases "dom_ref_stack d") (auto simp: dom_closed_def)
  with assms have ok: "of_kind False (get_at p (dom_root d))" "list_all (below p) ps" "stack_ok st ps (dom_root d)"
    by (simp_all add: dom_closed_def)
  then obtain m where m: "get_at p (dom_root d) = Some (JObject m)"
    by (cases "get_at p (dom_root d)" rule: of_kind.cases[of "(False, _)", simplified]) auto
  have "map_find k (snd (map_index JNull k m)) \<noteq> None"
    by (simp add: map_index_def split: option.split)
  with ps m ok get_put_at[OF m] stack_ok_put[OF ok(3,2)] show ?thesis
    by (auto simp: dom_key_def get_at_append)
qed

lemma dom_end_ok: "dom_closed (b # st) d \<Longrightarrow> \<exists>d'. dom_end d = Inr (True, d') \<and> dom_closed st d'"
  by (cases "dom_ref_stack d") (auto simp: dom_closed_def dom_end_def)

interpretation dom: sax_contract json_sax_dom_parser dom_ready dom_closed
proof unfold_locales
  show "\<exists>d'. sax_on json_sax_dom_parser ev d = Inr (True, d') \<and> dom_closed st d'"
    if "sax_atom ev" "dom_ready st d" for ev st d
    using that dom_value_ok[of st d] by (cases ev) (simp_all add: json_sax_dom_parser_def)
  show "\<exists>d'. sax_on json_sax_dom_parser (SaxKey k) d = Inr (True, d') \<and> dom_ready (False # st) d'"
    if "dom_closed (False # st) d" for k st d
    using dom_key_ok[OF that, of k] by (simp add: json_sax_dom_parser_def del: dom_ready.simps)
  show "dom_ready (True # st) d" if "dom_closed (True # st) d" for st d
    using that by (simp add: dom_closed_def)
qed (auto simp: json_sax_dom_parser_def intro: dom_start_ok dom_end_ok)

section \<open>Accepting is parsing without an error\<close>

lemma parse_total:
  "(\<exists>q. sax_parse_internal strtod json_sax_dom_parser (parser_init strtod text dom_init) = Inr (True, q) \<and>
       sax_parse_internal strtod json_sax_acceptor (parser_init strtod text ()) = Inr (True, p_blank q)) \<or>
   (\<exists>e q. sax_parse_internal strtod json_sax_dom_parser (parser_init strtod text dom_init) = Inl e \<and>
       sax_parse_internal strtod json_sax_acceptor (parser_init strtod text ()) = Inr (False, q))"
proof -
  let ?p = "parser_init strtod text dom_init"
  have "p_blank ?p = parser_init strtod text ()"
    unfolding parser_init_def get_token_with[symmetric] by (simp add: p_with_def)
  moreover have "if p_skip ?p then dom_closed (p_states ?p) (p_sax ?p) else dom_ready (p_states ?p) (p_sax ?p)"
    by (simp add: parser_init_def dom_init_def)
  ultimately show ?thesis
    using dom.same_text[of ?p strtod] by (auto simp: json_sax_dom_parser_def)
qed

lemma accept_iff_parse:
  "json_accept strtod text = Inr (\<exists>j. json_parse strtod True text = Inr j)"
  using parse_total[of strtod "text"]
  by (auto simp: json_accept_def json_parse_def sax_parse_def)
    (simp_all add: json_sax_acceptor_def)

lemma strict_parse_read: "json_parse strtod True text = Inr j \<Longrightarrow> json_read strtod text = Inr j"
  by (auto simp: json_read_def json_parse_def std_simps split: if_splits)

section \<open>Properties\<close>

text \<open>
  C26. \<^verbatim>\<open>json::accept\<close> never throws, and it is true for exactly the texts that the parser turns into a
  value: the two handlers of the parser's events, one of which builds the value through pointers into
  the tree, agree on every text, and none of these pointers is ever invalid.
\<close>

theorem accepted_texts_are_parsed:
  "json_accept strtod text = Inr (\<exists>j. json_parse strtod True text = Inr j)"
  by (rule accept_iff_parse)

end
