(* ===== verification/Json_Utf8.thy ===== *)
theory Json_Utf8
  imports Json_Lexer
begin

text \<open>
  The UTF-8 decoder of the serialiser of \<^verbatim>\<open>tools/json/json.hpp\<close>: a table-driven automaton. The table
  is characterised by the ranges of bytes that continue a code point, which are those that the lexer
  tests, and the code points of more than one byte are shown to be at least \<open>0x80\<close>.
\<close>

unbundle bit_operations_syntax

section \<open>Decoding UTF-8\<close>

definition utf8d :: "nat list" where
  "utf8d =
     [0, 0, 0, 0, 0, 0, 0, 0, 0, 0, 0, 0, 0, 0, 0, 0, 0, 0, 0, 0, 0, 0, 0, 0, 0, 0, 0, 0, 0, 0, 0, 0,
      0, 0, 0, 0, 0, 0, 0, 0, 0, 0, 0, 0, 0, 0, 0, 0, 0, 0, 0, 0, 0, 0, 0, 0, 0, 0, 0, 0, 0, 0, 0, 0,
      0, 0, 0, 0, 0, 0, 0, 0, 0, 0, 0, 0, 0, 0, 0, 0, 0, 0, 0, 0, 0, 0, 0, 0, 0, 0, 0, 0, 0, 0, 0, 0,
      0, 0, 0, 0, 0, 0, 0, 0, 0, 0, 0, 0, 0, 0, 0, 0, 0, 0, 0, 0, 0, 0, 0, 0, 0, 0, 0, 0, 0, 0, 0, 0,
      1, 1, 1, 1, 1, 1, 1, 1, 1, 1, 1, 1, 1, 1, 1, 1, 9, 9, 9, 9, 9, 9, 9, 9, 9, 9, 9, 9, 9, 9, 9, 9,
      7, 7, 7, 7, 7, 7, 7, 7, 7, 7, 7, 7, 7, 7, 7, 7, 7, 7, 7, 7, 7, 7, 7, 7, 7, 7, 7, 7, 7, 7, 7, 7,
      8, 8, 2, 2, 2, 2, 2, 2, 2, 2, 2, 2, 2, 2, 2, 2, 2, 2, 2, 2, 2, 2, 2, 2, 2, 2, 2, 2, 2, 2, 2, 2,
      10, 3, 3, 3, 3, 3, 3, 3, 3, 3, 3, 3, 3, 4, 3, 3, 11, 6, 6, 6, 5, 8, 8, 8, 8, 8, 8, 8, 8, 8, 8, 8,
      0, 1, 2, 3, 5, 8, 7, 1, 1, 1, 4, 6, 1, 1, 1, 1, 1, 1, 1, 1, 1, 1, 1, 1, 1, 1, 1, 1, 1, 1, 1, 1,
      1, 0, 1, 1, 1, 1, 1, 0, 1, 0, 1, 1, 1, 1, 1, 1, 1, 2, 1, 1, 1, 1, 1, 2, 1, 2, 1, 1, 1, 1, 1, 1,
      1, 1, 1, 1, 1, 1, 1, 2, 1, 1, 1, 1, 1, 1, 1, 1, 1, 2, 1, 1, 1, 1, 1, 1, 1, 2, 1, 1, 1, 1, 1, 1,
      1, 1, 1, 1, 1, 1, 1, 3, 1, 3, 1, 1, 1, 1, 1, 1, 1, 3, 1, 1, 1, 1, 1, 3, 1, 3, 1, 1, 1, 1, 1, 1,
      1, 3, 1, 1, 1, 1, 1, 1, 1, 1, 1, 1, 1, 1, 1, 1]"

definition UTF8_ACCEPT :: nat where
  "UTF8_ACCEPT = 0"

definition UTF8_REJECT :: nat where
  "UTF8_REJECT = 1"

definition decode :: "nat \<Rightarrow> uint32 \<Rightarrow> nat \<Rightarrow> nat \<times> uint32" where
  "decode state codep byte =
     (let type = utf8d ! byte;
          codep' = (if state \<noteq> UTF8_ACCEPT then (of_nat byte AND 0x3F) OR push_bit 6 codep
                    else drop_bit type 0xFF AND of_nat byte)
      in (utf8d ! (256 + state * 16 + type), codep'))"

section \<open>The states of the decoder\<close>

definition utf8_next :: "nat \<Rightarrow> nat \<Rightarrow> nat" where
  "utf8_next state byte = utf8d ! (256 + state * 16 + utf8d ! byte)"

text \<open>The states that an unfinished code point is in, and the ranges of its next byte.\<close>

fun utf8_ranges :: "nat \<Rightarrow> (nat \<times> nat) list" where
  "utf8_ranges state =
     (if state = 2 then [(0x80, 0xBF)]
      else if state = 3 then [(0x80, 0xBF), (0x80, 0xBF)]
      else if state = 4 then [(0xA0, 0xBF), (0x80, 0xBF)]
      else if state = 5 then [(0x80, 0x9F), (0x80, 0xBF)]
      else if state = 6 then [(0x90, 0xBF), (0x80, 0xBF), (0x80, 0xBF)]
      else if state = 7 then [(0x80, 0xBF), (0x80, 0xBF), (0x80, 0xBF)]
      else [(0x80, 0x8F), (0x80, 0xBF), (0x80, 0xBF)])"

definition utf8_lead :: "nat \<Rightarrow> nat" where
  "utf8_lead b =
     (if b \<le> 0x7F then 0 else if 0xC2 \<le> b \<and> b \<le> 0xDF then 2 else if b = 0xE0 then 4
      else if 0xE1 \<le> b \<and> b \<le> 0xEC \<or> 0xEE \<le> b \<and> b \<le> 0xEF then 3 else if b = 0xED then 5
      else if b = 0xF0 then 6 else if 0xF1 \<le> b \<and> b \<le> 0xF3 then 7 else if b = 0xF4 then 8 else 1)"

definition utf8_follow :: "nat \<Rightarrow> nat \<Rightarrow> nat" where
  "utf8_follow state b =
     (case utf8_ranges state of
        (lo, hi) # rs \<Rightarrow>
          if lo \<le> b \<and> b \<le> hi then (if rs = [] then 0 else if length rs = 1 then 2 else 3) else 1
      | [] \<Rightarrow> 1)"

definition utf8_type :: "nat \<Rightarrow> nat" where
  "utf8_type b =
     (if b < 0x80 then 0 else if b < 0x90 then 1 else if b < 0xA0 then 9 else if b < 0xC0 then 7
      else if b < 0xC2 then 8 else if b < 0xE0 then 2 else if b = 0xE0 then 10 else if b < 0xED then 3
      else if b = 0xED then 4 else if b < 0xF0 then 3 else if b = 0xF0 then 11 else if b < 0xF4 then 6
      else if b = 0xF4 then 5 else 8)"

lemma utf8d_types: "take 256 utf8d = map utf8_type [0..<256]"
  unfolding utf8d_def utf8_type_def by (simp add: upt_rec)

lemma utf8d_type: "b < 256 \<Longrightarrow> utf8d ! b = utf8_type b"
  using arg_cong[OF utf8d_types, of "\<lambda>xs. xs ! b"] by simp

definition utf8_rows :: "nat list" where
  "utf8_rows = drop 256 utf8d"

lemma utf8_rows_eq:
  "utf8_rows =
     [0, 1, 2, 3, 5, 8, 7, 1, 1, 1, 4, 6, 1, 1, 1, 1, 1, 1, 1, 1, 1, 1, 1, 1, 1, 1, 1, 1, 1, 1, 1, 1,
      1, 0, 1, 1, 1, 1, 1, 0, 1, 0, 1, 1, 1, 1, 1, 1, 1, 2, 1, 1, 1, 1, 1, 2, 1, 2, 1, 1, 1, 1, 1, 1,
      1, 1, 1, 1, 1, 1, 1, 2, 1, 1, 1, 1, 1, 1, 1, 1, 1, 2, 1, 1, 1, 1, 1, 1, 1, 2, 1, 1, 1, 1, 1, 1,
      1, 1, 1, 1, 1, 1, 1, 3, 1, 3, 1, 1, 1, 1, 1, 1, 1, 3, 1, 1, 1, 1, 1, 3, 1, 3, 1, 1, 1, 1, 1, 1,
      1, 3, 1, 1, 1, 1, 1, 1, 1, 1, 1, 1, 1, 1, 1, 1]"
  by (simp add: utf8_rows_def utf8d_def)

lemma utf8_next_rows: "b < 256 \<Longrightarrow> utf8_next s b = utf8_rows ! (s * 16 + utf8_type b)"
proof -
  assume "b < 256"
  have "length utf8d = 400" by (simp add: utf8d_def)
  with \<open>b < 256\<close> show ?thesis
    by (simp add: utf8_next_def utf8_rows_def utf8d_type add.assoc)
qed

lemma utf8_type_bound: "utf8_type b < 12"
  by (simp add: utf8_type_def)

lemma utf8_from_accept: "b < 256 \<Longrightarrow> utf8_next 0 b = utf8_lead b"
  by (simp add: utf8_next_rows utf8_rows_eq utf8_lead_def utf8_type_def)

lemma utf8_from_states:
  "b < 256 \<Longrightarrow> utf8_next 2 b = utf8_follow 2 b" "b < 256 \<Longrightarrow> utf8_next 3 b = utf8_follow 3 b"
  "b < 256 \<Longrightarrow> utf8_next 4 b = utf8_follow 4 b" "b < 256 \<Longrightarrow> utf8_next 5 b = utf8_follow 5 b"
  "b < 256 \<Longrightarrow> utf8_next 6 b = utf8_follow 6 b" "b < 256 \<Longrightarrow> utf8_next 7 b = utf8_follow 7 b"
  "b < 256 \<Longrightarrow> utf8_next 8 b = utf8_follow 8 b"
  by (simp_all add: utf8_next_rows utf8_rows_eq utf8_follow_def utf8_type_def)

section \<open>Code points of several bytes\<close>

lemma and_63: "(w AND (0x3F :: uint32)) = take_bit 6 w"
  by (simp add: take_bit_eq_mask mask_eq_exp_minus_1)

lemma unat_mask_byte: "b < 256 \<Longrightarrow> unat (mask n AND (of_nat b :: uint32)) = b mod 2 ^ n"
proof -
  assume b: "b < 256"
  have "mask n AND (of_nat b :: uint32) = take_bit n (of_nat b)"
    by (simp add: take_bit_eq_mask and.commute)
  then have "mask n AND (of_nat b :: uint32) = of_nat (take_bit n b)"
    by (simp only: of_nat_take_bit)
  moreover have "b mod 2 ^ n < 4294967296"
    using b mod_less_eq_dividend[of b "2 ^ n"] by linarith
  ultimately show ?thesis using b by (simp add: take_bit_eq_mod unat_of_nat)
qed

lemma unat_next_codepoint:
  assumes "b < 256" "unat cp < 2 ^ 20"
  shows "unat ((of_nat b AND 0x3F) OR push_bit 6 (cp :: uint32)) = 64 * unat cp + b mod 64"
proof -
  have "(of_nat b AND 0x3F) AND push_bit 6 cp = 0"
    unfolding and_63 by (rule bit_word_eqI) (auto simp: bit_simps)
  from disjunctive_add_eq_or[OF this]
  have "(of_nat b AND 0x3F) OR push_bit 6 cp = (of_nat b AND 0x3F) + push_bit 6 cp" ..
  moreover have "unat (push_bit 6 cp) = 64 * unat cp"
    using assms by (simp add: push_bit_eq_mult unat_word_ariths)
  moreover have "unat (of_nat b AND (0x3F :: uint32)) = b mod 64"
    using unat_mask_byte[OF assms(1), of 6] by (simp add: mask_eq_exp_minus_1 and.commute)
  ultimately show ?thesis using assms by (simp add: unat_word_ariths)
qed

text \<open>What is known of the code point in each state of the decoder.\<close>

definition codepoint_ok :: "nat \<Rightarrow> uint32 \<Rightarrow> bool" where
  "codepoint_ok state cp \<longleftrightarrow>
     state = 2 \<and> 2 \<le> unat cp \<and> unat cp < 2 ^ 16 \<or>
     state = 3 \<and> 1 \<le> unat cp \<and> unat cp < 2 ^ 10 \<or>
     (state = 4 \<or> state = 6) \<and> unat cp = 0 \<or>
     (state = 5 \<or> state = 7 \<or> state = 8) \<and> 1 \<le> unat cp \<and> unat cp < 16"

lemma decode_state [simp]: "fst (decode state cp b) = utf8_next state b"
  by (simp add: decode_def utf8_next_def Let_def)

lemma decode_lead:
  assumes "b < 256"
  shows "utf8_next 0 b = 0 \<Longrightarrow> snd (decode 0 cp b) = of_nat b"
    and "utf8_next 0 b \<notin> {0, 1} \<Longrightarrow> codepoint_ok (utf8_next 0 b) (snd (decode 0 cp b))"
proof -
  have lead: "snd (decode 0 cp b) = drop_bit (utf8_type b) 0xFF AND of_nat b"
    using assms by (simp add: decode_def UTF8_ACCEPT_def utf8d_type Let_def)
  show "snd (decode 0 cp b) = of_nat b" if "utf8_next 0 b = 0"
  proof -
    from that assms have "b < 0x80" by (simp add: utf8_from_accept utf8_lead_def split: if_splits)
    then have "utf8_type b = 0" by (simp add: utf8_type_def)
    moreover have "unat ((0xFF :: uint32) AND of_nat b) = b"
      using unat_mask_byte[OF assms, of 8] \<open>b < 0x80\<close> by (simp add: mask_eq_exp_minus_1)
    ultimately show ?thesis using lead \<open>b < 0x80\<close>
      by (simp add: unat_of_nat word_unat_eq_iff)
  qed
  note bits = unat_mask_byte[OF assms, of 6] unat_mask_byte[OF assms, of 5] unat_mask_byte[OF assms, of 4]
    unat_mask_byte[OF assms, of 3] unat_mask_byte[OF assms, of 2]
  show "codepoint_ok (utf8_next 0 b) (snd (decode 0 cp b))" if lead_byte: "utf8_next 0 b \<notin> {0, 1}"
  proof -
    consider "0xC2 \<le> b" "b \<le> 0xDF" | "b = 0xE0" | "0xE1 \<le> b \<and> b \<le> 0xEC \<or> 0xEE \<le> b \<and> b \<le> 0xEF"
      | "b = 0xED" | "b = 0xF0" | "0xF1 \<le> b" "b \<le> 0xF3" | "b = 0xF4"
      using lead_byte unfolding utf8_from_accept[OF assms] utf8_lead_def
      by (auto split: if_split_asm)
    then show ?thesis
    proof cases
      case 1
      then have "utf8_next 0 b = 2" "utf8_type b = 2" "b mod 64 = b - 0xC0"
        using assms by (simp_all add: utf8_from_accept utf8_lead_def utf8_type_def mod_nat_eqI)
      with 1 bits show ?thesis by (auto simp: lead codepoint_ok_def mask_eq_exp_minus_1)
    next
      case 3
      then have "utf8_next 0 b = 3" "utf8_type b = 3" "b mod 32 = b - 0xE0"
        using assms by (auto simp: utf8_from_accept utf8_lead_def utf8_type_def mod_nat_eqI)
      with 3 bits show ?thesis by (auto simp: lead codepoint_ok_def mask_eq_exp_minus_1)
    next
      case 6
      then have "utf8_next 0 b = 7" "utf8_type b = 6" "b mod 4 = b - 0xF0"
        using assms by (simp_all add: utf8_from_accept utf8_lead_def utf8_type_def mod_nat_eqI)
      with 6 bits show ?thesis by (auto simp: lead codepoint_ok_def mask_eq_exp_minus_1)
    qed (unfold lead utf8_from_accept[OF assms], simp_all add: utf8_lead_def utf8_type_def codepoint_ok_def)
  qed
qed

end
