(* ===== verification/Json_Escape.thy ===== *)
theory Json_Escape
  imports Json_Dom Json_Utf8 "HOL-Library.Sublist"
begin

text \<open>
  Writing strings: \<^verbatim>\<open>dump_escaped\<close> of the class \<open>serializer\<close> in \<^verbatim>\<open>tools/json/json.hpp\<close>. The bytes are
  decoded as UTF-8, escaped into \<^verbatim>\<open>string_buffer\<close> and written when the buffer is nearly full; writing
  past its end is undefined. Bytes that are not UTF-8 raise an exception, are dropped or are replaced,
  as the error handler says; then the byte that broke a sequence is read once more. The theory shows
  what is written for every handler, with and without \<open>ensure_ascii\<close>. An exception leaves what has
  been written on the stream: it is the first component of the error.
\<close>

unbundle bit_operations_syntax

type_synonym 'a out = "(string \<times> exn) + 'a"

section \<open>Escaping\<close>

datatype error_handler_t = strict | replace | ignore

text \<open>
  The local variables of \<^verbatim>\<open>dump_escaped\<close>: the first \<open>bytes\<close> characters of \<^verbatim>\<open>string_buffer\<close> are
  \<open>es_buffer\<close>, \<^verbatim>\<open>bytes_after_last_accept\<close> is \<open>es_accepted\<close>.
\<close>

record escaper =
  es_out :: string
  es_buffer :: string
  es_state :: nat
  es_codepoint :: uint32
  es_accepted :: nat
  es_undumped :: nat

definition string_buffer_size :: nat where
  "string_buffer_size = 512"

text \<open>Writing \<open>cs\<close> at the end of the buffer; \<open>touched\<close> counts a terminating zero too.\<close>

definition buffer_put :: "string \<Rightarrow> nat \<Rightarrow> escaper \<Rightarrow> escaper out" where
  "buffer_put cs touched e =
     (if length (es_buffer e) + touched \<le> string_buffer_size
      then Inr (e\<lparr>es_buffer := es_buffer e @ cs\<rparr>) else Inl (es_out e, Undefined ''string_buffer''))"

definition hex_digit :: "nat \<Rightarrow> char" where
  "hex_digit n = (if n < 10 then char_of (48 + n) else char_of (87 + n))"

text \<open>\<^verbatim>\<open>"%04x"\<close> of a 16-bit value\<close>

definition hex4 :: "uint32 \<Rightarrow> string" where
  "hex4 w = (let n = unat (take_bit 16 w)
             in [hex_digit (n div 4096 mod 16), hex_digit (n div 256 mod 16),
                 hex_digit (n div 16 mod 16), hex_digit (n mod 16)])"

definition escape_unicode :: "uint32 \<Rightarrow> string" where
  "escape_unicode w = [CHR 0x5C, CHR ''u''] @ hex4 w"

text \<open>The switch over an accepted code point; \<open>c\<close> is its last byte.\<close>

definition escape_accept :: "bool \<Rightarrow> char \<Rightarrow> escaper \<Rightarrow> escaper out" where
  "escape_accept ensure_ascii c e =
     (let codepoint = es_codepoint e
      in if codepoint = 0x08 then buffer_put [CHR 0x5C, CHR ''b''] 2 e
         else if codepoint = 0x09 then buffer_put [CHR 0x5C, CHR ''t''] 2 e
         else if codepoint = 0x0A then buffer_put [CHR 0x5C, CHR ''n''] 2 e
         else if codepoint = 0x0C then buffer_put [CHR 0x5C, CHR ''f''] 2 e
         else if codepoint = 0x0D then buffer_put [CHR 0x5C, CHR ''r''] 2 e
         else if codepoint = 0x22 then buffer_put [CHR 0x5C, CHR 0x22] 2 e
         else if codepoint = 0x5C then buffer_put [CHR 0x5C, CHR 0x5C] 2 e
         else if codepoint \<le> 0x1F \<or> ensure_ascii \<and> codepoint \<ge> 0x7F
         then (if codepoint \<le> 0xFFFF then buffer_put (escape_unicode codepoint) 7 e
               else buffer_put (escape_unicode (0xD7C0 + drop_bit 10 codepoint) @
                      escape_unicode (0xDC00 + (codepoint AND 0x3FF))) 13 e)
         else buffer_put [c] 1 e)"

definition buffer_flush :: "escaper \<Rightarrow> escaper" where
  "buffer_flush e =
     (if string_buffer_size - length (es_buffer e) < 13
      then e\<lparr>es_out := es_out e @ es_buffer e, es_buffer := []\<rparr> else e)"

text \<open>The position of the last accepted byte.\<close>

definition buffer_accept :: "escaper \<Rightarrow> escaper" where
  "buffer_accept e = (let e1 = buffer_flush e in e1\<lparr>es_accepted := length (es_buffer e1)\<rparr>)"

text \<open>U+FFFD, escaped or in UTF-8.\<close>

definition replacement :: "bool \<Rightarrow> string" where
  "replacement ensure_ascii =
     (if ensure_ascii then CHR 0x5C # ''ufffd'' else [CHR 0xEF, CHR 0xBF, CHR 0xBD])"

text \<open>An invalid byte, with the handlers that go on.\<close>

definition escape_reject :: "error_handler_t \<Rightarrow> bool \<Rightarrow> escaper \<Rightarrow> escaper out" where
  "escape_reject error_handler ensure_ascii e =
     (let e1 = e\<lparr>es_buffer := take (es_accepted e) (es_buffer e)\<rparr>
      in rbind (if error_handler = replace
                then rbind (buffer_put (replacement ensure_ascii) (length (replacement ensure_ascii)) e1)
                       (\<lambda>e2. Inr (buffer_accept e2))
                else Inr e1) (\<lambda>e3. Inr (e3\<lparr>es_undumped := 0, es_state := UTF8_ACCEPT\<rparr>)))"

text \<open>One byte of the string; the flag says that it is to be read again.\<close>

definition escape_byte :: "error_handler_t \<Rightarrow> bool \<Rightarrow> char \<Rightarrow> escaper \<Rightarrow> (bool \<times> escaper) out" where
  "escape_byte error_handler ensure_ascii c e =
     (let (state, codepoint) = decode (es_state e) (es_codepoint e) (byte_of c);
          e1 = e\<lparr>es_state := state, es_codepoint := codepoint\<rparr>
      in if state = UTF8_ACCEPT
         then rbind (escape_accept ensure_ascii c e1) (\<lambda>e2.
                Inr (False, (buffer_accept e2)\<lparr>es_undumped := 0\<rparr>))
         else if state = UTF8_REJECT
         then (if error_handler = strict then Inl (es_out e1, JsonTypeError 316)
               else rbind (escape_reject error_handler ensure_ascii e1) (\<lambda>e2.
                      Inr (0 < es_undumped e1, e2)))
         else rbind (if \<not> ensure_ascii then buffer_put [c] 1 e1 else Inr e1) (\<lambda>e2.
                Inr (False, e2\<lparr>es_undumped := es_undumped e2 + 1\<rparr>)))"

lemma rbind_cong [fundef_cong]:
  "r = r' \<Longrightarrow> (\<And>x. r' = Inr x \<Longrightarrow> f x = g x) \<Longrightarrow> rbind r f = rbind r' g"
  by (cases r') simp_all

lemma escape_reject_undumped: "escape_reject h ea e = Inr e' \<Longrightarrow> es_undumped e' = 0"
  by (auto simp: escape_reject_def Let_def std_simps)

lemma escape_byte_again:
  assumes "escape_byte h ea c e = Inr (True, e')"
  shows "es_undumped e' < es_undumped e"
  using assms
  by (auto simp: escape_byte_def Let_def std_simps split_beta dest!: escape_reject_undumped split: if_splits)

function (sequential) escape_bytes :: "error_handler_t \<Rightarrow> bool \<Rightarrow> string \<Rightarrow> escaper \<Rightarrow> escaper out" where
  "escape_bytes h ensure_ascii [] e = Inr e"
| "escape_bytes h ensure_ascii (c # s) e =
     rbind (escape_byte h ensure_ascii c e) (\<lambda>(again, e1).
       escape_bytes h ensure_ascii (if again then c # s else s) e1)"
  by pat_completeness auto
termination
  by (relation "measures [\<lambda>(h, a, s, e). length s, \<lambda>(h, a, s, e). es_undumped e]")
    (auto dest: escape_byte_again)

declare rbind_cong [fundef_cong del]

text \<open>After the loop: what is complete is written, the rest is up to the handler.\<close>

definition escape_end :: "error_handler_t \<Rightarrow> bool \<Rightarrow> escaper \<Rightarrow> string out" where
  "escape_end error_handler ensure_ascii e =
     (if es_state e = UTF8_ACCEPT then Inr (es_out e @ es_buffer e)
      else case error_handler of
             strict \<Rightarrow> Inl (es_out e, JsonTypeError 316)
           | ignore \<Rightarrow> Inr (es_out e @ take (es_accepted e) (es_buffer e))
           | replace \<Rightarrow> Inr (es_out e @ take (es_accepted e) (es_buffer e) @ replacement ensure_ascii))"

text \<open>\<open>out\<close> is what the stream holds before; the code point is not initialised in the source.\<close>

definition dump_escaped :: "error_handler_t \<Rightarrow> bool \<Rightarrow> uint32 \<Rightarrow> string \<Rightarrow> string \<Rightarrow> string out" where
  "dump_escaped error_handler ensure_ascii codepoint s out =
     rbind (escape_bytes error_handler ensure_ascii s
              \<lparr>es_out = out, es_buffer = [], es_state = UTF8_ACCEPT, es_codepoint = codepoint,
               es_accepted = 0, es_undumped = 0\<rparr>) (escape_end error_handler ensure_ascii)"

section \<open>Code points and errors\<close>

text \<open>The state and the code point after some bytes of a code point.\<close>

definition decode_all :: "string \<Rightarrow> nat \<times> uint32" where
  "decode_all p = fold (\<lambda>c (state, cp). decode state cp (byte_of c)) p (UTF8_ACCEPT, 0)"

lemma decode_all_simps [simp]:
  "decode_all [] = (0, 0)"
  "decode_all (p @ [c]) = decode (fst (decode_all p)) (snd (decode_all p)) (byte_of c)"
  by (simp_all add: decode_all_def UTF8_ACCEPT_def split_beta)

text \<open>
  A reference for the loop: the string is cut into the code points and the errors; an error ends
  where no code point can be continued, and the byte that shows it begins anew.
\<close>

function (sequential) utf8_items :: "string \<Rightarrow> string \<Rightarrow> string option list" where
  "utf8_items p [] = (if p = [] then [] else [None])"
| "utf8_items p (c # s) =
     (let state = utf8_next (fst (decode_all p)) (byte_of c)
      in if state = UTF8_ACCEPT then Some (p @ [c]) # utf8_items [] s
         else if state = UTF8_REJECT then None # utf8_items [] (if p = [] then s else c # s)
         else utf8_items (p @ [c]) s)"
  by pat_completeness auto
termination
  by (relation "measures [\<lambda>(p, s). length s, \<lambda>(p, s). length p]") auto

text \<open>The states of an unfinished code point, and how many bytes it still lacks.\<close>

definition utf8_open :: "nat \<Rightarrow> bool" where
  "utf8_open state \<longleftrightarrow> state \<in> {2, 3, 4, 5, 6, 7, 8}"

definition utf8_missing :: "nat \<Rightarrow> nat" where
  "utf8_missing state = length (utf8_ranges state)"

lemma utf8_open_next:
  assumes "utf8_open state" "b < 256"
  shows "utf8_next state b = utf8_follow state b"
  using assms utf8_from_states[of b] by (auto simp: utf8_open_def)

lemma utf8_open_cases:
  assumes "utf8_open state" "b < 256"
  shows "0x80 \<le> b \<or> utf8_next state b = 1"
    and "utf8_next state b \<in> {0, 1} \<or> utf8_open (utf8_next state b) \<and>
           utf8_missing state = Suc (utf8_missing (utf8_next state b))"
  unfolding utf8_open_next[OF assms] using assms(1)
  by (auto simp: utf8_open_def utf8_follow_def utf8_missing_def split: if_splits)

lemma utf8_lead_cases:
  assumes "b < 256"
  shows "utf8_next 0 b = 0 \<Longrightarrow> b < 0x80"
    and "utf8_next 0 b \<notin> {0, 1} \<Longrightarrow> utf8_open (utf8_next 0 b) \<and> 0x80 \<le> b"
  unfolding utf8_from_accept[OF assms] by (auto simp: utf8_lead_def utf8_open_def split: if_splits)

lemma decode_follow:
  assumes "utf8_open state" "codepoint_ok state cp" "b < 256" "utf8_next state b \<noteq> 1"
  shows "if utf8_next state b = 0 then 0x80 \<le> unat (snd (decode state cp b))
         else codepoint_ok (utf8_next state b) (snd (decode state cp b))"
proof -
  have "unat cp < 2 ^ 20" "state \<noteq> 0"
    using assms(1,2) by (auto simp: codepoint_ok_def utf8_open_def)
  then have cp: "unat (snd (decode state cp b)) = 64 * unat cp + b mod 64"
    using unat_next_codepoint[OF assms(3)] by (simp add: decode_def UTF8_ACCEPT_def Let_def)
  obtain x where x: "b mod 64 = x" "x < 64" "0xA0 \<le> b \<and> b \<le> 0xBF \<Longrightarrow> 0x20 \<le> x"
      "0x90 \<le> b \<and> b \<le> 0xBF \<Longrightarrow> 0x10 \<le> x"
  proof
    have "b mod 64 = b - 0x80" if "0x80 \<le> b" "b \<le> 0xBF" using that by (intro mod_nat_eqI) auto
    then show "0xA0 \<le> b \<and> b \<le> 0xBF \<Longrightarrow> 0x20 \<le> b mod 64" "0x90 \<le> b \<and> b \<le> 0xBF \<Longrightarrow> 0x10 \<le> b mod 64"
      by auto
  qed simp_all
  from assms(1) consider "state = 2" | "state = 3" | "state = 4" | "state = 5" | "state = 6" | "state = 7" | "state = 8"
    by (auto simp: utf8_open_def)
  moreover obtain cp' where "snd (decode state cp b) = cp'" by simp
  ultimately show ?thesis
    using assms(2,4) x(2-4) cp unfolding utf8_open_next[OF assms(1,3)] x(1)
    by cases (auto simp: utf8_follow_def codepoint_ok_def split: if_splits)
qed

text \<open>The bytes of an unfinished code point.\<close>

definition pending :: "string \<Rightarrow> nat \<Rightarrow> uint32 \<Rightarrow> bool" where
  "pending p state cp \<longleftrightarrow>
     (if p = [] then state = 0
      else decode_all p = (state, cp) \<and> utf8_open state \<and> codepoint_ok state cp \<and>
           length p + utf8_missing state \<le> 4 \<and> list_all (\<lambda>c. 0x80 \<le> byte_of c) p)"

lemma byte_less [simp]: "byte_of c < 256"
  by (metis of_char_mod_256 mod_less_divisor zero_less_numeral)

lemma decode_first: "decode 0 cp b = decode 0 0 b"
  by (simp add: decode_def UTF8_ACCEPT_def)

lemma pending_state: "pending p state cp \<Longrightarrow> fst (decode_all p) = state"
  by (auto simp: pending_def split: if_splits)

lemma pending_decode: "pending p state cp \<Longrightarrow> decode_all (p @ [c]) = decode state cp (byte_of c)"
  using decode_first[of cp] by (auto simp: pending_def split: if_splits)

lemma pending_more:
  assumes "pending p state cp" "utf8_next state (byte_of c) \<notin> {0, 1}"
  shows "pending (p @ [c]) (utf8_next state (byte_of c)) (snd (decode state cp (byte_of c)))"
proof (cases "p = []")
  case True
  have missing: "utf8_missing (utf8_next 0 (byte_of c)) \<le> 3" by (simp add: utf8_missing_def)
  from True assms decode_lead(2)[OF byte_less, of c cp] utf8_lead_cases(2)[OF byte_less, of c] missing
    pending_decode[OF assms(1), of c]
  show ?thesis by (auto simp: pending_def prod_eq_iff)
next
  case False
  with assms(1) have p: "utf8_open state" "codepoint_ok state cp" "length p + utf8_missing state \<le> 4"
    "list_all (\<lambda>c. 0x80 \<le> byte_of c) p" by (simp_all add: pending_def)
  from assms(2) decode_follow[OF p(1,2) byte_less, of c] utf8_open_cases[OF p(1) byte_less, of c] p(3,4)
    pending_decode[OF assms(1), of c]
  show ?thesis by (auto simp: pending_def prod_eq_iff)
qed

text \<open>The last byte: the code point is below \<open>0x80\<close> exactly if it has one byte.\<close>

lemma pending_last:
  assumes "pending p state cp" "utf8_next state (byte_of c) = 0"
  shows "p = [] \<Longrightarrow> byte_of c < 0x80 \<and> snd (decode state cp (byte_of c)) = of_nat (byte_of c)"
    and "p \<noteq> [] \<Longrightarrow> 0x80 \<le> byte_of c \<and> 0x80 \<le> unat (snd (decode state cp (byte_of c)))"
proof -
  show "byte_of c < 0x80 \<and> snd (decode state cp (byte_of c)) = of_nat (byte_of c)" if "p = []"
    using assms that decode_lead(1)[OF byte_less, of c cp] utf8_lead_cases(1)[OF byte_less, of c]
    by (simp add: pending_def)
  assume "p \<noteq> []"
  with assms(1) have p: "utf8_open state" "codepoint_ok state cp" by (simp_all add: pending_def)
  show "0x80 \<le> byte_of c \<and> 0x80 \<le> unat (snd (decode state cp (byte_of c)))"
    using decode_follow[OF p byte_less, of c] utf8_open_cases(1)[OF p(1) byte_less, of c] assms(2) by simp
qed

section \<open>What is written for a code point\<close>

text \<open>Without \<open>ensure_ascii\<close> each byte stands for itself or is escaped on its own.\<close>

definition escape_char :: "char \<Rightarrow> string" where
  "escape_char c =
     (if c = CHR 0x08 then [CHR 0x5C, CHR ''b''] else if c = CHR 0x09 then [CHR 0x5C, CHR ''t'']
      else if c = CHR 0x0A then [CHR 0x5C, CHR ''n''] else if c = CHR 0x0C then [CHR 0x5C, CHR ''f'']
      else if c = CHR 0x0D then [CHR 0x5C, CHR ''r''] else if c = CHR 0x22 then [CHR 0x5C, CHR 0x22]
      else if c = CHR 0x5C then [CHR 0x5C, CHR 0x5C]
      else if byte_of c \<le> 0x1F then escape_unicode (of_nat (byte_of c)) else [c])"

text \<open>With it a code point from \<open>0x7F\<close> on is one escape of 16 bits, or two of a surrogate pair.\<close>

definition ascii_escape :: "uint32 \<Rightarrow> string" where
  "ascii_escape cp =
     (if cp < 0x7F then escape_char (char_of (unat cp))
      else if cp \<le> 0xFFFF then escape_unicode cp
      else escape_unicode (0xD7C0 + drop_bit 10 cp) @ escape_unicode (0xDC00 + (cp AND 0x3FF)))"

definition unit_text :: "bool \<Rightarrow> string \<Rightarrow> string" where
  "unit_text ensure_ascii cs =
     (if ensure_ascii then ascii_escape (snd (decode_all cs)) else concat (map escape_char cs))"

definition item_text :: "error_handler_t \<Rightarrow> bool \<Rightarrow> string option \<Rightarrow> string" where
  "item_text error_handler ensure_ascii x =
     (case x of Some cs \<Rightarrow> unit_text ensure_ascii cs
      | None \<Rightarrow> if error_handler = replace then replacement ensure_ascii else [])"

lemma item_text_simps [simp]:
  "item_text h ea (Some cs) = unit_text ea cs"
  "item_text h ea None = (if h = replace then replacement ea else [])"
  by (simp_all add: item_text_def)

lemma char_eq_byte: "c = d \<longleftrightarrow> byte_of c = byte_of d"
  by simp

lemma unat_byte: "unat (of_nat (byte_of c) :: uint32) = byte_of c"
  unfolding unat_of_nat by (intro mod_less less_trans[OF byte_less]) simp

lemma word_byte_simps:
  "(of_nat (byte_of c) :: uint32) = w \<longleftrightarrow> byte_of c = unat w"
  "(of_nat (byte_of c) :: uint32) \<le> w \<longleftrightarrow> byte_of c \<le> unat w"
  "(of_nat (byte_of c) :: uint32) < w \<longleftrightarrow> byte_of c < unat w"
  "w \<le> (of_nat (byte_of c) :: uint32) \<longleftrightarrow> unat w \<le> byte_of c"
  by (simp_all add: word_unat_eq_iff word_le_nat_alt word_less_nat_alt unat_byte)

lemma escape_char_high: "0x80 \<le> byte_of c \<Longrightarrow> escape_char c = [c]"
  unfolding escape_char_def char_eq_byte[of c] by simp

lemma escape_all_high: "list_all (\<lambda>c. 0x80 \<le> byte_of c) p \<Longrightarrow> concat (map escape_char p) = p"
  by (induction p) (simp_all add: escape_char_high)

lemma put_short: "n \<le> 13 \<Longrightarrow> length (es_buffer e) \<le> 499 \<Longrightarrow>
    buffer_put cs n e = Inr (e\<lparr>es_buffer := es_buffer e @ cs\<rparr>)"
  by (simp add: buffer_put_def string_buffer_size_def)

lemma ascii_escape_low: "byte_of c < 0x7F \<Longrightarrow> ascii_escape (of_nat (byte_of c)) = escape_char c"
  by (simp add: ascii_escape_def word_byte_simps unat_byte)

lemma escape_accept_one:
  assumes "es_codepoint e = of_nat (byte_of c)" "byte_of c < 0x80" "length (es_buffer e) \<le> 499"
  shows "escape_accept ea c e =
    Inr (e\<lparr>es_buffer := es_buffer e @ (if ea then ascii_escape (of_nat (byte_of c)) else escape_char c)\<rparr>)"
proof (cases "byte_of c = 0x7F")
  case True
  then have "c = CHR 0x7F" by (simp add: char_eq_byte[of c])
  then show ?thesis
    using assms(1,3) by (simp add: escape_accept_def escape_char_def ascii_escape_def put_short)
next
  case False
  with assms(2) have "byte_of c < 0x7F" by simp
  moreover have "escape_accept ea c e = Inr (e\<lparr>es_buffer := es_buffer e @ escape_char c\<rparr>)"
    unfolding escape_accept_def escape_char_def assms(1) Let_def
    using assms(3) \<open>byte_of c < 0x7F\<close> by (simp add: char_eq_byte[of c] word_byte_simps put_short)
  ultimately show ?thesis by (simp add: ascii_escape_low)
qed

lemma escape_accept_several:
  assumes "0x80 \<le> unat (es_codepoint e)"
    and "if ea then length (es_buffer e) \<le> 499 else length (es_buffer e) < 512"
  shows "escape_accept ea c e =
    Inr (e\<lparr>es_buffer := es_buffer e @ (if ea then ascii_escape (es_codepoint e) else [c])\<rparr>)"
proof -
  have low: "es_codepoint e \<noteq> w \<and> \<not> es_codepoint e \<le> w" if "unat w < 0x80" for w
    using assms(1) that by (auto simp: word_le_nat_alt)
  moreover have "0x7F \<le> es_codepoint e" "\<not> es_codepoint e < 0x7F"
    using assms(1) by (simp_all add: word_le_nat_alt word_less_nat_alt)
  ultimately show ?thesis
    using assms(2) by (cases ea)
      (simp_all add: escape_accept_def Let_def ascii_escape_def put_short buffer_put_def string_buffer_size_def)
qed

section \<open>The loop\<close>

text \<open>\<open>acc\<close> is the accepted part of the buffer, \<open>p\<close> the unfinished code point.\<close>

definition escaping :: "bool \<Rightarrow> string \<Rightarrow> string \<Rightarrow> escaper \<Rightarrow> bool" where
  "escaping ea acc p e \<longleftrightarrow>
     es_buffer e = acc @ (if ea then [] else p) \<and> es_accepted e = length acc \<and> length acc \<le> 499 \<and>
     es_undumped e = length p \<and> pending p (es_state e) (es_codepoint e)"

lemma buffer_accept_escaping:
  assumes "es_state e = 0"
  shows "\<exists>acc. escaping ea acc [] ((buffer_accept e)\<lparr>es_undumped := 0\<rparr>) \<and>
           es_out (buffer_accept e) @ acc = es_out e @ es_buffer e"
  using assms
  by (auto simp: buffer_accept_def buffer_flush_def escaping_def pending_def string_buffer_size_def Let_def)

lemma escape_byte_eq:
  "escape_byte h ea c e =
     (let state = utf8_next (es_state e) (byte_of c);
          e1 = e\<lparr>es_state := state, es_codepoint := snd (decode (es_state e) (es_codepoint e) (byte_of c))\<rparr>
      in if state = 0
         then rbind (escape_accept ea c e1) (\<lambda>e2. Inr (False, (buffer_accept e2)\<lparr>es_undumped := 0\<rparr>))
         else if state = 1
         then (if h = strict then Inl (es_out e, JsonTypeError 316)
               else rbind (escape_reject h ea e1) (\<lambda>e2. Inr (0 < es_undumped e, e2)))
         else rbind (if \<not> ea then buffer_put [c] 1 e1 else Inr e1) (\<lambda>e2.
                Inr (False, e2\<lparr>es_undumped := es_undumped e2 + 1\<rparr>)))"
  by (simp add: escape_byte_def UTF8_ACCEPT_def UTF8_REJECT_def split_beta Let_def)

lemma escape_byte_accept:
  assumes "escaping ea acc p e" "utf8_next (es_state e) (byte_of c) = 0"
  shows "\<exists>acc' e'. escape_byte h ea c e = Inr (False, e') \<and> escaping ea acc' [] e' \<and>
           es_out e' @ acc' = es_out e @ acc @ unit_text ea (p @ [c])"
proof -
  let ?cp = "snd (decode (es_state e) (es_codepoint e) (byte_of c))"
  let ?e1 = "e\<lparr>es_state := 0, es_codepoint := ?cp\<rparr>"
  let ?e2 = "?e1\<lparr>es_buffer := acc @ unit_text ea (p @ [c])\<rparr>"
  from assms(1) have e: "es_buffer e = acc @ (if ea then [] else p)" "length acc \<le> 499"
    "pending p (es_state e) (es_codepoint e)" by (simp_all add: escaping_def)
  note last = pending_last[OF e(3) assms(2)]
  have cp: "snd (decode_all (p @ [c])) = ?cp" using pending_decode[OF e(3), of c] by simp
  have "escape_accept ea c ?e1 = Inr ?e2"
  proof (cases "p = []")
    case True
    with last(1) escape_accept_one[of ?e1 c ea] e cp show ?thesis by (auto simp: unit_text_def)
  next
    case False
    then have p: "length p \<le> 4" "concat (map escape_char p) = p"
      using e(3) escape_all_high[of p] by (simp_all add: pending_def)
    with False last(2) escape_accept_several[of ?e1 ea c] e cp show ?thesis
      by (auto simp: unit_text_def escape_char_high simp del: decode_all_simps(2))
  qed
  then have "escape_byte h ea c e = Inr (False, (buffer_accept ?e2)\<lparr>es_undumped := 0\<rparr>)"
    unfolding escape_byte_eq using assms(2) by simp
  with buffer_accept_escaping[of ?e2 ea] show ?thesis by auto
qed

lemma escape_byte_reject:
  assumes "escaping ea acc p e" "utf8_next (es_state e) (byte_of c) = 1" "h \<noteq> strict"
  shows "\<exists>acc' e'. escape_byte h ea c e = Inr (p \<noteq> [], e') \<and> escaping ea acc' [] e' \<and>
           es_out e' @ acc' = es_out e @ acc @ item_text h ea None"
proof -
  let ?cp = "snd (decode (es_state e) (es_codepoint e) (byte_of c))"
  let ?e1 = "e\<lparr>es_state := 1, es_codepoint := ?cp\<rparr>"
  from assms(1) have e: "take (es_accepted e) (es_buffer e) = acc" "length acc \<le> 499"
    "es_undumped e = length p" "es_accepted e = length acc" by (auto simp: escaping_def)
  have step: "escape_byte h ea c e = rbind (escape_reject h ea ?e1) (\<lambda>e2. Inr (p \<noteq> [], e2))"
    unfolding escape_byte_eq using assms(2,3) e(3) by simp
  show ?thesis
  proof (cases "h = replace")
    case True
    let ?e2 = "?e1\<lparr>es_buffer := acc @ replacement ea, es_state := 0\<rparr>"
    have "length (replacement ea) \<le> 13" by (simp add: replacement_def)
    with True e have "escape_reject h ea ?e1 = Inr ((buffer_accept ?e2)\<lparr>es_undumped := 0\<rparr>)"
      by (simp add: escape_reject_def put_short UTF8_ACCEPT_def buffer_accept_def buffer_flush_def)
    with step buffer_accept_escaping[of ?e2 ea] True show ?thesis by (auto simp: item_text_def)
  next
    case False
    with step e show ?thesis
      by (simp add: escape_reject_def UTF8_ACCEPT_def item_text_def escaping_def pending_def)
  qed
qed

lemma escape_byte_more:
  assumes "escaping ea acc p e" "utf8_next (es_state e) (byte_of c) \<notin> {0, 1}"
  shows "\<exists>e'. escape_byte h ea c e = Inr (False, e') \<and> escaping ea acc (p @ [c]) e' \<and> es_out e' = es_out e"
proof -
  from assms(1) have e: "es_buffer e = acc @ (if ea then [] else p)" "length acc \<le> 499" "es_accepted e = length acc"
    "es_undumped e = length p" "pending p (es_state e) (es_codepoint e)" by (simp_all add: escaping_def)
  note more = pending_more[OF e(5) assms(2)]
  then have "length p \<le> 4" by (simp add: pending_def)
  with e assms(2) more show ?thesis
    unfolding escape_byte_eq by (simp add: buffer_put_def string_buffer_size_def escaping_def)
qed

lemma escape_byte_strict:
  assumes "utf8_next (es_state e) (byte_of c) = 1"
  shows "escape_byte strict ea c e = Inl (es_out e, JsonTypeError 316)"
  unfolding escape_byte_eq using assms by simp

lemma escape_end_escaping:
  assumes "escaping ea acc p e"
  shows "escape_end h ea e =
    (if h = strict \<and> p \<noteq> [] then Inl (es_out e, JsonTypeError 316)
     else Inr (es_out e @ acc @ concat (map (item_text h ea) (utf8_items p []))))"
proof (cases "p = []")
  case True
  with assms show ?thesis by (simp add: escaping_def escape_end_def pending_def UTF8_ACCEPT_def)
next
  case False
  with assms have "es_state e \<noteq> 0" "take (es_accepted e) (es_buffer e) = acc"
    by (auto simp: escaping_def pending_def utf8_open_def)
  with False show ?thesis by (cases h) (simp_all add: escape_end_def UTF8_ACCEPT_def item_text_def)
qed

text \<open>The loop and what follows write the texts of the items.\<close>

definition valid_part :: "string option list \<Rightarrow> string option list" where
  "valid_part xs = takeWhile (\<lambda>x. x \<noteq> None) xs"

lemma escape_bytes_items:
  "escaping ea acc p e \<Longrightarrow>
     if h = strict \<and> None \<in> set (utf8_items p s)
     then \<exists>w. rbind (escape_bytes h ea s e) (escape_end h ea) = Inl (w, JsonTypeError 316) \<and>
            prefix w (es_out e @ acc @ concat (map (item_text h ea) (valid_part (utf8_items p s))))
     else rbind (escape_bytes h ea s e) (escape_end h ea) =
            Inr (es_out e @ acc @ concat (map (item_text h ea) (utf8_items p s)))"
proof (induction p s arbitrary: acc e rule: utf8_items.induct)
  case (1 p)
  then show ?case using escape_end_escaping[OF 1, of h] by (auto simp: valid_part_def)
next
  case (2 p c s)
  have state: "fst (decode_all p) = es_state e" using "2.prems" pending_state by (auto simp: escaping_def)
  let ?n = "utf8_next (es_state e) (byte_of c)"
  consider (accept) "?n = 0" | (reject) "?n = 1" | (more) "?n \<notin> {0, 1}" by auto
  then show ?case
  proof cases
    case accept
    from escape_byte_accept[OF "2.prems" accept, of h] obtain acc' e' where
      e': "escape_byte h ea c e = Inr (False, e')" "escaping ea acc' [] e'"
      "es_out e' @ acc' = es_out e @ acc @ unit_text ea (p @ [c])" by blast
    have front: "es_out e' @ acc' @ t = es_out e @ acc @ unit_text ea (p @ [c]) @ t" for t
      using arg_cong[OF e'(3), of "\<lambda>x. x @ t"] by simp
    have items: "utf8_items p (c # s) = Some (p @ [c]) # utf8_items [] s"
      and bytes: "escape_bytes h ea (c # s) e = escape_bytes h ea s e'"
      using accept state e'(1) by (simp_all add: UTF8_ACCEPT_def)
    from "2.IH"(1)[OF refl _ e'(2)] accept state show ?thesis
      unfolding items bytes
      by (cases "h = strict \<and> None \<in> set (utf8_items [] s)") (auto simp: UTF8_ACCEPT_def valid_part_def front)
  next
    case reject
    show ?thesis
    proof (cases "h = strict")
      case True
      with reject state show ?thesis
        by (simp add: escape_byte_strict UTF8_ACCEPT_def UTF8_REJECT_def valid_part_def)
    next
      case False
      from escape_byte_reject[OF "2.prems" reject False] obtain acc' e' where
        e': "escape_byte h ea c e = Inr (p \<noteq> [], e')" "escaping ea acc' [] e'"
        "es_out e' @ acc' = es_out e @ acc @ item_text h ea None" by blast
      let ?s = "if p = [] then s else c # s"
      have front: "es_out e' @ acc' @ t = es_out e @ acc @ item_text h ea None @ t" for t
        using arg_cong[OF e'(3), of "\<lambda>x. x @ t"] by simp
      have items: "utf8_items p (c # s) = None # utf8_items [] ?s"
        and bytes: "escape_bytes h ea (c # s) e = escape_bytes h ea ?s e'"
        using reject state e'(1) by (simp_all add: UTF8_ACCEPT_def UTF8_REJECT_def)
      have "rbind (escape_bytes h ea ?s e') (escape_end h ea) =
          Inr (es_out e' @ acc' @ concat (map (item_text h ea) (utf8_items [] ?s)))"
        using "2.IH"(2)[OF refl _ _ e'(2)] reject state False by (simp add: UTF8_ACCEPT_def UTF8_REJECT_def)
      with False show ?thesis
        unfolding items bytes by (simp add: front del: item_text_simps(2) utf8_items.simps escape_bytes.simps)
    qed
  next
    case more
    from escape_byte_more[OF "2.prems" more, of h] obtain e' where
      e': "escape_byte h ea c e = Inr (False, e')" "escaping ea acc (p @ [c]) e'" "es_out e' = es_out e" by blast
    have items: "utf8_items p (c # s) = utf8_items (p @ [c]) s"
      and bytes: "escape_bytes h ea (c # s) e = escape_bytes h ea s e'"
      using more state e'(1) by (simp_all add: UTF8_ACCEPT_def UTF8_REJECT_def)
    show ?thesis
      using "2.IH"(3)[OF refl _ _ e'(2)] more state unfolding items bytes e'(3)
      by (simp add: UTF8_ACCEPT_def UTF8_REJECT_def split del: if_split)
  qed
qed

section \<open>Strings\<close>

text \<open>The states of the automaton along a string, and the strings that are UTF-8.\<close>

fun utf8_run :: "nat \<Rightarrow> string \<Rightarrow> nat" where
  "utf8_run state [] = state"
| "utf8_run state (c # s) =
     (let state' = utf8_next state (byte_of c) in if state' = UTF8_REJECT then state' else utf8_run state' s)"

definition utf8_valid :: "string \<Rightarrow> bool" where
  "utf8_valid s \<longleftrightarrow> utf8_run UTF8_ACCEPT s = UTF8_ACCEPT"

lemma items_valid:
  "pending p state cp \<Longrightarrow> utf8_run state s = 0 \<longleftrightarrow> None \<notin> set (utf8_items p s)"
proof (induction s arbitrary: p state cp)
  case Nil
  then show ?case by (auto simp: pending_def utf8_open_def)
next
  case (Cons c s)
  note state = pending_state[OF Cons.prems]
  have "pending [] 0 cp" by (simp add: pending_def)
  from state Cons.IH[OF this] Cons.IH[OF pending_more[OF Cons.prems, of c]] show ?case
    by (simp add: UTF8_ACCEPT_def UTF8_REJECT_def Let_def)
qed

lemma utf8_valid_items: "utf8_valid s \<longleftrightarrow> None \<notin> set (utf8_items [] s)"
  using items_valid[of "[]" 0 0 s] by (simp add: utf8_valid_def UTF8_ACCEPT_def pending_def)

lemma items_concat: "None \<notin> set (utf8_items p s) \<Longrightarrow> concat (map the (utf8_items p s)) = p @ s"
  by (induction p s rule: utf8_items.induct) (auto simp: Let_def split: if_splits)

lemma valid_part_prefix: "prefix (concat (map the (valid_part (utf8_items p s)))) (p @ s)"
  by (induction p s rule: utf8_items.induct) (auto simp: valid_part_def Let_def split: if_splits)

lemma items_text_bytes:
  "None \<notin> set xs \<Longrightarrow> concat (map (item_text h False) xs) = concat (map escape_char (concat (map the xs)))"
proof (induction xs)
  case (Cons x xs)
  then show ?case by (cases x) (simp_all add: unit_text_def)
qed simp

text \<open>The text of a string that is UTF-8, between the quotes.\<close>

definition escaped :: "bool \<Rightarrow> string \<Rightarrow> string" where
  "escaped ensure_ascii s = concat (map (item_text strict ensure_ascii) (utf8_items [] s))"

lemma escaped_bytes: "utf8_valid s \<Longrightarrow> escaped False s = concat (map escape_char s)"
  using items_text_bytes[of "utf8_items [] s" strict] items_concat[of "[]" s]
  by (simp add: escaped_def utf8_valid_items)

text \<open>What the handlers make of a string: errors are dropped, or replaced by U+FFFD.\<close>

definition repaired :: "error_handler_t \<Rightarrow> string \<Rightarrow> string" where
  "repaired error_handler s =
     concat (map (\<lambda>x. case x of Some cs \<Rightarrow> cs | None \<Rightarrow> if error_handler = replace then replacement False else [])
       (utf8_items [] s))"

lemma repaired_valid: "utf8_valid s \<Longrightarrow> repaired h s = s"
proof -
  have parts: "concat (map (\<lambda>x. case x of Some cs \<Rightarrow> cs | None \<Rightarrow> r) xs) = concat (map the xs)" if "None \<notin> set xs"
    for r :: string and xs
    using that by (induction xs) (auto split: option.split)
  show "utf8_valid s \<Longrightarrow> repaired h s = s"
    unfolding repaired_def utf8_valid_items by (subst parts) (simp_all add: items_concat)
qed

text \<open>A code point is one item, wherever it stands.\<close>

lemma items_unit_append:
  "utf8_items p s = [Some (p @ s)] \<Longrightarrow> s \<noteq> [] \<Longrightarrow> utf8_items p (s @ t) = Some (p @ s) # utf8_items [] t"
proof (induction s arbitrary: p)
  case (Cons c s)
  show ?case
  proof (cases "utf8_next (fst (decode_all p)) (byte_of c) \<in> {0, 1}")
    case True
    with Cons.prems show ?thesis
      by (cases s) (auto simp: UTF8_ACCEPT_def UTF8_REJECT_def Let_def split: if_splits)
  next
    case False
    with Cons.prems Cons.IH[of "p @ [c]"] show ?thesis
      by (cases "s = []") (auto simp: UTF8_ACCEPT_def UTF8_REJECT_def Let_def)
  qed
qed simp

lemma items_unit:
  "(\<And>t. utf8_items [] (p @ t) = utf8_items p t) \<Longrightarrow> Some cs \<in> set (utf8_items p s) \<Longrightarrow>
     utf8_items [] cs = [Some cs] \<and> cs \<noteq> []"
proof (induction p s rule: utf8_items.induct)
  case (1 p)
  then show ?case by (simp split: if_splits)
next
  case (2 p c s)
  let ?n = "utf8_next (fst (decode_all p)) (byte_of c)"
  consider (accept) "?n = 0" | (reject) "?n = 1" | (more) "?n \<notin> {0, 1}" by auto
  then show ?case
  proof cases
    case accept
    with "2.prems"(1)[of "[c]"] "2.prems"(2) "2.IH"(1) show ?thesis by (auto simp: UTF8_ACCEPT_def)
  next
    case reject
    with "2.prems"(2) have "Some cs \<in> set (utf8_items [] (if p = [] then s else c # s))"
      by (simp add: UTF8_ACCEPT_def UTF8_REJECT_def)
    with reject "2.IH"(2) show ?thesis by (simp add: UTF8_ACCEPT_def UTF8_REJECT_def)
  next
    case more
    have "utf8_items [] ((p @ [c]) @ t) = utf8_items (p @ [c]) t" for t
      using more "2.prems"(1)[of "c # t"] by (simp add: UTF8_ACCEPT_def UTF8_REJECT_def)
    with more "2.prems"(2) "2.IH"(3) show ?thesis by (simp add: UTF8_ACCEPT_def UTF8_REJECT_def)
  qed
qed

lemma units_items:
  assumes "\<And>cs. cs \<in> set us \<Longrightarrow> utf8_items [] cs = [Some cs] \<and> cs \<noteq> []"
  shows "utf8_items [] (concat us) = map Some us"
  using assms by (induction us) (auto simp: items_unit_append)

lemma replacement_states: "utf8_next 0 0xEF = 3" "utf8_next 3 0xBF = 2" "utf8_next 2 0xBD = 0"
  by (simp_all add: utf8_from_accept utf8_from_states utf8_lead_def utf8_follow_def)

lemma replacement_unit: "utf8_items [] (replacement False) = [Some (replacement False)]"
proof -
  have "decode_all [CHR 0xEF, CHR 0xBF] = decode 3 (snd (decode 0 0 0xEF)) 0xBF"
      "decode_all [CHR 0xEF] = decode 0 0 0xEF"
    using decode_all_simps(2)[of "[]" "CHR 0xEF"] decode_all_simps(2)[of "[CHR 0xEF]" "CHR 0xBF"]
    by (simp_all add: replacement_states)
  then show ?thesis by (simp add: replacement_def replacement_states UTF8_ACCEPT_def UTF8_REJECT_def)
qed

definition repair_item :: "error_handler_t \<Rightarrow> string option \<Rightarrow> string list" where
  "repair_item h x =
     (case x of Some cs \<Rightarrow> [cs] | None \<Rightarrow> if h = replace then [replacement False] else [])"

lemma repaired_units: "repaired h s = concat (concat (map (repair_item h) (utf8_items [] s)))"
proof -
  have "concat (map (\<lambda>x. case x of Some cs \<Rightarrow> cs | None \<Rightarrow> if h = replace then replacement False else []) xs) =
      concat (concat (map (repair_item h) xs))" for xs
    by (induction xs) (auto simp: repair_item_def split: option.split)
  then show ?thesis by (simp add: repaired_def)
qed

lemma repaired_items: "utf8_items [] (repaired h s) = map Some (concat (map (repair_item h) (utf8_items [] s)))"
  unfolding repaired_units
proof (rule units_items)
  fix cs assume "cs \<in> set (concat (map (repair_item h) (utf8_items [] s)))"
  then consider "Some cs \<in> set (utf8_items [] s)" | "cs = replacement False"
    by (auto simp: repair_item_def split: option.splits if_splits)
  then show "utf8_items [] cs = [Some cs] \<and> cs \<noteq> []"
    using items_unit[of "[]" cs s] replacement_unit by cases (auto simp: replacement_def)
qed

lemma repaired_utf8: "utf8_valid (repaired h s)"
  by (auto simp: utf8_valid_items repaired_items)

lemma replacement_text: "unit_text ea (replacement False) = replacement ea"
proof (cases ea)
  case True
  have "decode_all (replacement False) = decode 2 (snd (decode 3 (snd (decode 0 0 0xEF)) 0xBF)) 0xBD"
    using decode_all_simps(2)[of "[]" "CHR 0xEF"] decode_all_simps(2)[of "[CHR 0xEF]" "CHR 0xBF"]
      decode_all_simps(2)[of "[CHR 0xEF, CHR 0xBF]" "CHR 0xBD"] replacement_states
    by (simp add: replacement_def)
  then have "snd (decode_all (replacement False)) = 0xFFFD"
    by (simp add: decode_def UTF8_ACCEPT_def utf8d_type utf8_type_def)
  with True show ?thesis
    by (simp add: unit_text_def replacement_def ascii_escape_def escape_unicode_def hex4_def hex_digit_def char_of_eq_iff)
next
  case False
  then show ?thesis by (simp add: unit_text_def replacement_def escape_char_high)
qed

text \<open>
  So the text of any string is the text of what the handler makes of it; without \<open>replace\<close> and
  \<open>ignore\<close> a string that is not UTF-8 raises the type error 316.
\<close>

lemma items_text_repaired:
  "concat (map (item_text h ea) (utf8_items [] s)) = escaped ea (repaired h s)"
proof -
  have "concat (map (item_text h ea) xs) =
      concat (map (item_text strict ea) (map Some (concat (map (repair_item h) xs))))" for xs
    by (induction xs) (auto simp: repair_item_def replacement_text split: option.split)
  then show ?thesis by (simp only: escaped_def repaired_items)
qed

text \<open>The strings that are written without an exception.\<close>

definition writable :: "error_handler_t \<Rightarrow> string \<Rightarrow> bool" where
  "writable h s \<longleftrightarrow> (h = strict \<longrightarrow> utf8_valid s)"

lemma writable_strict [simp]: "writable strict = utf8_valid"
  by (simp add: writable_def fun_eq_iff)

lemma dump_escaped_eq:
  "writable h s \<Longrightarrow> dump_escaped h ea cp s out = Inr (out @ escaped ea (repaired h s))"
  "\<not> writable h s \<Longrightarrow>
     \<exists>w. dump_escaped h ea cp s out = Inl (w, JsonTypeError 316) \<and>
       prefix w (out @ concat (map (item_text h ea) (valid_part (utf8_items [] s))))"
proof -
  let ?e = "\<lparr>es_out = out, es_buffer = [], es_state = UTF8_ACCEPT, es_codepoint = cp, es_accepted = 0, es_undumped = 0\<rparr>"
  have "escaping ea [] [] ?e" by (simp add: escaping_def pending_def UTF8_ACCEPT_def)
  note loop = escape_bytes_items[OF this, of h s]
  show "dump_escaped h ea cp s out = Inr (out @ escaped ea (repaired h s))" if "writable h s"
    using that loop by (simp add: writable_def utf8_valid_items dump_escaped_def items_text_repaired)
  show "\<exists>w. dump_escaped h ea cp s out = Inl (w, JsonTypeError 316) \<and>
       prefix w (out @ concat (map (item_text h ea) (valid_part (utf8_items [] s))))" if "\<not> writable h s"
    using that loop by (simp add: writable_def utf8_valid_items dump_escaped_def)
qed

text \<open>What the strict handler wrote before the exception is a part of the bytewise text.\<close>

lemma torn_bytes:
  "prefix (concat (map (item_text h False) (valid_part (utf8_items [] s)))) (concat (map escape_char s))"
proof -
  have "None \<notin> set (valid_part xs)" for xs by (auto simp: valid_part_def dest: set_takeWhileD)
  note bytes = items_text_bytes[OF this, of h]
  have "prefix (concat (map escape_char a)) (concat (map escape_char b))" if "prefix a b" for a b
    using that by (auto simp: prefix_def)
  from this[OF valid_part_prefix[of "[]" s]] show ?thesis by (simp add: bytes)
qed

section \<open>Properties\<close>

text \<open>
  C27. Writing a string through the buffer of 512 bytes, with the table-driven UTF-8 decoder, is the
  same as escaping each byte on its own: the buffer never overflows and nothing is lost when it is
  flushed. Under the strict handler a string that is not UTF-8 raises the type error 316 instead, after
  a part of the text. The other handlers write the string with its errors dropped or replaced by
  U+FFFD, which is UTF-8 again; no byte of it is lost when a sequence is abandoned and its last byte
  is read again.
\<close>

theorem escaping_is_bytewise:
  "if h = strict \<and> \<not> utf8_valid s
   then \<exists>w. dump_escaped h False codepoint s out = Inl (w, JsonTypeError 316) \<and>
          prefix w (out @ concat (map escape_char s))
   else dump_escaped h False codepoint s out = Inr (out @ concat (map escape_char (repaired h s))) \<and>
          utf8_valid (repaired h s)"
proof (cases "writable h s")
  case True
  then show ?thesis
    using dump_escaped_eq(1)[OF True, of False codepoint out] repaired_utf8[of h s]
    by (auto simp: escaped_bytes writable_def)
next
  case False
  from dump_escaped_eq(2)[OF False, of False codepoint out] obtain w where
    "dump_escaped h False codepoint s out = Inl (w, JsonTypeError 316)"
    "prefix w (out @ concat (map escape_char s))"
    using torn_bytes[of h s] by (meson prefix_order.trans same_prefix_prefix)
  with False show ?thesis by (auto simp: writable_def)
qed

end
