(* ===== verification/Json_Grisu.thy ===== *)
theory Json_Grisu
  imports Em_Prelude "HOL-Library.Signed_Division"
begin

text \<open>
  The printing of doubles in \<^verbatim>\<open>tools/json/json.hpp\<close> (namespace \<open>dtoa_impl\<close>): the Grisu2 algorithm on
  64-bit words. A double is given by its bits. A failed assertion, a loop that does not end and an
  access outside of an array are undefined; a loop is a partial function, whose value is \<open>None\<close> where
  it does not end. The lemmas of this theory show what the arithmetic computes: the product of two
  floating-point numbers is rounded correctly, normalising keeps the value, the boundaries of a double
  are the midpoints to its neighbours, and the powers of ten in the table are off by at most half a
  unit.
\<close>

unbundle bit_operations_syntax

section \<open>Assertions and loops\<close>

definition assert_that :: "bool \<Rightarrow> 'a res \<Rightarrow> 'a res" where
  "assert_that b r = (if b then r else Inl (Undefined ''assert''))"

lemma assert_that_simps [simp]:
  "assert_that True r = r"
  "assert_that False r = Inl (Undefined ''assert'')"
  by (simp_all add: assert_that_def)

definition returned :: "'a res option \<Rightarrow> 'a res" where
  "returned r = (case r of None \<Rightarrow> Inl (Undefined ''loop'') | Some x \<Rightarrow> x)"

lemma returned_Some [simp]: "returned (Some r) = r"
  by (simp add: returned_def)

section \<open>Binary floating-point numbers\<close>

record diyfp =
  dy_f :: "64 word"
  dy_e :: int

abbreviation diyfp_of :: "64 word \<Rightarrow> int \<Rightarrow> diyfp" where
  "diyfp_of f e \<equiv> \<lparr>dy_f = f, dy_e = e\<rparr>"

definition diyfp_sub :: "diyfp \<Rightarrow> diyfp \<Rightarrow> diyfp res" where
  "diyfp_sub x y =
     assert_that (dy_e x = dy_e y) (
     assert_that (dy_f x \<ge> dy_f y) (
     Inr (diyfp_of (dy_f x - dy_f y) (dy_e x))))"

definition diyfp_mul :: "diyfp \<Rightarrow> diyfp \<Rightarrow> diyfp" where
  "diyfp_mul x y =
     (let u_lo = dy_f x AND 0xFFFFFFFF; u_hi = drop_bit 32 (dy_f x);
          v_lo = dy_f y AND 0xFFFFFFFF; v_hi = drop_bit 32 (dy_f y);
          p0 = u_lo * v_lo; p1 = u_lo * v_hi; p2 = u_hi * v_lo; p3 = u_hi * v_hi;
          p0_hi = drop_bit 32 p0;
          p1_lo = p1 AND 0xFFFFFFFF; p1_hi = drop_bit 32 p1;
          p2_lo = p2 AND 0xFFFFFFFF; p2_hi = drop_bit 32 p2;
          Q = p0_hi + p1_lo + p2_lo;
          Q = Q + push_bit 31 1;
          h = p3 + p2_hi + p1_hi + drop_bit 32 Q
      in diyfp_of h (dy_e x + dy_e y + 64))"

partial_function (option) normalize_loop :: "diyfp \<Rightarrow> diyfp res option" where
  [code]: "normalize_loop x =
     (if drop_bit 63 (dy_f x) = 0 then normalize_loop (diyfp_of (push_bit 1 (dy_f x)) (dy_e x - 1))
      else Some (Inr x))"

definition diyfp_normalize :: "diyfp \<Rightarrow> diyfp res" where
  "diyfp_normalize x = assert_that (dy_f x \<noteq> 0) (returned (normalize_loop x))"

definition diyfp_normalize_to :: "diyfp \<Rightarrow> int \<Rightarrow> diyfp res" where
  "diyfp_normalize_to x target_exponent =
     (let delta = dy_e x - target_exponent
      in assert_that (delta \<ge> 0) (
         assert_that (drop_bit (nat delta) (push_bit (nat delta) (dy_f x)) = dy_f x) (
         Inr (diyfp_of (push_bit (nat delta) (dy_f x)) target_exponent))))"

record boundaries =
  bd_w :: diyfp
  bd_minus :: diyfp
  bd_plus :: diyfp

definition kBias :: int where
  "kBias = 1024 - 1 + (53 - 1)"

definition kHiddenBit :: "64 word" where
  "kHiddenBit = push_bit (53 - 1) 1"

text \<open>The value of a double is positive when its bits, without the sign, are not all zero.\<close>

definition double_positive :: "64 word \<Rightarrow> bool" where
  "double_positive bits \<longleftrightarrow> \<not> bit bits 63 \<and> bits \<noteq> 0"

definition compute_boundaries :: "64 word \<Rightarrow> boundaries res" where
  "compute_boundaries bits =
     assert_that (isfinite bits) (
     assert_that (double_positive bits) (
     let E = drop_bit (53 - 1) bits;
         F = bits AND (kHiddenBit - 1);
         is_denormal = (E = 0);
         v = (if is_denormal then diyfp_of F (1 - kBias) else diyfp_of (F + kHiddenBit) (int (unat E) - kBias));
         lower_boundary_is_closer = (F = 0 \<and> E > 1);
         m_plus = diyfp_of (2 * dy_f v + 1) (dy_e v - 1);
         m_minus = (if lower_boundary_is_closer then diyfp_of (4 * dy_f v - 1) (dy_e v - 2)
                    else diyfp_of (2 * dy_f v - 1) (dy_e v - 1))
     in rbind (diyfp_normalize m_plus) (\<lambda>w_plus.
        rbind (diyfp_normalize_to m_minus (dy_e w_plus)) (\<lambda>w_minus.
        rbind (diyfp_normalize v) (\<lambda>w.
        Inr \<lparr>bd_w = w, bd_minus = w_minus, bd_plus = w_plus\<rparr>)))))"

section \<open>Powers of ten\<close>

definition kAlpha :: int where
  "kAlpha = -60"

definition kGamma :: int where
  "kGamma = -32"

record cached_power =
  cp_f :: "64 word"
  cp_e :: int
  cp_k :: int

definition kCachedPowersMinDecExp :: int where
  "kCachedPowersMinDecExp = -300"

definition kCachedPowersDecStep :: int where
  "kCachedPowersDecStep = 8"

definition kCachedPowers :: "(64 word \<times> int \<times> int) list" where
  "kCachedPowers =
     [(0xAB70FE17C79AC6CA, -1060, -300), (0xFF77B1FCBEBCDC4F, -1034, -292), (0xBE5691EF416BD60C, -1007, -284),
      (0x8DD01FAD907FFC3C, -980, -276), (0xD3515C2831559A83, -954, -268), (0x9D71AC8FADA6C9B5, -927, -260),
      (0xEA9C227723EE8BCB, -901, -252), (0xAECC49914078536D, -874, -244), (0x823C12795DB6CE57, -847, -236),
      (0xC21094364DFB5637, -821, -228), (0x9096EA6F3848984F, -794, -220), (0xD77485CB25823AC7, -768, -212),
      (0xA086CFCD97BF97F4, -741, -204), (0xEF340A98172AACE5, -715, -196), (0xB23867FB2A35B28E, -688, -188),
      (0x84C8D4DFD2C63F3B, -661, -180), (0xC5DD44271AD3CDBA, -635, -172), (0x936B9FCEBB25C996, -608, -164),
      (0xDBAC6C247D62A584, -582, -156), (0xA3AB66580D5FDAF6, -555, -148), (0xF3E2F893DEC3F126, -529, -140),
      (0xB5B5ADA8AAFF80B8, -502, -132), (0x87625F056C7C4A8B, -475, -124), (0xC9BCFF6034C13053, -449, -116),
      (0x964E858C91BA2655, -422, -108), (0xDFF9772470297EBD, -396, -100), (0xA6DFBD9FB8E5B88F, -369, -92),
      (0xF8A95FCF88747D94, -343, -84), (0xB94470938FA89BCF, -316, -76), (0x8A08F0F8BF0F156B, -289, -68),
      (0xCDB02555653131B6, -263, -60), (0x993FE2C6D07B7FAC, -236, -52), (0xE45C10C42A2B3B06, -210, -44),
      (0xAA242499697392D3, -183, -36), (0xFD87B5F28300CA0E, -157, -28), (0xBCE5086492111AEB, -130, -20),
      (0x8CBCCC096F5088CC, -103, -12), (0xD1B71758E219652C, -77, -4), (0x9C40000000000000, -50, 4),
      (0xE8D4A51000000000, -24, 12), (0xAD78EBC5AC620000, 3, 20), (0x813F3978F8940984, 30, 28),
      (0xC097CE7BC90715B3, 56, 36), (0x8F7E32CE7BEA5C70, 83, 44), (0xD5D238A4ABE98068, 109, 52),
      (0x9F4F2726179A2245, 136, 60), (0xED63A231D4C4FB27, 162, 68), (0xB0DE65388CC8ADA8, 189, 76),
      (0x83C7088E1AAB65DB, 216, 84), (0xC45D1DF942711D9A, 242, 92), (0x924D692CA61BE758, 269, 100),
      (0xDA01EE641A708DEA, 295, 108), (0xA26DA3999AEF774A, 322, 116), (0xF209787BB47D6B85, 348, 124),
      (0xB454E4A179DD1877, 375, 132), (0x865B86925B9BC5C2, 402, 140), (0xC83553C5C8965D3D, 428, 148),
      (0x952AB45CFA97A0B3, 455, 156), (0xDE469FBD99A05FE3, 481, 164), (0xA59BC234DB398C25, 508, 172),
      (0xF6C69A72A3989F5C, 534, 180), (0xB7DCBF5354E9BECE, 561, 188), (0x88FCF317F22241E2, 588, 196),
      (0xCC20CE9BD35C78A5, 614, 204), (0x98165AF37B2153DF, 641, 212), (0xE2A0B5DC971F303A, 667, 220),
      (0xA8D9D1535CE3B396, 694, 228), (0xFB9B7CD9A4A7443C, 720, 236), (0xBB764C4CA7A44410, 747, 244),
      (0x8BAB8EEFB6409C1A, 774, 252), (0xD01FEF10A657842C, 800, 260), (0x9B10A4E5E9913129, 827, 268),
      (0xE7109BFBA19C0C9D, 853, 276), (0xAC2820D9623BF429, 880, 284), (0x80444B5E7AA7CF85, 907, 292),
      (0xBF21E44003ACDD2D, 933, 300), (0x8E679C2F5E44FF8F, 960, 308), (0xD433179D9C8CB841, 986, 316),
      (0x9E19DB92B4E31BA9, 1013, 324)]"

definition get_cached_power_for_binary_exponent :: "int \<Rightarrow> cached_power res" where
  "get_cached_power_for_binary_exponent e =
     assert_that (e \<ge> -1500) (
     assert_that (e \<le> 1500) (
     let f = kAlpha - e - 1;
         k = (f * 78913) sdiv (2 ^ 18) + (if f > 0 then 1 else 0);
         index = (- kCachedPowersMinDecExp + k + (kCachedPowersDecStep - 1)) sdiv kCachedPowersDecStep
     in assert_that (index \<ge> 0) (
        assert_that (nat index < length kCachedPowers) (
        let cached = (case kCachedPowers ! nat index of (f, e, k) \<Rightarrow> \<lparr>cp_f = f, cp_e = e, cp_k = k\<rparr>)
        in assert_that (kAlpha \<le> cp_e cached + e + 64) (
           assert_that (kGamma \<ge> cp_e cached + e + 64) (
           Inr cached))))))"

definition find_largest_pow10 :: "uint32 \<Rightarrow> nat \<times> uint32" where
  "find_largest_pow10 n =
     (if n \<ge> 1000000000 then (10, 1000000000)
      else if n \<ge> 100000000 then (9, 100000000)
      else if n \<ge> 10000000 then (8, 10000000)
      else if n \<ge> 1000000 then (7, 1000000)
      else if n \<ge> 100000 then (6, 100000)
      else if n \<ge> 10000 then (5, 10000)
      else if n \<ge> 1000 then (4, 1000)
      else if n \<ge> 100 then (3, 100)
      else if n \<ge> 10 then (2, 10)
      else (1, 1))"

section \<open>Words as natural numbers\<close>

lemma unat_drop_bit_div: "unat (drop_bit n w) = unat w div 2 ^ n"
  by (metis unat_drop_bit_eq drop_bit_eq_div)

lemma unat_take_bit_mod: "unat (take_bit n w) = unat w mod 2 ^ n"
  by (metis unsigned_take_bit_eq take_bit_eq_mod)

lemma unat_and_mask: "unat (w AND mask n) = unat w mod 2 ^ n"
  by (simp add: unat_take_bit_mod flip: take_bit_eq_mask)

lemma unat_push_bit_mult: "unat w * 2 ^ n < 2 ^ LENGTH('a) \<Longrightarrow> unat (push_bit n w :: 'a::len word) = unat w * 2 ^ n"
  using unat_of_nat[of "unat w * 2 ^ n", where 'a = 'a] by (simp add: push_bit_eq_mult)

lemma unat_plus_fits: "unat x + unat y < 2 ^ LENGTH('a) \<Longrightarrow> unat (x + y :: 'a::len word) = unat x + unat y"
  by (simp add: unat_word_ariths)

lemma unat_times_fits: "unat x * unat y < 2 ^ LENGTH('a) \<Longrightarrow> unat (x * y :: 'a::len word) = unat x * unat y"
  by (simp add: unat_word_ariths)

lemma unat_low32: "unat (w AND 0xFFFFFFFF :: 64 word) = unat w mod 2 ^ 32"
  using unat_and_mask[of w 32] by (simp add: mask_eq_exp_minus_1)

section \<open>The product\<close>

lemma div_carry:
  fixes x y z k :: nat
  shows "(x + y + z) div k = y div k + z div k + (x + y mod k + z mod k) div k"
proof (cases "k = 0")
  case False
  have "x + y + z = (x + y mod k + z mod k) + k * (y div k + z div k)"
    using mult_div_mod_eq[of k y] mult_div_mod_eq[of k z] by (simp add: algebra_simps)
  then show ?thesis using False by (metis add.commute div_mult_self2)
qed simp

lemma product_high:
  fixes a b c d h k :: nat
  assumes "0 < k"
  shows "b * d + b * c div k + a * d div k + (a * c div k + a * d mod k + b * c mod k + h) div k
         = ((a + k * b) * (c + k * d) + k * h) div (k * k)"
proof -
  have "(a + k * b) * (c + k * d) + k * h = a * c + k * (a * d + b * c + h + k * (b * d))"
    by (simp add: algebra_simps)
  then have "((a + k * b) * (c + k * d) + k * h) div k = a * c div k + (a * d + b * c + h + k * (b * d))"
    using assms by (metis add.commute div_mult_self2 less_not_refl)
  then have "((a + k * b) * (c + k * d) + k * h) div (k * k) = (a * c div k + h + a * d + b * c + k * (b * d)) div k"
    by (simp add: div_mult2_eq ac_simps)
  also have "\<dots> = b * d + (a * c div k + h + a * d + b * c) div k"
    using assms by (metis add.commute div_mult_self2 less_not_refl)
  finally show ?thesis using div_carry[of "a * c div k + h" "a * d" "b * c" k] by (simp add: ac_simps)
qed

lemma unat_bound: "unat (w :: 'a::len word) < 2 ^ LENGTH('a)"
  by (rule unsigned_less)

lemma drop_bit_of_nat64: "p < 2 ^ 64 \<Longrightarrow> drop_bit n (of_nat p :: 64 word) = of_nat (p div 2 ^ n)"
  by (rule word_unat_eq_iff[THEN iffD2]) (simp add: unat_drop_bit_div unat_of_nat less_imp_diff_less div_le_dividend[THEN le_less_trans])

lemma low32_of_nat: "(of_nat p AND 0xFFFFFFFF :: 64 word) = of_nat (p mod 2 ^ 32)"
  by (rule word_unat_eq_iff[THEN iffD2]) (simp add: unat_low32 unat_of_nat mod_mod_cancel)

lemma diyfp_mul_eq:
  "diyfp_mul x y =
     diyfp_of (of_nat ((unat (dy_f x) * unat (dy_f y) + 2 ^ 63) div 2 ^ 64)) (dy_e x + dy_e y + 64)"
proof -
  define a b c d where "a = unat (dy_f x) mod 2 ^ 32" and "b = unat (dy_f x) div 2 ^ 32"
    and "c = unat (dy_f y) mod 2 ^ 32" and "d = unat (dy_f y) div 2 ^ 32"
  have small: "a < 2 ^ 32" "b < 2 ^ 32" "c < 2 ^ 32" "d < 2 ^ 32"
    using unat_bound[of "dy_f x"] unat_bound[of "dy_f y"]
    by (auto simp: a_def b_def c_def d_def less_mult_imp_div_less)
  have x: "unat (dy_f x) = a + 2 ^ 32 * b" "unat (dy_f y) = c + 2 ^ 32 * d"
    by (simp_all add: a_def b_def c_def d_def)
  have prod: "m * n < 2 ^ 64" if "m < 2 ^ 32" "n < 2 ^ 32" for m n :: nat
    using mult_strict_mono[OF that] by simp
  have carry: "a * c div 2 ^ 32 + a * d mod 2 ^ 32 + b * c mod 2 ^ 32 + 2 ^ 31 < 2 ^ 64"
    using less_mult_imp_div_less[of "a * c" "2 ^ 32" "2 ^ 32"] prod[OF small(1,3)]
      mod_less_divisor[of "2 ^ 32" "a * d"] mod_less_divisor[of "2 ^ 32" "b * c"] by simp
  have parts: "dy_f x AND 0xFFFFFFFF = of_nat a" "drop_bit 32 (dy_f x) = of_nat b"
    "dy_f y AND 0xFFFFFFFF = of_nat c" "drop_bit 32 (dy_f y) = of_nat d"
    using low32_of_nat[of "unat (dy_f x)"] low32_of_nat[of "unat (dy_f y)"]
      drop_bit_of_nat64[of "unat (dy_f x)" 32] drop_bit_of_nat64[of "unat (dy_f y)" 32]
      unat_bound[of "dy_f x"] unat_bound[of "dy_f y"] by (simp_all add: a_def b_def c_def d_def)
  have "dy_f (diyfp_mul x y) = of_nat (b * d + b * c div 2 ^ 32 + a * d div 2 ^ 32
      + (a * c div 2 ^ 32 + a * d mod 2 ^ 32 + b * c mod 2 ^ 32 + 2 ^ 31) div 2 ^ 32)"
    unfolding diyfp_mul_def Let_def parts low32_of_nat of_nat_mult[symmetric]
      drop_bit_of_nat64[OF prod[OF small(1,3)]] drop_bit_of_nat64[OF prod[OF small(1,4)]]
      drop_bit_of_nat64[OF prod[OF small(2,3)]]
    using drop_bit_of_nat64[OF carry, of 32] by (simp add: push_bit_eq_mult)
  also have "\<dots> = of_nat ((unat (dy_f x) * unat (dy_f y) + 2 ^ 63) div 2 ^ 64)"
    using product_high[of "2 ^ 32" b d c a "2 ^ 31"] by (simp add: x)
  finally show ?thesis by (simp add: diyfp_mul_def Let_def)
qed

section \<open>Normalising\<close>

lemma drop_bit_63_zero: "drop_bit 63 (w :: 64 word) = 0 \<longleftrightarrow> unat w < 2 ^ 63"
  by (simp add: word_unat_eq_iff unat_drop_bit_div div_eq_0_iff)

lemma normalize_loop_eq:
  "2 ^ 63 \<le> unat f * 2 ^ n \<Longrightarrow> unat f * 2 ^ n < 2 ^ 64 \<Longrightarrow>
   normalize_loop (diyfp_of f e) = Some (Inr (diyfp_of (of_nat (unat f * 2 ^ n)) (e - int n)))"
proof (induction n arbitrary: f e)
  case 0
  then show ?case by (subst normalize_loop.simps) (simp add: drop_bit_63_zero)
next
  case (Suc n)
  have "unat f * 2 \<le> unat f * 2 ^ Suc n" by simp
  then have less: "unat f * 2 < 2 ^ 64" using Suc.prems(2) by linarith
  then have double: "unat (push_bit 1 f) = unat f * 2"
    using unat_push_bit_mult[of f 1] by simp
  have "normalize_loop (diyfp_of (push_bit 1 f) (e - 1))
      = Some (Inr (diyfp_of (of_nat (unat (push_bit 1 f) * 2 ^ n)) (e - 1 - int n)))"
    by (rule Suc.IH) (use Suc.prems in \<open>simp_all only: double power_Suc mult.assoc\<close>)
  then show ?case using less
    by (subst normalize_loop.simps) (simp add: drop_bit_63_zero double)
qed

lemma normalize_eq:
  assumes "2 ^ 63 \<le> unat f * 2 ^ n" "unat f * 2 ^ n < 2 ^ 64"
  shows "diyfp_normalize (diyfp_of f e) = Inr (diyfp_of (of_nat (unat f * 2 ^ n)) (e - int n))"
proof -
  have "f \<noteq> 0" using assms(1) by auto
  then show ?thesis using normalize_loop_eq[OF assms] by (simp add: diyfp_normalize_def)
qed

lemma normalize_shift_exists:
  fixes u :: nat
  assumes "0 < u" "u < 2 ^ 64"
  shows "\<exists>n. 2 ^ 63 \<le> u * 2 ^ n \<and> u * 2 ^ n < 2 ^ 64"
  using assms
proof (induction "2 ^ 64 - u" arbitrary: u rule: less_induct)
  case less
  show ?case
  proof (cases "2 ^ 63 \<le> u")
    case True
    with less.prems show ?thesis by (intro exI[of _ 0]) simp
  next
    case False
    then have "2 ^ 64 - 2 * u < 2 ^ 64 - u" using less.prems by linarith
    with less.hyps[of "2 * u"] less.prems False obtain n where "2 ^ 63 \<le> 2 * u * 2 ^ n" "2 * u * 2 ^ n < 2 ^ 64"
      by auto
    then show ?thesis by (intro exI[of _ "Suc n"]) (simp add: mult.assoc mult.left_commute)
  qed
qed

lemma normalize_to_eq:
  assumes "unat f * 2 ^ n < 2 ^ 64" 
  shows "diyfp_normalize_to (diyfp_of f e) (e - int n) = Inr (diyfp_of (of_nat (unat f * 2 ^ n)) (e - int n))"
proof -
  have "unat (push_bit n f) = unat f * 2 ^ n" using assms unat_push_bit_mult[of f n] by simp
  then have "drop_bit n (push_bit n f) = f" "push_bit n f = of_nat (unat f * 2 ^ n)"
    using assms by (simp_all add: word_unat_eq_iff unat_drop_bit_div push_bit_eq_mult)
  then show ?thesis by (simp add: diyfp_normalize_to_def Let_def)
qed

section \<open>The boundaries of a double\<close>

text \<open>Significand and exponent of a positive double, and the distances to the midpoints.\<close>

definition double_f :: "64 word \<Rightarrow> nat" where
  "double_f bits = (if unat bits div 2 ^ 52 = 0 then unat bits mod 2 ^ 52 else unat bits mod 2 ^ 52 + 2 ^ 52)"

definition double_e :: "64 word \<Rightarrow> int" where
  "double_e bits = (if unat bits div 2 ^ 52 = 0 then -1074 else int (unat bits div 2 ^ 52) - 1075)"

definition closer_below :: "64 word \<Rightarrow> bool" where
  "closer_below bits \<longleftrightarrow> unat bits mod 2 ^ 52 = 0 \<and> 1 < unat bits div 2 ^ 52"

lemma double_f_bounds: "double_positive bits \<Longrightarrow> 0 < double_f bits \<and> double_f bits < 2 ^ 53"
  using mod_less_divisor[of "2 ^ 52" "unat bits"]
  by (auto simp: double_f_def double_positive_def div_eq_0_iff unat_gt_0) 

lemma positive_bound: "double_positive bits \<Longrightarrow> unat bits < 2 ^ 63"
  using drop_bit_eq_zero_iff_not_bit_last[of bits]
  by (simp add: double_positive_def drop_bit_63_zero)

lemma hidden_bit: "kHiddenBit - 1 = mask 52"
  by (simp add: kHiddenBit_def mask_eq_exp_minus_1)

lemma finite_exponent:
  assumes "isfinite bits" "double_positive bits"
  shows "unat bits div 2 ^ 52 < 2047"
proof -
  have E: "unat bits div 2 ^ 52 < 2048" using positive_bound[OF assms(2)] by (simp add: less_mult_imp_div_less)
  have "unat (drop_bit 52 bits AND 0x7FF) = unat bits div 2 ^ 52 mod 2 ^ 11"
    using unat_and_mask[of "drop_bit 52 bits" 11] by (simp add: mask_eq_exp_minus_1 unat_drop_bit_div)
  then have "unat bits div 2 ^ 52 \<noteq> 2047" using E assms(1) by (auto simp: isfinite_def word_unat_eq_iff)
  with E show ?thesis by simp
qed

lemma decode_double:
  "(if drop_bit (53 - 1) bits = 0 then diyfp_of (bits AND (kHiddenBit - 1)) (1 - kBias)
    else diyfp_of ((bits AND (kHiddenBit - 1)) + kHiddenBit) (int (unat (drop_bit (53 - 1) bits)) - kBias))
   = diyfp_of (of_nat (double_f bits)) (double_e bits)"
proof -
  have E: "drop_bit 52 bits = 0 \<longleftrightarrow> unat bits div 2 ^ 52 = 0" by (simp add: word_unat_eq_iff unat_drop_bit_div)
  have F: "bits AND mask 52 = of_nat (unat bits mod 2 ^ 52)"
    by (rule word_unat_eq_iff[THEN iffD2]) (simp add: unat_and_mask unat_of_nat)
  have H: "kHiddenBit = of_nat (2 ^ 52)" by (simp add: kHiddenBit_def)
  have "(bits AND mask 52) + kHiddenBit = of_nat (unat bits mod 2 ^ 52 + 2 ^ 52)"
    unfolding F H by simp
  then show ?thesis
    unfolding hidden_bit by (simp add: E F double_f_def double_e_def kBias_def unat_drop_bit_div)
qed

lemma closer_below_iff:
  "(bits AND (kHiddenBit - 1) = 0 \<and> drop_bit (53 - 1) bits > 1) \<longleftrightarrow> closer_below bits"
  unfolding hidden_bit closer_below_def
  by (simp add: word_unat_eq_iff word_less_nat_alt unat_and_mask unat_drop_bit_div)

lemma normalize_shift_bounds:
  assumes "0 < f" "f < 2 ^ 53" "2 ^ 63 \<le> f * 2 ^ n" "f * 2 ^ n < (2 :: nat) ^ 64"
  shows "11 \<le> n" "n \<le> 63"
proof -
  show "11 \<le> n"
  proof (rule ccontr)
    assume "\<not> 11 \<le> n"
    then have "f * 2 ^ n \<le> (2 ^ 53 - 1) * 2 ^ 10" using assms(2) by (intro mult_le_mono power_increasing) auto
    then show False using assms(3) by simp
  qed
  have "2 ^ n \<le> f * 2 ^ n" using assms(1) by simp
  then have "(2 :: nat) ^ n < 2 ^ 64" using assms(4) by linarith
  then show "n \<le> 63" using power_less_imp_less_exp[of "2::nat" n 64] by simp
qed

lemma compute_boundaries_eq:
  assumes "isfinite bits" "double_positive bits"
    and n: "2 ^ 63 \<le> double_f bits * 2 ^ n" "double_f bits * 2 ^ n < 2 ^ 64"
  shows "compute_boundaries bits = Inr
     \<lparr>bd_w = diyfp_of (of_nat (double_f bits * 2 ^ n)) (double_e bits - int n),
      bd_minus = diyfp_of (of_nat (double_f bits * 2 ^ n - (if closer_below bits then 2 ^ (n - 2) else 2 ^ (n - 1))))
        (double_e bits - int n),
      bd_plus = diyfp_of (of_nat (double_f bits * 2 ^ n + 2 ^ (n - 1))) (double_e bits - int n)\<rparr>"
proof -
  define f e where "f = double_f bits" and "e = double_e bits"
  have f: "0 < f" "f < 2 ^ 53" using double_f_bounds[OF assms(2)] by (auto simp: f_def)
  note n' = n[folded f_def]
  obtain k where k: "n = k + 2" using normalize_shift_bounds(1)[OF f n'] by (intro that[of "n - 2"]) simp
  have "(f + 1) * 2 ^ n \<le> 2 ^ 64"
  proof -
    have "n \<le> 63" by (rule normalize_shift_bounds(2)[OF f n'])
    then have "2 ^ n dvd (2 :: nat) ^ 64" by (intro le_imp_power_dvd) simp
    then obtain q where q: "2 ^ 64 = q * (2 :: nat) ^ n" by (metis dvd_def mult.commute)
    then have "f < q" using n'(2) unfolding q by simp
    then have "(f + 1) * 2 ^ n \<le> q * 2 ^ n" by (intro mult_le_mono1) simp
    then show ?thesis using q by simp
  qed
  moreover have "(2 * f + 1) * 2 ^ (k + 1) < (f + 1) * 2 ^ n" by (simp add: k algebra_simps)
  ultimately have top: "(2 * f + 1) * 2 ^ (k + 1) < 2 ^ 64" by linarith
  have fits: "unat (of_nat m :: 64 word) = m" if "m < 2 ^ 56" for m
    using that by (simp add: unat_of_nat)
  have words: "2 * of_nat f + 1 = (of_nat (2 * f + 1) :: 64 word)" "4 * of_nat f - 1 = (of_nat (4 * f - 1) :: 64 word)"
    "2 * of_nat f - 1 = (of_nat (2 * f - 1) :: 64 word)" using f(1) by (simp_all add: of_nat_diff)
  have w: "diyfp_normalize (diyfp_of (of_nat f) e) = Inr (diyfp_of (of_nat (f * 2 ^ n)) (e - int n))"
    using normalize_eq[of "of_nat f" n e] fits[of f] f n' by simp
  have plus: "diyfp_normalize (diyfp_of (of_nat (2 * f + 1)) (e - 1)) = Inr (diyfp_of (of_nat (f * 2 ^ n + 2 ^ (n - 1))) (e - int n))"
    using normalize_eq[of "of_nat (2 * f + 1)" "k + 1" "e - 1"] fits[of "2 * f + 1"] f n' top by (simp add: k algebra_simps)
  have minus: "diyfp_normalize_to (diyfp_of (of_nat (2 * f - 1)) (e - 1)) (e - int n)
      = Inr (diyfp_of (of_nat (f * 2 ^ n - 2 ^ (n - 1))) (e - int n))"
    using normalize_to_eq[of "of_nat (2 * f - 1)" "k + 1" "e - 1"] fits[of "2 * f - 1"] f n'
    by (simp add: k algebra_simps diff_mult_distrib2)
  have close: "diyfp_normalize_to (diyfp_of (of_nat (4 * f - 1)) (e - 2)) (e - int n)
      = Inr (diyfp_of (of_nat (f * 2 ^ n - 2 ^ (n - 2))) (e - int n))"
    using normalize_to_eq[of "of_nat (4 * f - 1)" k "e - 2"] fits[of "4 * f - 1"] f n'
    by (simp add: k algebra_simps diff_mult_distrib2)
  show ?thesis
    unfolding compute_boundaries_def Let_def decode_double closer_below_iff f_def[symmetric] e_def[symmetric]
    by (simp only: assms assert_that_simps words diyfp.simps w plus minus close rbind_simps split: if_split) simp
qed

section \<open>The table of powers\<close>

text \<open>
  The decimal exponents of the table go up in steps of eight, and the binary ones follow from them.
  So the choice of an entry can be checked for every exponent that occurs without looking into the
  table.
\<close>

lemma kCachedPowers_exponents:
  "map snd kCachedPowers = map (\<lambda>i. ((8 * i - 300) * 217706 div 65536 - 63, 8 * i - 300)) [0..78]"
  by code_simp

definition power_index :: "int \<Rightarrow> int" where
  "power_index e =
     (let f = -61 - e
      in (307 + (if f > 0 then f * 78913 div 262144 + 1 else - (- f * 78913 div 262144))) div 8)"

definition power_index_ok :: "int \<Rightarrow> bool" where
  "power_index_ok e =
     (let i = power_index e; x = (8 * i - 300) * 217706 div 65536 + 1 + e
      in 0 \<le> i \<and> i < 79 \<and> -60 \<le> x \<and> x \<le> -34)"

lemma power_index_ok_blocks:
  "list_all (\<lambda>a. list_all (\<lambda>b. 50 * a + b < -1137 \<or> 960 < 50 * a + b \<or> power_index_ok (50 * a + b)) [0..49]) [-23..19]"
  by code_simp

lemma power_index_ok_all:
  assumes "-1137 \<le> e" "e \<le> 960"
  shows "power_index_ok e"
proof -
  have "e div 50 \<in> {-23..19}" "e mod 50 \<in> {0..49}" using assms by auto
  moreover have "50 * (e div 50) + e mod 50 = e" by simp
  ultimately show ?thesis
    using power_index_ok_blocks assms unfolding list_all_iff set_upto by (metis not_less)
qed

lemma cached_power_exists:
  assumes "-1137 \<le> e" "e \<le> 960"
  shows "\<exists>c. get_cached_power_for_binary_exponent e = Inr c \<and> (cp_f c, cp_e c, cp_k c) \<in> set kCachedPowers \<and>
     -60 \<le> cp_e c + e + 64 \<and> cp_e c + e + 64 \<le> -34 \<and> -300 \<le> cp_k c \<and> cp_k c \<le> 324"
proof -
  have i: "0 \<le> power_index e" "power_index e < 79"
    and range: "-60 \<le> (8 * power_index e - 300) * 217706 div 65536 + 1 + e"
      "(8 * power_index e - 300) * 217706 div 65536 + 1 + e \<le> -34"
    using power_index_ok_all[OF assms] by (auto simp: power_index_ok_def Let_def)
  have "nat (power_index e) < 79" using i by simp
  have len: "length kCachedPowers = 79"
    using arg_cong[OF kCachedPowers_exponents, of length] by simp
  have nth: "snd (kCachedPowers ! nat (power_index e))
      = ((8 * power_index e - 300) * 217706 div 65536 - 63, 8 * power_index e - 300)"
    using arg_cong[OF kCachedPowers_exponents, of "\<lambda>xs. xs ! nat (power_index e)"] i len by (simp add: nth_upto)
  obtain c where c: "kCachedPowers ! nat (power_index e)
      = (c, (8 * power_index e - 300) * 217706 div 65536 - 63, 8 * power_index e - 300)"
    using nth by (cases "kCachedPowers ! nat (power_index e)") auto
  have "(- kCachedPowersMinDecExp + ((kAlpha - e - 1) * 78913 sdiv (2 ^ 18) + (if kAlpha - e - 1 > 0 then 1 else 0))
      + (kCachedPowersDecStep - 1)) sdiv kCachedPowersDecStep = power_index e"
    using assms by (auto simp: power_index_def Let_def kAlpha_def kCachedPowersMinDecExp_def kCachedPowersDecStep_def
        signed_divide_int_def sgn_if)
  then show ?thesis
    unfolding get_cached_power_for_binary_exponent_def Let_def
    using assms i \<open>nat (power_index e) < 79\<close> range len nth_mem[of "nat (power_index e)" kCachedPowers] by (simp add: c kAlpha_def kGamma_def)
qed

text \<open>Every entry \<open>(f, e, k)\<close> is off from \<open>10 ^ k\<close> by at most half of \<open>2 ^ e\<close>.\<close>

definition power_off :: "int \<Rightarrow> int \<Rightarrow> 64 word \<Rightarrow> int \<Rightarrow> bool" where
  "power_off p q f e \<longleftrightarrow> 2 * \<bar>uint f * 2 ^ nat e * q - p * 2 ^ nat (- e)\<bar> \<le> 2 ^ nat e * q"

definition power_accurate :: "64 word \<Rightarrow> int \<Rightarrow> int \<Rightarrow> bool" where
  "power_accurate f e k \<longleftrightarrow> 2 ^ 63 \<le> uint f \<and> power_off (10 ^ nat k) (10 ^ nat (- k)) f e"

fun powers_up :: "nat \<Rightarrow> int \<Rightarrow> (64 word \<times> int \<times> int) list \<Rightarrow> bool" where
  "powers_up n p [] = True"
| "powers_up n p ((f, e, k) # cs) =
     (k = int n \<and> 2 ^ 63 \<le> uint f \<and> power_off p 1 f e \<and> powers_up (n + 8) (p * 10 ^ 8) cs)"

fun powers_down :: "nat \<Rightarrow> int \<Rightarrow> (64 word \<times> int \<times> int) list \<Rightarrow> bool" where
  "powers_down n q [] = True"
| "powers_down n q ((f, e, k) # cs) =
     (k = - int n \<and> 2 ^ 63 \<le> uint f \<and> power_off 1 q f e \<and> powers_down (n + 8) (q * 10 ^ 8) cs)"

lemma powers_up_accurate: "powers_up n (10 ^ n) cs \<Longrightarrow> (f, e, k) \<in> set cs \<Longrightarrow> power_accurate f e k"
  by (induction n "10 ^ n :: int" cs rule: powers_up.induct) (auto simp: power_accurate_def power_add)

lemma powers_down_accurate: "powers_down n (10 ^ n) cs \<Longrightarrow> (f, e, k) \<in> set cs \<Longrightarrow> power_accurate f e k"
  by (induction n "10 ^ n :: int" cs rule: powers_down.induct) (auto simp: power_accurate_def power_add)

lemma powers_up_table: "powers_up 4 10000 (drop 38 kCachedPowers)"
  by code_simp

lemma powers_down_table: "powers_down 4 10000 (rev (take 38 kCachedPowers))"
  by code_simp

lemma cached_powers_accurate:
  assumes "(f, e, k) \<in> set kCachedPowers"
  shows "power_accurate f e k"
proof -
  have "(f, e, k) \<in> set (drop 38 kCachedPowers) \<or> (f, e, k) \<in> set (rev (take 38 kCachedPowers))"
    using assms by (metis append_take_drop_id set_append Un_iff set_rev)
  then show ?thesis
    using powers_up_accurate[of 4] powers_up_table powers_down_accurate[of 4] powers_down_table by fastforce
qed

lemma find_largest_pow10_spec:
  assumes "0 < n" "find_largest_pow10 n = (k, pow10)"
  shows "0 < k" "k \<le> 10" "unat pow10 = 10 ^ (k - 1)" "10 ^ (k - 1) \<le> unat n" "unat n < 10 ^ k"
  using assms unat_bound[of n]
  by (auto simp: find_largest_pow10_def word_le_nat_alt word_less_nat_alt split: if_splits)

section \<open>Properties\<close>

text \<open>
  The product of two floating-point numbers, computed from four 32-bit products, is the exact
  product of the significands divided by \<open>2 ^ 64\<close> and rounded to the nearest integer (half-way cases
  up): no partial sum overflows, and the result fits into 64 bits.
\<close>

lemma product_is_rounded:
  "diyfp_mul x y =
     diyfp_of (of_nat ((unat (dy_f x) * unat (dy_f y) + 2 ^ 63) div 2 ^ 64)) (dy_e x + dy_e y + 64) \<and>
   unat (dy_f (diyfp_mul x y)) = (unat (dy_f x) * unat (dy_f y) + 2 ^ 63) div 2 ^ 64"
proof -
  have "unat (dy_f x) * unat (dy_f y) \<le> (2 ^ 64 - 1) * (2 ^ 64 - 1)"
    using unat_bound[of "dy_f x"] unat_bound[of "dy_f y"] by (intro mult_le_mono) auto
  then have "(unat (dy_f x) * unat (dy_f y) + 2 ^ 63) div 2 ^ 64 < 2 ^ 64" by (intro less_mult_imp_div_less) simp
  then show ?thesis by (simp add: diyfp_mul_eq unat_of_nat)
qed

text \<open>
  For every exponent that the boundaries of a finite double can have, the lookup of a power of
  ten stays inside the table, the entry \<open>f * 2 ^ e\<close> is normalised and off from \<open>10 ^ k\<close> by at most half
  of \<open>2 ^ e\<close>, and it brings the exponent of a product between \<open>-60\<close> and \<open>-34\<close>, where the digits are
  generated without overflow.
\<close>

theorem cached_power_fits:
  assumes "-1137 \<le> e" "e \<le> 960"
  shows "\<exists>c. get_cached_power_for_binary_exponent e = Inr c \<and>
     kAlpha \<le> cp_e c + e + 64 \<and> cp_e c + e + 64 \<le> -34 \<and> 2 ^ 63 \<le> uint (cp_f c) \<and>
     2 * \<bar>uint (cp_f c) * 2 ^ nat (cp_e c) * 10 ^ nat (- cp_k c) - 10 ^ nat (cp_k c) * 2 ^ nat (- cp_e c)\<bar>
       \<le> 2 ^ nat (cp_e c) * 10 ^ nat (- cp_k c)"
proof -
  obtain c where c: "get_cached_power_for_binary_exponent e = Inr c" "(cp_f c, cp_e c, cp_k c) \<in> set kCachedPowers"
    "-60 \<le> cp_e c + e + 64" "cp_e c + e + 64 \<le> -34"
    using cached_power_exists[OF assms] by blast
  then show ?thesis
    using cached_powers_accurate[OF c(2)] by (auto simp: power_accurate_def power_off_def kAlpha_def)
qed

theorem cached_power_fits_witness:
  "\<exists>c. get_cached_power_for_binary_exponent (-1137) = Inr c \<and>
     kAlpha \<le> cp_e c + (-1137) + 64 \<and> cp_e c + (-1137) + 64 \<le> -34"
  using cached_power_fits[of "-1137"] by auto

end
