(* ===== verification/Json_Digits.thy ===== *)
theory Json_Digits
  imports Json_Grisu
begin

text \<open>
  Digit generation and formatting of \<^verbatim>\<open>tools/json/json.hpp\<close> (\<open>grisu2_round\<close>, \<open>grisu2_digit_gen\<close>,
  \<open>grisu2\<close>, \<open>append_exponent\<close>, \<open>format_buffer\<close> and \<open>to_chars\<close>).
\<close>

unbundle bit_operations_syntax

section \<open>Digit generation\<close>

definition digit_char :: "'a::len word \<Rightarrow> char" where
  "digit_char d = char_of (48 + unat d)"

text \<open>\<^verbatim>\<open>buf[len - 1]--\<close>\<close>

definition decrement_last :: "string \<Rightarrow> string" where
  "decrement_last buf = butlast buf @ [char_of (of_char (last buf) - 1 :: nat)]"

partial_function (option) round_loop ::
    "64 word \<Rightarrow> 64 word \<Rightarrow> 64 word \<Rightarrow> string \<Rightarrow> 64 word \<Rightarrow> string res option" where
  [code]: "round_loop dist delta ten_k buf rest =
     (if rest < dist \<and> delta - rest \<ge> ten_k \<and>
         (rest + ten_k < dist \<or> dist - rest > rest + ten_k - dist)
      then if last buf = CHR ''0'' then Some (Inl (Undefined ''assert''))
           else round_loop dist delta ten_k (decrement_last buf) (rest + ten_k)
      else Some (Inr buf))"

definition grisu2_round ::
    "string \<Rightarrow> 64 word \<Rightarrow> 64 word \<Rightarrow> 64 word \<Rightarrow> 64 word \<Rightarrow> string res" where
  "grisu2_round buf dist delta rest ten_k =
     assert_that (length buf \<ge> 1) (
     assert_that (dist \<le> delta) (
     assert_that (rest \<le> delta) (
     assert_that (ten_k > 0) (
     returned (round_loop dist delta ten_k buf rest)))))"

text \<open>
  The loop over the digits of the integral part \<open>p1\<close>; \<open>shift\<close> is \<^verbatim>\<open>-one.e\<close>. The function returns
  from inside the loop, with the digits and the exponent, or goes on after it.
\<close>

datatype digits_flow = Returned "string \<times> int" | Fractional string

fun integral_loop ::
    "nat \<Rightarrow> nat \<Rightarrow> 64 word \<Rightarrow> 64 word \<Rightarrow> 64 word \<Rightarrow> int \<Rightarrow> uint32 \<Rightarrow> uint32 \<Rightarrow> string \<Rightarrow> digits_flow res" where
  "integral_loop 0 shift p2 delta dist decimal_exponent p1 pow10 buffer = Inr (Fractional buffer)"
| "integral_loop (Suc n) shift p2 delta dist decimal_exponent p1 pow10 buffer =
     (let d = p1 div pow10;
          r = p1 mod pow10
      in assert_that (d \<le> 9) (
         let buffer' = buffer @ [digit_char d];
             rest = push_bit shift (ucast r) + p2
         in if rest \<le> delta
            then rbind (grisu2_round buffer' dist delta rest (push_bit shift (ucast pow10))) (\<lambda>buf.
                   Inr (Returned (buf, decimal_exponent + int n)))
            else integral_loop n shift p2 delta dist decimal_exponent r (pow10 div 10) buffer'))"

text \<open>The loop over the digits of the fraction \<open>p2\<close>: the digits, \<open>m\<close>, \<open>p2\<close>, \<open>delta\<close> and \<open>dist\<close>.\<close>

partial_function (option) fraction_loop ::
    "nat \<Rightarrow> string \<Rightarrow> int \<Rightarrow> 64 word \<Rightarrow> 64 word \<Rightarrow> 64 word \<Rightarrow>
     (string \<times> int \<times> 64 word \<times> 64 word \<times> 64 word) res option" where
  [code]: "fraction_loop shift buffer m p2 delta dist =
     (if \<not> p2 \<le> (- 1) div 10 then Some (Inl (Undefined ''assert''))
      else
        let p2' = p2 * 10;
            d = drop_bit shift p2';
            r = p2' AND (push_bit shift 1 - 1)
        in if \<not> d \<le> 9 then Some (Inl (Undefined ''assert''))
           else
             let buffer' = buffer @ [digit_char d];
                 delta' = delta * 10;
                 dist' = dist * 10
             in if r \<le> delta' then Some (Inr (buffer', m + 1, r, delta', dist'))
                else fraction_loop shift buffer' (m + 1) r delta' dist')"

definition grisu2_digit_gen :: "int \<Rightarrow> diyfp \<Rightarrow> diyfp \<Rightarrow> diyfp \<Rightarrow> (string \<times> int) res" where
  "grisu2_digit_gen decimal_exponent M_minus w M_plus =
     assert_that (dy_e M_plus \<ge> kAlpha) (
     assert_that (dy_e M_plus \<le> kGamma) (
     rbind (diyfp_sub M_plus M_minus) (\<lambda>M_delta.
     rbind (diyfp_sub M_plus w) (\<lambda>M_dist.
     let delta = dy_f M_delta;
         dist = dy_f M_dist;
         shift = nat (- dy_e M_plus);
         one_f = push_bit shift (1 :: 64 word);
         p1 = ucast (drop_bit shift (dy_f M_plus));
         p2 = dy_f M_plus AND (one_f - 1)
     in assert_that (p1 > 0) (
        let (k, pow10) = find_largest_pow10 p1
        in rbind (integral_loop k shift p2 delta dist decimal_exponent p1 pow10 []) (\<lambda>flow.
           case flow of
             Returned result \<Rightarrow> Inr result
           | Fractional buffer \<Rightarrow>
               assert_that (p2 > delta) (
               rbind (returned (fraction_loop shift buffer 0 p2 delta dist)) (\<lambda>(buffer', m, p2', delta', dist').
               rbind (grisu2_round buffer' dist' delta' p2' one_f) (\<lambda>buf.
               Inr (buf, decimal_exponent - m))))))))))"

definition grisu2_scaled :: "diyfp \<Rightarrow> diyfp \<Rightarrow> diyfp \<Rightarrow> (string \<times> int) res" where
  "grisu2_scaled m_minus v m_plus =
     assert_that (dy_e m_plus = dy_e m_minus) (
     assert_that (dy_e m_plus = dy_e v) (
     rbind (get_cached_power_for_binary_exponent (dy_e m_plus)) (\<lambda>cached.
       let c_minus_k = diyfp_of (cp_f cached) (cp_e cached);
           w = diyfp_mul v c_minus_k;
           w_minus = diyfp_mul m_minus c_minus_k;
           w_plus = diyfp_mul m_plus c_minus_k;
           M_minus = diyfp_of (dy_f w_minus + 1) (dy_e w_minus);
           M_plus = diyfp_of (dy_f w_plus - 1) (dy_e w_plus)
       in grisu2_digit_gen (- cp_k cached) M_minus w M_plus)))"

definition grisu2 :: "64 word \<Rightarrow> (string \<times> int) res" where
  "grisu2 bits =
     assert_that (isfinite bits) (
     assert_that (double_positive bits) (
     rbind (compute_boundaries bits) (\<lambda>w.
     grisu2_scaled (bd_minus w) (bd_w w) (bd_plus w))))"

section \<open>Formatting\<close>

definition append_exponent :: "int \<Rightarrow> string res" where
  "append_exponent e =
     assert_that (e > -1000) (
     assert_that (e < 1000) (
     let sign = (if e < 0 then CHR ''-'' else CHR ''+'');
         k = nat \<bar>e\<bar>
     in Inr (sign #
         (if k < 10 then [CHR ''0'', char_of (48 + k)]
          else if k < 100 then [char_of (48 + k div 10), char_of (48 + k mod 10)]
          else [char_of (48 + k div 100), char_of (48 + k mod 100 div 10), char_of (48 + k mod 100 mod 10)]))))"

definition format_buffer :: "string \<Rightarrow> int \<Rightarrow> int \<Rightarrow> int \<Rightarrow> string res" where
  "format_buffer buf decimal_exponent min_exp max_exp =
     assert_that (min_exp < 0) (
     assert_that (max_exp > 0) (
     let k = int (length buf);
         n = k + decimal_exponent
     in if k \<le> n \<and> n \<le> max_exp then Inr (buf @ replicate (nat (n - k)) (CHR ''0'') @ ''.0'')
        else if 0 < n \<and> n \<le> max_exp then
          assert_that (k > n) (Inr (take (nat n) buf @ ''.'' @ drop (nat n) buf))
        else if min_exp < n \<and> n \<le> 0 then Inr (''0.'' @ replicate (nat (- n)) (CHR ''0'') @ buf)
        else rbind (append_exponent (n - 1)) (\<lambda>exponent.
               Inr ((if k = 1 then buf else take 1 buf @ ''.'' @ drop 1 buf) @ ''e'' @ exponent))))"

text \<open>
  \<open>room\<close> is the size of the caller's buffer; what does not fit is undefined. Nothing is written past
  the end of the result.
\<close>

definition to_chars :: "int \<Rightarrow> 64 word \<Rightarrow> string res" where
  "to_chars room bits =
     assert_that (isfinite bits) (
     let sign = (if bit bits 63 then ''-'' else []);
         value = bits AND (push_bit 63 1 - 1);
         left = room - int (length sign)
     in rbind (if value = 0 then Inr ''0.0''
               else
                 assert_that (left \<ge> 17) (
                 rbind (grisu2 value) (\<lambda>(buf, decimal_exponent).
                 assert_that (length buf \<le> 17) (
                 assert_that (left \<ge> 15 + 2) (
                 assert_that (left \<ge> 2 + (4 - 1) + 17) (
                 assert_that (left \<ge> 17 + 6) (
                 format_buffer buf decimal_exponent (-4) 15)))))))
         (\<lambda>cs. if int (length (sign @ cs)) \<le> room then Inr (sign @ cs) else Inl (Undefined ''number_buffer'')))"

section \<open>Digits as numbers\<close>

definition digit :: "nat \<Rightarrow> char" where
  "digit d = char_of (48 + d)"

definition digits_val :: "nat list \<Rightarrow> nat" where
  "digits_val ds = foldl (\<lambda>a d. 10 * a + d) 0 ds"

abbreviation decimals :: "nat list \<Rightarrow> bool" where
  "decimals ds \<equiv> \<forall>d\<in>set ds. d \<le> 9"

lemma foldl_digits: "foldl (\<lambda>a d. 10 * a + d) v ds = v * 10 ^ length ds + digits_val ds"
proof (induction ds arbitrary: v)
  case (Cons d ds)
  show ?case using Cons[of "10 * v + d"] Cons[of d] by (simp add: digits_val_def algebra_simps)
qed (simp add: digits_val_def)

lemma digits_val_simps [simp]:
  "digits_val [] = 0"
  "digits_val (d # ds) = d * 10 ^ length ds + digits_val ds"
  "digits_val (ds @ es) = digits_val ds * 10 ^ length es + digits_val es"
  using foldl_digits[of d ds] foldl_digits[of "digits_val ds" es] by (simp_all add: digits_val_def)

lemma digit_char_eq: "digit_char d = digit (unat d)"
  by (simp add: digit_char_def digit_def)

lemma digit_less: "d \<le> 9 \<Longrightarrow> of_char (digit d) = 48 + d"
  by (simp add: digit_def)

lemma digit_zero_iff:
  assumes "d \<le> 9"
  shows "digit d = CHR ''0'' \<longleftrightarrow> d = 0"
proof -
  have "digit d = CHR ''0'' \<longleftrightarrow> of_char (digit d) = (of_char (CHR ''0'') :: nat)" by (simp only: of_char_eq_iff)
  then show ?thesis unfolding digit_less[OF assms] by simp
qed

lemma decrement_digit: "0 < d \<Longrightarrow> d \<le> 9 \<Longrightarrow> decrement_last (cs @ [digit d]) = cs @ [digit (d - 1)]"
  using digit_less[of d] by (simp add: decrement_last_def digit_def)

section \<open>Rounding\<close>

lemma round_loop_eq:
  assumes "d \<le> 9" "rest \<le> delta" "0 < ten_k" "unat delta < unat rest + d * unat ten_k"
  shows "\<exists>t<d. round_loop dist delta ten_k (cs @ [digit d]) rest = Some (Inr (cs @ [digit (d - t)])) \<and>
     unat rest + t * unat ten_k \<le> unat delta"
  using assms
proof (induction d arbitrary: rest)
  case 0
  then show ?case by (simp add: word_le_nat_alt)
next
  case (Suc d)
  show ?case
  proof (cases "rest < dist \<and> delta - rest \<ge> ten_k \<and> (rest + ten_k < dist \<or> dist - rest > rest + ten_k - dist)")
    case False
    then show ?thesis using Suc.prems by (intro exI[of _ 0]) (subst round_loop.simps, auto simp: word_le_nat_alt)
  next
    case True
    then have "unat ten_k \<le> unat delta - unat rest" using Suc.prems(2) by (simp add: word_le_nat_alt unat_sub)
    then have fits: "unat rest + unat ten_k \<le> unat delta" using Suc.prems(2) by (simp add: word_le_nat_alt)
    then have plus: "unat (rest + ten_k) = unat rest + unat ten_k"
      using unat_plus_fits[of rest ten_k] unat_bound[of delta] by simp
    have "\<exists>t<d. round_loop dist delta ten_k (cs @ [digit d]) (rest + ten_k) = Some (Inr (cs @ [digit (d - t)])) \<and>
        unat (rest + ten_k) + t * unat ten_k \<le> unat delta"
      by (rule Suc.IH) (use Suc.prems fits in \<open>simp_all add: word_le_nat_alt plus\<close>)
    then obtain t where t: "t < d" "round_loop dist delta ten_k (cs @ [digit d]) (rest + ten_k) = Some (Inr (cs @ [digit (d - t)]))"
      "unat (rest + ten_k) + t * unat ten_k \<le> unat delta" by blast
    have "round_loop dist delta ten_k (cs @ [digit (Suc d)]) rest = round_loop dist delta ten_k (cs @ [digit d]) (rest + ten_k)"
      using True Suc.prems(1) by (subst round_loop.simps) (simp add: digit_zero_iff decrement_digit)
    with t show ?thesis by (intro exI[of _ "Suc t"]) (simp add: plus)
  qed
qed

lemma grisu2_round_eq:
  assumes "d \<le> 9" "rest \<le> delta" "dist \<le> delta" "0 < ten_k" "unat delta < unat rest + d * unat ten_k"
  shows "\<exists>t<d. grisu2_round (cs @ [digit d]) dist delta rest ten_k = Inr (cs @ [digit (d - t)]) \<and>
     unat rest + t * unat ten_k \<le> unat delta"
  using round_loop_eq[OF assms(1,2,4,5), of dist cs] assms by (auto simp: grisu2_round_def)

section \<open>The integral part\<close>

lemma nat_div_mod_bounds:
  fixes a :: nat
  assumes "a < 10 ^ Suc n"
  shows "a div 10 ^ n \<le> 9" "a div 10 ^ n * 10 ^ n + a mod 10 ^ n = a" "a mod 10 ^ n < 10 ^ n"
proof -
  have "a div 10 ^ n < 10" using assms by (simp add: less_mult_imp_div_less)
  then show "a div 10 ^ n \<le> 9" by simp
qed (simp_all add: div_mult_mod_eq)

lemma unat_ucast_up: "unat (ucast (x :: uint32) :: 64 word) = unat x"
  by (simp add: unsigned_ucast_eq take_bit_nat_eq_self unsigned_less[THEN less_le_trans])

lemma integral_step_word:
  fixes p1 pow10 :: uint32
  assumes "unat p1 = a" "unat pow10 = 10 ^ n" "a < 10 ^ Suc n" "a * 2 ^ sh + unat p2 < 2 ^ 64"
  shows "unat (p1 div pow10) = a div 10 ^ n" "unat (p1 mod pow10) = a mod 10 ^ n"
    "unat (push_bit sh (ucast (p1 mod pow10)) + p2 :: 64 word) = a mod 10 ^ n * 2 ^ sh + unat p2"
proof -
  show "unat (p1 div pow10) = a div 10 ^ n" using assms by (simp add: unat_div)
  show m: "unat (p1 mod pow10) = a mod 10 ^ n" using assms by (simp add: unat_mod)
  have r: "unat (ucast (p1 mod pow10) :: 64 word) = a mod 10 ^ n" using m by (simp only: unat_ucast_up)
  have "a mod 10 ^ n * 2 ^ sh \<le> a * 2 ^ sh" by (simp add: mod_less_eq_dividend)
  then have le: "a mod 10 ^ n * 2 ^ sh + unat p2 < 2 ^ 64" using assms(4) by linarith
  then have "unat (push_bit sh (ucast (p1 mod pow10)) :: 64 word) = a mod 10 ^ n * 2 ^ sh"
    using unat_push_bit_mult[of "ucast (p1 mod pow10) :: 64 word" sh] r by simp
  then show "unat (push_bit sh (ucast (p1 mod pow10)) + p2 :: 64 word) = a mod 10 ^ n * 2 ^ sh + unat p2"
    using unat_plus_fits[of "push_bit sh (ucast (p1 mod pow10))" p2] le by simp
qed

text \<open>
  \<open>n\<close> digits of \<open>a = p1\<close> are left. Either the loop ends early with digits \<open>ds\<close> in front of \<open>m\<close> more,
  whose value is within \<open>delta\<close> below \<open>p1 + p2 * 2 ^ e\<close>, or it produces all digits of \<open>a\<close>.
\<close>

lemma integral_loop_eq:
  assumes "unat p1 = a" "unat pow10 = 10 ^ (n - 1)" "0 < n" "a < 10 ^ n" "n \<le> 10"
    and "a * 2 ^ sh + unat p2 < 2 ^ 64" "10 ^ (n - 1) * 2 ^ sh < (2 :: nat) ^ 64" "unat delta < a * 2 ^ sh + unat p2" "dist \<le> delta"
  shows "(\<exists>ds m. integral_loop n sh p2 delta dist x p1 pow10 cs = Inr (Returned (cs @ map digit ds, x + int m)) \<and>
       m + length ds = n \<and> ds \<noteq> [] \<and> decimals ds \<and> (10 ^ (n - 1) \<le> a \<longrightarrow> hd ds \<noteq> 0) \<and>
       digits_val ds * 10 ^ m * 2 ^ sh \<le> a * 2 ^ sh + unat p2 \<and>
       a * 2 ^ sh + unat p2 \<le> digits_val ds * 10 ^ m * 2 ^ sh + unat delta)
   \<or> (\<exists>ds. integral_loop n sh p2 delta dist x p1 pow10 cs = Inr (Fractional (cs @ map digit ds)) \<and>
       length ds = n \<and> decimals ds \<and> (10 ^ (n - 1) \<le> a \<longrightarrow> hd ds \<noteq> 0) \<and> digits_val ds = a \<and> unat delta < unat p2)"
  using assms
proof (induction n arbitrary: p1 a pow10 cs)
  case (Suc n)
  let ?d = "a div 10 ^ n" and ?r = "a mod 10 ^ n"
  let ?rest = "push_bit sh (ucast (p1 mod pow10)) + p2 :: 64 word"
  have pow: "unat pow10 = 10 ^ n" using Suc.prems(2) by simp
  note d = nat_div_mod_bounds[OF Suc.prems(4)]
  note word = integral_step_word[OF Suc.prems(1) pow Suc.prems(4,6)]
  have split: "a * 2 ^ sh + unat p2 = ?d * (10 ^ n * 2 ^ sh) + unat ?rest"
    using arg_cong[OF d(2), of "\<lambda>x. x * 2 ^ sh"] unfolding word(3) by (simp only: add_mult_distrib mult.assoc)
  have le: "p1 div pow10 \<le> 9" using d(1) word(1) by (simp add: word_le_nat_alt)
  have hd: "?d \<noteq> 0" if "10 ^ n \<le> a" using that by (simp add: div_greater_zero_iff)
  show ?case
  proof (cases "?rest \<le> delta")
    case True
    have ten: "unat (push_bit sh (ucast pow10) :: 64 word) = 10 ^ n * 2 ^ sh"
      using unat_push_bit_mult[of "ucast pow10 :: 64 word" sh] Suc.prems(7) by (simp add: unat_ucast_up pow)
    have "\<exists>t<?d. grisu2_round (cs @ [digit ?d]) dist delta ?rest (push_bit sh (ucast pow10)) = Inr (cs @ [digit (?d - t)]) \<and>
        unat ?rest + t * unat (push_bit sh (ucast pow10) :: 64 word) \<le> unat delta"
      by (rule grisu2_round_eq) (use d True Suc.prems split ten in \<open>simp_all add: word_less_nat_alt\<close>)
    then obtain t where t: "t < ?d"
      "grisu2_round (cs @ [digit ?d]) dist delta ?rest (push_bit sh (ucast pow10)) = Inr (cs @ [digit (?d - t)])"
      "unat ?rest + t * (10 ^ n * 2 ^ sh) \<le> unat delta" unfolding ten by blast
    have "integral_loop (Suc n) sh p2 delta dist x p1 pow10 cs = Inr (Returned (cs @ map digit [?d - t], x + int n))"
      using True le t(2) by (simp add: Let_def digit_char_eq word)
    moreover have "?d * (10 ^ n * 2 ^ sh) = (?d - t) * 10 ^ n * 2 ^ sh + t * (10 ^ n * 2 ^ sh)"
      using t(1) by (simp add: algebra_simps flip: add_mult_distrib)
    ultimately show ?thesis using t d(1) split
      by (intro disjI1 exI[of _ "[?d - t]"] exI[of _ n]) auto
  next
    case False
    have loop: "integral_loop (Suc n) sh p2 delta dist x p1 pow10 cs
        = integral_loop n sh p2 delta dist x (p1 mod pow10) (pow10 div 10) (cs @ [digit ?d])"
      using False le by (simp add: Let_def digit_char_eq word)
    have more: "unat delta < ?r * 2 ^ sh + unat p2" using False word(3) by (simp add: word_le_nat_alt)
    show ?thesis
    proof (cases n)
      case 0
      then show ?thesis using loop more d(1) Suc.prems(4) by (intro disjI2 exI[of _ "[?d]"]) simp
    next
      case (Suc k)
      have "unat (pow10 div 10) = 10 ^ (n - 1)" using pow Suc by (simp add: unat_div)
      moreover have "?r * 2 ^ sh + unat p2 < 2 ^ 64"
        using unat_bound[of ?rest] word(3) by simp
      moreover have "10 ^ (n - 1) * 2 ^ sh \<le> (10 :: nat) ^ n * 2 ^ sh" by (intro mult_le_mono1 power_increasing) auto
      then have "10 ^ (n - 1) * 2 ^ sh < (2 :: nat) ^ 64" using Suc.prems(7) unfolding diff_Suc_1 by (rule le_less_trans)
      ultimately have rest: "unat (p1 mod pow10) = ?r" "unat (pow10 div 10) = 10 ^ (n - 1)" "0 < n" "?r < 10 ^ n" "n \<le> 10"
        "?r * 2 ^ sh + unat p2 < 2 ^ 64" "10 ^ (n - 1) * 2 ^ sh < (2 :: nat) ^ 64"
        using word(2) d(3) Suc Suc.prems(5) by simp_all
      from Suc.IH[OF rest more Suc.prems(9), of "cs @ [digit ?d]"] show ?thesis
      proof (elim disjE exE conjE, goal_cases)
        case (1 ds m)
        have "digits_val (?d # ds) * 10 ^ m * 2 ^ sh = ?d * (10 ^ n * 2 ^ sh) + digits_val ds * 10 ^ m * 2 ^ sh"
          using 1(2) by (simp add: algebra_simps flip: power_add)
        with 1 loop d(1) hd split word(3) show ?case by (intro disjI1 exI[of _ "?d # ds"] exI[of _ m]) auto
      next
        case (2 ds)
        with loop d hd show ?case by (intro disjI2 exI[of _ "?d # ds"]) auto
      qed
    qed
  qed
qed simp

section \<open>The fractional part\<close>

lemma fraction_step_word:
  fixes p2 :: "64 word"
  assumes "unat p2 < 2 ^ sh" "sh \<le> 60"
  shows "p2 \<le> (- 1) div 10" "unat (p2 * 10) = 10 * unat p2"
    "unat (drop_bit sh (p2 * 10)) = 10 * unat p2 div 2 ^ sh" "10 * unat p2 div 2 ^ sh \<le> 9"
    "unat ((p2 * 10) AND (push_bit sh 1 - 1)) = 10 * unat p2 mod 2 ^ sh"
proof -
  have "(2 :: nat) ^ sh \<le> 2 ^ 60" using assms(2) by (intro power_increasing) auto
  then have p2: "unat p2 < 2 ^ 60" using assms(1) by linarith
  show ten: "unat (p2 * 10) = 10 * unat p2" using p2 unat_times_fits[of p2 10] by simp
  have "unat ((- 1 :: 64 word) div 10) = (2 ^ 64 - 1) div 10" using unat_npos by (simp add: unat_div npos_def)
  with p2 show "p2 \<le> (- 1) div 10" by (simp add: word_le_nat_alt)
  show "unat (drop_bit sh (p2 * 10)) = 10 * unat p2 div 2 ^ sh" by (simp add: unat_drop_bit_div ten)
  have "10 * unat p2 div 2 ^ sh < 10" using assms(1) by (simp add: less_mult_imp_div_less)
  then show "10 * unat p2 div 2 ^ sh \<le> 9" by simp
  have "push_bit sh 1 - 1 = (mask sh :: 64 word)" by (simp add: mask_eq_exp_minus_1 push_bit_eq_mult)
  then show "unat ((p2 * 10) AND (push_bit sh 1 - 1)) = 10 * unat p2 mod 2 ^ sh" by (simp only: unat_and_mask ten)
qed

lemma fraction_loop_eq:
  fixes p2 delta dist :: "64 word"
  assumes "unat p2 < 2 ^ sh" "sh \<le> 60" "0 < unat delta" "unat delta < unat p2" "dist \<le> delta"
  shows "\<exists>ds r. fraction_loop sh cs m p2 delta dist =
       Some (Inr (cs @ map digit ds, m + int (length ds), r, delta * 10 ^ length ds, dist * 10 ^ length ds)) \<and>
     ds \<noteq> [] \<and> decimals ds \<and> unat p2 * 10 ^ length ds = digits_val ds * 2 ^ sh + unat r \<and>
     unat (delta * 10 ^ length ds) = unat delta * 10 ^ length ds \<and>
     unat (dist * 10 ^ length ds) = unat dist * 10 ^ length ds \<and>
     unat r \<le> unat delta * 10 ^ length ds \<and> unat delta * 10 ^ length ds < unat r + last ds * 2 ^ sh \<and>
     unat delta * 10 ^ (length ds - 1) < 2 ^ sh"
  using assms
proof (induction "2 ^ sh - unat delta" arbitrary: p2 delta dist cs m rule: less_induct)
  case less
  note word = fraction_step_word[OF less.prems(1,2)]
  let ?d = "10 * unat p2 div 2 ^ sh" and ?r = "(p2 * 10) AND (push_bit sh 1 - 1)"
  have r: "?d * 2 ^ sh + unat ?r = 10 * unat p2" unfolding word(5) by (simp add: div_mult_mod_eq)
  have "unat delta * 10 < 2 ^ 64" "unat dist * 10 < 2 ^ 64"
    using less.prems(4,5) word(2) unat_bound[of "p2 * 10"] by (auto simp: word_le_nat_alt)
  then have times: "unat (delta * 10) = unat delta * 10" "unat (dist * 10) = unat dist * 10"
    using unat_times_fits[of delta 10] unat_times_fits[of dist 10] by simp_all
  have le: "drop_bit sh (p2 * 10) \<le> 9" using word(3,4) by (simp add: word_le_nat_alt)
  show ?case
  proof (cases "?r \<le> delta * 10")
    case True
    then have "fraction_loop sh cs m p2 delta dist = Some (Inr (cs @ map digit [?d], m + 1, ?r, delta * 10, dist * 10))"
      using word(1) le by (subst fraction_loop.simps) (simp add: Let_def digit_char_eq word(3))
    then show ?thesis using True r word(4) times less.prems
      by (intro exI[of _ "[?d]"] exI[of _ ?r]) (auto simp: word_le_nat_alt)
  next
    case False
    have loop: "fraction_loop sh cs m p2 delta dist = fraction_loop sh (cs @ [digit ?d]) (m + 1) ?r (delta * 10) (dist * 10)"
      using False word(1) le by (subst fraction_loop.simps) (simp add: Let_def digit_char_eq word(3))
    have r_less: "unat ?r < 2 ^ sh" unfolding word(5) by simp
    have dr: "unat (delta * 10) < unat ?r" "0 < unat (delta * 10)" "dist * 10 \<le> delta * 10"
      using False times less.prems by (simp_all add: word_le_nat_alt)
    then have "2 ^ sh - unat (delta * 10) < 2 ^ sh - unat delta" using times r_less less.prems(3) by linarith
    from less.hyps[OF this r_less less.prems(2) dr(2,1,3), of "cs @ [digit ?d]" "m + 1"] show ?thesis
    proof (elim exE conjE, goal_cases)
      case (1 ds s)
      then have "unat p2 * 10 ^ length (?d # ds) = digits_val (?d # ds) * 2 ^ sh + unat s"
        using arg_cong[OF r, of "\<lambda>x. x * 10 ^ length ds"] by (simp add: algebra_simps)
      moreover have "length ds = Suc (length ds - 1)" using 1(2) by (cases ds) auto
      then have "unat delta * 10 ^ length ds = unat (delta * 10) * 10 ^ (length ds - 1)"
        unfolding times by (metis mult.assoc power_Suc)
      ultimately show ?case using 1 loop word(4) times
        by (intro exI[of _ "?d # ds"] exI[of _ s]) (auto simp: mult.assoc)
    qed
  qed
qed

section \<open>All digits\<close>

text \<open>The digits \<open>ds\<close>, with \<open>m\<close> zeros after them or a point \<open>q\<close> places before their end, are between the bounds.\<close>

definition digits_between :: "nat \<Rightarrow> nat \<Rightarrow> nat \<Rightarrow> nat list \<Rightarrow> nat \<Rightarrow> nat \<Rightarrow> bool" where
  "digits_between sh lo hi ds m q \<longleftrightarrow>
     ds \<noteq> [] \<and> hd ds \<noteq> 0 \<and> decimals ds \<and> length ds \<le> 17 \<and> m \<le> 9 \<and> q \<le> 17 \<and>
     lo * 10 ^ q \<le> digits_val ds * 10 ^ m * 2 ^ sh \<and> digits_val ds * 10 ^ m * 2 ^ sh \<le> hi * 10 ^ q"

lemma fraction_digits:
  fixes p2 delta dist :: "64 word"
  assumes "unat p2 < 2 ^ sh" "sh \<le> 60" "0 < unat delta" "unat delta < unat p2" "dist \<le> delta"
    and ds0: "ds0 \<noteq> []" "hd ds0 \<noteq> 0" "decimals ds0"
    and hi: "hi = digits_val ds0 * 2 ^ sh + unat p2" "10 ^ (length ds0 - 1) \<le> digits_val ds0" "hi \<le> unat delta * 10 ^ 16"
  shows "\<exists>ds q. rbind (returned (fraction_loop sh (map digit ds0) 0 p2 delta dist)) (\<lambda>(buffer', m, p2', delta', dist').
        rbind (grisu2_round buffer' dist' delta' p2' (push_bit sh 1)) (\<lambda>buf. Inr (buf, x - m)))
      = Inr (map digit ds, x - int q) \<and> digits_between sh (hi - unat delta) hi ds 0 q"
proof -
  obtain ds r where loop: "fraction_loop sh (map digit ds0) 0 p2 delta dist =
       Some (Inr (map digit ds0 @ map digit ds, 0 + int (length ds), r, delta * 10 ^ length ds, dist * 10 ^ length ds))"
    and ds: "ds \<noteq> []" "decimals ds" and val: "unat p2 * 10 ^ length ds = digits_val ds * 2 ^ sh + unat r"
    and word: "unat (delta * 10 ^ length ds) = unat delta * 10 ^ length ds" "unat (dist * 10 ^ length ds) = unat dist * 10 ^ length ds"
    and r: "unat r \<le> unat delta * 10 ^ length ds" "unat delta * 10 ^ length ds < unat r + last ds * 2 ^ sh"
      "unat delta * 10 ^ (length ds - 1) < 2 ^ sh"
    using fraction_loop_eq[OF assms(1-5), of "map digit ds0" 0] by (elim exE conjE) (rule that)
  obtain es d where es: "ds = es @ [d]" using ds(1) by (cases ds rule: rev_cases) auto
  have one: "unat (push_bit sh 1 :: 64 word) = 2 ^ sh"
    using unat_push_bit_mult[of "1 :: 64 word" sh] power_strict_increasing[of sh 64 "2 :: nat"] assms(2) by simp
  have "\<exists>t<d. grisu2_round (map digit (ds0 @ es) @ [digit d]) (dist * 10 ^ length ds) (delta * 10 ^ length ds) r (push_bit sh 1)
      = Inr (map digit (ds0 @ es) @ [digit (d - t)]) \<and> unat r + t * unat (push_bit sh 1 :: 64 word) \<le> unat (delta * 10 ^ length ds)"
    by (rule grisu2_round_eq) (use ds es word r one assms(5) in \<open>simp_all add: word_le_nat_alt word_less_nat_alt\<close>)
  then obtain t where t: "t < d" "grisu2_round (map digit (ds0 @ es) @ [digit d]) (dist * 10 ^ length ds) (delta * 10 ^ length ds) r (push_bit sh 1)
      = Inr (map digit (ds0 @ es @ [d - t]))" "unat r + t * 2 ^ sh \<le> unat delta * 10 ^ length ds"
    unfolding one word by auto
  have "hi * 10 ^ length ds = (digits_val (ds0 @ es @ [d - t]) + t) * 2 ^ sh + unat r"
  proof -
    have "digits_val (ds0 @ es @ [d - t]) + t = digits_val ds0 * 10 ^ length ds + digits_val ds" using t(1) by (simp add: es)
    then show ?thesis using val by (simp only: hi(1) algebra_simps)
  qed
  then have between: "digits_val (ds0 @ es @ [d - t]) * 2 ^ sh \<le> hi * 10 ^ length ds"
    "(hi - unat delta) * 10 ^ length ds \<le> digits_val (ds0 @ es @ [d - t]) * 2 ^ sh"
    using t(3) by (auto simp: algebra_simps diff_mult_distrib)
  have "length ds0 + length ds \<le> 17"
  proof -
    have "unat delta * 10 ^ (length ds - 1) * 10 ^ (length ds0 - 1) < 2 ^ sh * 10 ^ (length ds0 - 1)"
      using r(3) by simp
    also have "\<dots> \<le> hi" using mult_le_mono1[OF hi(2), of "2 ^ sh"] unfolding hi(1) mult.commute[of "2 ^ sh"] by (rule trans_le_add1)
    also note hi(3)
    finally have "(10 :: nat) ^ (length ds - 1 + (length ds0 - 1)) < 10 ^ 16" by (simp add: power_add mult.assoc)
    then have "length ds - 1 + (length ds0 - 1) < 16" by (rule power_less_imp_less_exp[rotated]) simp
    then show ?thesis using ds0(1) ds(1) by (cases ds; cases ds0) auto
  qed
  then have "digits_between sh (hi - unat delta) hi (ds0 @ es @ [d - t]) 0 (length ds)"
    using ds0 ds es t(1) between by (auto simp: digits_between_def)
  moreover have "rbind (returned (fraction_loop sh (map digit ds0) 0 p2 delta dist)) (\<lambda>(buffer', m, p2', delta', dist').
        rbind (grisu2_round buffer' dist' delta' p2' (push_bit sh 1)) (\<lambda>buf. Inr (buf, x - m)))
      = Inr (map digit (ds0 @ es @ [d - t]), x - int (length ds))"
    using t(2) by (simp add: loop es)
  ultimately show ?thesis by blast
qed

lemma grisu2_digit_gen_eq:
  assumes e: "-60 \<le> e" "e \<le> -32"
    and between: "0 < lo" "lo \<le> w" "w \<le> hi" "lo < hi" and top: "2 ^ 60 \<le> unat hi" "unat hi \<le> (unat hi - unat lo) * 10 ^ 16"
  shows "\<exists>ds m q. grisu2_digit_gen x (diyfp_of lo e) (diyfp_of w e) (diyfp_of hi e) = Inr (map digit ds, x + int m - int q) \<and>
     digits_between (nat (- e)) (unat lo) (unat hi) ds m q"
proof -
  define sh delta dist where "sh = nat (- e)" and "delta = hi - lo" and "dist = hi - w"
  define p1 :: uint32 where "p1 = ucast (drop_bit sh hi)"
  define p2 where "p2 = hi AND (push_bit sh 1 - 1)"
  have sh: "32 \<le> sh" "sh \<le> 60" using e by (auto simp: sh_def)
  have lo: "0 < unat lo" "unat lo < unat hi" using between by (auto simp: word_less_nat_alt)
  then have delta: "unat delta = unat hi - unat lo" "0 < unat delta" "dist \<le> delta" "unat delta < unat hi"
    using between by (auto simp: delta_def dist_def unat_sub word_le_nat_alt)
  have "unat hi div 2 ^ sh < 2 ^ 32"
  proof (rule less_mult_imp_div_less)
    have "(2 :: nat) ^ 64 \<le> 2 ^ (32 + sh)" using sh by (intro power_increasing) auto
    then show "unat hi < 2 ^ 32 * 2 ^ sh" using unat_bound[of hi] by (simp add: power_add)
  qed
  then have p1: "unat p1 = unat hi div 2 ^ sh" by (simp add: p1_def unat_drop_bit_div unsigned_ucast_eq take_bit_nat_eq_self)
  have "push_bit sh 1 - 1 = (mask sh :: 64 word)" by (simp add: mask_eq_exp_minus_1 push_bit_eq_mult)
  then have p2: "unat p2 = unat hi mod 2 ^ sh" by (simp only: p2_def unat_and_mask)
  have hi: "unat p1 * 2 ^ sh + unat p2 = unat hi" unfolding p1 p2 by (rule div_mult_mod_eq)
  have "(2 :: nat) ^ sh \<le> 2 ^ 60" using sh by (intro power_increasing) auto
  then have pos: "0 < p1" using top(1) by (simp add: word_less_nat_alt p1 div_greater_zero_iff)
  obtain k pow10 where k: "find_largest_pow10 p1 = (k, pow10)" by (cases "find_largest_pow10 p1")
  note pow = find_largest_pow10_spec[OF pos k]
  have small: "unat p1 * 2 ^ sh + unat p2 < 2 ^ 64" unfolding hi using unat_bound[of hi] by simp
  have ten: "10 ^ (k - 1) * 2 ^ sh < (2 :: nat) ^ 64"
    using mult_le_mono1[OF pow(4), of "2 ^ sh"] small by linarith
  have gen: "grisu2_digit_gen x (diyfp_of lo e) (diyfp_of w e) (diyfp_of hi e) =
      rbind (integral_loop k sh p2 delta dist x p1 pow10 []) (\<lambda>flow.
         case flow of
           Returned result \<Rightarrow> Inr result
         | Fractional buffer \<Rightarrow>
             assert_that (p2 > delta) (
             rbind (returned (fraction_loop sh buffer 0 p2 delta dist)) (\<lambda>(buffer', m, p2', delta', dist').
             rbind (grisu2_round buffer' dist' delta' p2' (push_bit sh 1)) (\<lambda>buf.
             Inr (buf, x - m)))))"
    using e between pos
    by (simp add: grisu2_digit_gen_def diyfp_sub_def kAlpha_def kGamma_def Let_def k less_imp_le del: push_bit_of_1
        flip: sh_def delta_def dist_def p1_def p2_def)
  have "unat delta < unat p1 * 2 ^ sh + unat p2" unfolding hi by (rule delta(4))
  from integral_loop_eq[OF refl pow(3,1,5,2) small ten this delta(3), of x "[]"] show ?thesis
  proof (elim disjE exE conjE, goal_cases)
    case (1 ds m)
    have "digits_between sh (unat lo) (unat hi) ds m 0"
      using 1 pow(2,4) lo delta(1) hi by (cases ds) (auto simp: digits_between_def)
    then show ?case using 1(1) by (intro exI[of _ ds] exI[of _ m] exI[of _ 0]) (simp add: gen sh_def)
  next
    case (2 ds)
    have "unat p2 < 2 ^ sh" by (simp add: p2)
    moreover have "ds \<noteq> []" "hd ds \<noteq> 0" using 2(2,4) pow(1,4) by auto
    moreover have "unat hi = digits_val ds * 2 ^ sh + unat p2" unfolding 2(5) hi ..
    moreover have "10 ^ (length ds - 1) \<le> digits_val ds" unfolding 2(2,5) by (rule pow(4))
    moreover have "unat hi \<le> unat delta * 10 ^ 16" unfolding delta(1) by (rule top(2))
    ultimately obtain es q where "rbind (returned (fraction_loop sh (map digit ds) 0 p2 delta dist)) (\<lambda>(buffer', m, p2', delta', dist').
        rbind (grisu2_round buffer' dist' delta' p2' (push_bit sh 1)) (\<lambda>buf. Inr (buf, x - m)))
      = Inr (map digit es, x - int q)" "digits_between sh (unat hi - unat delta) (unat hi) es 0 q"
      using fraction_digits[of p2 sh delta dist ds "unat hi" x] 2(3,6) sh(2) delta(2,3) by blast
    moreover have "unat hi - unat delta = unat lo" using lo delta(1) by simp
    ultimately show ?case using 2(1,6) by (intro exI[of _ es] exI[of _ 0] exI[of _ q])
      (simp add: gen word_less_nat_alt flip: sh_def)
  qed
qed

end
