(* ===== verification/Common.thy ===== *)
theory Common
  imports Em_Prelude
begin

text \<open>
  The free functions of \<^verbatim>\<open>common/other/src/common.cpp\<close> (service names out of binary paths) and the
  string part of \<^verbatim>\<open>common/other/src/logger.cpp\<close>, with the constants of
  \<^verbatim>\<open>common/other/include/constants.hpp\<close>. The lemmas show which part of a path becomes the service
  name, that the wrap-around of \<^verbatim>\<open>size_t\<close> in \<open>parseServiceName\<close> is harmless, and that no
  \<^verbatim>\<open>substr\<close> call can throw.
\<close>

section \<open>Constants\<close>

definition IPC_PROTOCOL :: string where "IPC_PROTOCOL = ''unix:''"
definition MSM_STATE_PROVIDER :: string where "MSM_STATE_PROVIDER = ''/tmp/data.json''"
definition EM_SOCKET_NAME :: string where "EM_SOCKET_NAME = ''/tmp/execution_management''"
definition MSM_STATES_SERVER :: string where "MSM_STATES_SERVER = ''/tmp/state_setter''"
definition MSM_SOCKET_NAME :: string where "MSM_SOCKET_NAME = ''/tmp/machine_management''"
definition COMPONENT_SOCKET_NAME :: string where "COMPONENT_SOCKET_NAME = ''/tmp/component_management''"

definition DEFAULT_RESPONSE_TIMEOUT :: uint32 where "DEFAULT_RESPONSE_TIMEOUT = 30000000"
definition NO_TIMEOUT :: uint32 where "NO_TIMEOUT = 0"

definition AA_STATE_INIT :: string where "AA_STATE_INIT = ''Initializing''"
definition AA_STATE_RUNNING :: string where "AA_STATE_RUNNING = ''Running''"
definition AA_STATE_SHUTDOWN :: string where "AA_STATE_SHUTDOWN = ''Shutdown''"
definition AA_STATE_SUSPEND :: string where "AA_STATE_SUSPEND = ''Suspend''"

definition MACHINE_STATE_STARTUP :: string where "MACHINE_STATE_STARTUP = ''Starting-up''"
definition MACHINE_STATE_RUNNING :: string where "MACHINE_STATE_RUNNING = ''Running''"
definition MACHINE_STATE_LIVING :: string where "MACHINE_STATE_LIVING = ''Living''"
definition MACHINE_STATE_SUSPEND :: string where "MACHINE_STATE_SUSPEND = ''Suspend''"
definition MACHINE_STATE_SHUTTINGDOWN :: string where "MACHINE_STATE_SHUTTINGDOWN = ''Shuttingdown''"

definition COMPONENT_STATE_ON :: string where "COMPONENT_STATE_ON = ''kOn''"
definition COMPONENT_STATE_OFF :: string where "COMPONENT_STATE_OFF = ''kOff''"

definition SYSTEMCTL :: string where "SYSTEMCTL = ''systemctl''"
definition SERVICE_EXTENSION :: string where "SERVICE_EXTENSION = ''.service''"
definition USER :: string where "USER = ''--user''"
definition SYSTEMCTL_START :: string where "SYSTEMCTL_START = ''start''"
definition SYSTEMCTL_STOP :: string where "SYSTEMCTL_STOP = ''stop''"

definition RECV_BUFFER_SIZE :: nat where "RECV_BUFFER_SIZE = 512"
definition SOCKET_CLIENT_PATH :: string where "SOCKET_CLIENT_PATH = ''/tmp/clientSocket''"

lemmas machine_state_defs =
  MACHINE_STATE_STARTUP_def MACHINE_STATE_RUNNING_def MACHINE_STATE_LIVING_def
  MACHINE_STATE_SUSPEND_def MACHINE_STATE_SHUTTINGDOWN_def
lemmas component_state_defs = COMPONENT_STATE_ON_def COMPONENT_STATE_OFF_def
lemmas systemctl_defs =
  SYSTEMCTL_def SERVICE_EXTENSION_def USER_def SYSTEMCTL_START_def SYSTEMCTL_STOP_def

section \<open>Service names\<close>

definition getServiceName :: "string \<Rightarrow> string \<Rightarrow> string" where
  "getServiceName appName procName = appName @ ''_'' @ procName"

text \<open>
  \<open>readProc\<close> is the content of the pseudo file of the kernel, and \<^verbatim>\<open>data >> fullCmd\<close> takes the
  first word of it: leading white space is skipped, the word ends at the next white space. A file
  that cannot be opened leaves the string empty.
\<close>

definition is_space :: "char \<Rightarrow> bool" where
  "is_space c = (c \<in> set [CHR '' '', CHR 0x09, CHR 0x0A, CHR 0x0B, CHR 0x0C, CHR 0x0D])"

definition stream_word :: "string \<Rightarrow> string" where
  "stream_word s = takeWhile (\<lambda>c. \<not> is_space c) (dropWhile is_space s)"

text \<open>\<^verbatim>\<open>std::to_string\<close> of a \<^verbatim>\<open>pid_t\<close>.\<close>

function digits_of_nat :: "nat \<Rightarrow> string" where
  "digits_of_nat n =
     (if n < 10 then [char_of (48 + n)] else digits_of_nat (n div 10) @ [char_of (48 + n mod 10)])"
  by pat_completeness auto
termination
  by (relation "measure id") auto

declare digits_of_nat.simps [simp del]

definition to_string :: "int \<Rightarrow> string" where
  "to_string i = (if i < 0 then ''-'' @ digits_of_nat (nat (- i)) else digits_of_nat (nat i))"

definition getAppBinaryPath :: "(string \<Rightarrow> string option) \<Rightarrow> int \<Rightarrow> string" where
  "getAppBinaryPath readProc appPid =
     (case readProc (''/proc/'' @ to_string appPid @ ''/cmdline'') of
        None \<Rightarrow> '''' | Some content \<Rightarrow> stream_word content)"

definition parseServiceName :: "string \<Rightarrow> string res" where
  "parseServiceName path =
     (let delimiter = CHR ''/'';
          processesSize = of_nat (length ''/processes/'') :: size_t;
          currPos = str_find_last_of path delimiter npos
      in rbind (str_substr path (currPos + 1) npos) (\<lambda>processName.
         let prevPos = currPos - processesSize;
             currPos' = str_find_last_of path delimiter prevPos
         in rbind (str_substr path (currPos' + 1) (prevPos - currPos')) (\<lambda>appName.
            Inr (getServiceName appName processName))))"

section \<open>Logger\<close>

text \<open>
  The name that a log line shows for a source file. Reading the last character of an empty string
  is out of bounds (\<^verbatim>\<open>operator[]\<close> at \<open>npos\<close>).
\<close>

definition appPath :: string where
  "appPath = ''../applications/''"

definition is_digit :: "char \<Rightarrow> bool" where
  "is_digit c \<longleftrightarrow> 48 \<le> (of_char c :: nat) \<and> (of_char c :: nat) \<le> 57"

definition getApplicationName :: "string \<Rightarrow> string res" where
  "getApplicationName filePath0 =
     rbind (str_erase filePath0 0 (of_nat (length appPath))) (\<lambda>filePath1.
     rbind (if str_find_first_of filePath1 (CHR ''/'') < npos
            then rbind (str_substr filePath1 (str_find_last_of filePath1 (CHR ''/'') npos + 1) npos) (\<lambda>fileName.
                 rbind (str_erase filePath1 (str_find_first_of filePath1 (CHR ''/'')) npos) (\<lambda>dir.
                 Inr (dir @ ''::'' @ fileName)))
            else Inr filePath1) (\<lambda>filePath2.
     if filePath2 = [] then Inl (Undefined ''filePath[npos]'')
     else Inr (if is_digit (last filePath2) then butlast filePath2 else filePath2)))"

section \<open>Lemmas\<close>

lemma getServiceName_inj:
  assumes "getServiceName a p = getServiceName a' p'" "CHR ''_'' \<notin> set a" "CHR ''_'' \<notin> set a'"
  shows "a = a' \<and> p = p'"
proof -
  have a: "takeWhile (\<lambda>c. c \<noteq> CHR ''_'') (getServiceName a p) = a"
    using assms(2) takeWhile_not_in[of "CHR ''_''" a p] by (simp add: getServiceName_def)
  have a': "takeWhile (\<lambda>c. c \<noteq> CHR ''_'') (getServiceName a' p') = a'"
    using assms(3) takeWhile_not_in[of "CHR ''_''" a' p'] by (simp add: getServiceName_def)
  from a a' assms(1) have "a = a'" by simp
  with assms(1) show ?thesis by (simp add: getServiceName_def)
qed


lemma take_npos: "str_fits s \<Longrightarrow> take (Suc (unat npos)) s = s"
  by (simp add: unat_npos)

lemma find_last_of_absent_take:
  "c \<notin> set (take (Suc (unat pos)) s) \<Longrightarrow> str_find_last_of s c pos = npos"
  by (simp add: str_find_last_of_def)

lemma substr_of_nat:
  assumes "i < 2 ^ 64" "i \<le> length s"
  shows "str_substr s (of_nat i) n = Inr (take (unat n) (drop i s))"
  using assms by (simp add: str_substr_def)

lemma of_nat_size_diff: "b \<le> a \<Longrightarrow> of_nat a - of_nat b = (of_nat (a - b) :: size_t)"
  by (simp add: of_nat_diff)

text \<open>
  A position returned by \<^verbatim>\<open>find_last_of\<close> plus one is always a legal argument of \<^verbatim>\<open>substr\<close>, also
  when the search failed, because \<open>npos + 1 = 0\<close>.
\<close>

lemma find_last_of_plus_1_le:
  assumes "str_fits s"
  shows "unat (str_find_last_of s c pos + 1) \<le> length s"
proof (cases "c \<in> set (take (Suc (unat pos)) s)")
  case True
  define t where "t = take (Suc (unat pos)) s"
  define i where "i = length t - 1 - length (takeWhile (\<lambda>x. x \<noteq> c) (rev t))"
  from True have "t \<noteq> []" by (auto simp: t_def)
  then have "i < length t" by (cases t) (simp_all add: i_def)
  then have i: "i < length s" by (simp add: t_def)
  have "str_find_last_of s c pos = of_nat i"
    using True by (simp add: str_find_last_of_def Let_def t_def i_def)
  then have "str_find_last_of s c pos + 1 = of_nat (Suc i)" by simp
  then show ?thesis using i assms by (simp del: of_nat_Suc)
next
  case False
  then show ?thesis by (simp add: find_last_of_absent_take)
qed

lemma substr_after_find_last_of:
  assumes "str_fits s"
  shows "\<exists>t. str_substr s (str_find_last_of s c pos + 1) n = Inr t"
  using find_last_of_plus_1_le[OF assms, of c pos] by (simp add: str_substr_def)

lemma find_last_of_last:
  assumes "c \<notin> set b" "str_fits (a @ c # b)"
  shows "str_find_last_of (a @ c # b) c npos = of_nat (length a)"
  by (rule find_last_of_split[OF assms(1) take_npos[OF assms(2)]])

lemma substr_after_last:
  assumes "c \<notin> set b" "str_fits (a @ c # b)"
  shows "str_substr (a @ c # b) (str_find_last_of (a @ c # b) c npos + 1) npos = Inr b"
proof -
  have "str_find_last_of (a @ c # b) c npos + 1 = of_nat (Suc (length a))"
    using find_last_of_last[OF assms] by simp
  then show ?thesis
    using assms(2) by (simp add: substr_of_nat unat_npos del: of_nat_Suc)
qed


section \<open>The service name of a binary\<close>

lemma parseServiceName_process_path:
  assumes "CHR ''/'' \<notin> set app" "CHR ''/'' \<notin> set proc"
    and "dir = [] \<or> last dir = CHR ''/''" "dir @ app \<noteq> []"
    and fits: "str_fits (dir @ app @ ''/processes/'' @ proc)"
  shows "parseServiceName (dir @ app @ ''/processes/'' @ proc) = Inr (getServiceName app proc)"
proof -
  let ?n = "length dir + length app"
  define path where "path = dir @ app @ ''/processes/'' @ proc"
  define pre where "pre = dir @ app @ ''/processes''"
  have path: "path = pre @ CHR ''/'' # proc" by (simp add: path_def pre_def)
  have fitp: "str_fits path" using fits by (simp add: path_def)
  have n1: "1 \<le> ?n" using assms(4) by (cases dir; cases app) auto
  have nfit: "?n < 2 ^ 64" using fits by simp
  have lenpre: "length pre = ?n - 1 + length ''/processes/''" using n1 by (simp add: pre_def)
  have cur: "str_find_last_of path (CHR ''/'') npos = of_nat (length pre)"
    using find_last_of_last[of "CHR ''/''" proc pre] assms(2) fitp by (simp add: path)
  have procName: "str_substr path (str_find_last_of path (CHR ''/'') npos + 1) npos = Inr proc"
    using substr_after_last[of "CHR ''/''" proc pre] assms(2) fitp by (simp add: path)
  have prev: "of_nat (length pre) - of_nat (length ''/processes/'') = (of_nat (?n - 1) :: size_t)"
    by (subst of_nat_size_diff) (simp_all add: lenpre)
  have tk: "take (Suc (unat (of_nat (?n - 1) :: size_t))) path = dir @ app"
    using n1 nfit by (simp add: path_def del: of_nat_diff)
  have sub: "str_substr path (of_nat (length dir)) (of_nat (length app)) = Inr app"
    using nfit by (subst substr_of_nat) (simp_all add: path_def)
  have appName: "str_substr path (str_find_last_of path (CHR ''/'') (of_nat (?n - 1)) + 1)
      (of_nat (?n - 1) - str_find_last_of path (CHR ''/'') (of_nat (?n - 1))) = Inr app"
  proof (cases "dir = []")
    case True
    with tk assms(1) have "str_find_last_of path (CHR ''/'') (of_nat (?n - 1)) = npos"
      by (intro find_last_of_absent_take) simp
    moreover have "of_nat (?n - 1) - npos = (of_nat ?n :: size_t)"
      using n1 by (simp add: npos_def of_nat_diff)
    ultimately show ?thesis
      using True sub by simp
  next
    case False
    with assms(3) have dir: "dir = butlast dir @ [CHR ''/'']"
      using append_butlast_last_id[of dir] by simp
    from dir have "dir @ app = butlast dir @ CHR ''/'' # app"
      by (metis append.assoc append_Cons append_Nil)
    with tk assms(1) have last: "str_find_last_of path (CHR ''/'') (of_nat (?n - 1))
        = of_nat (length (butlast dir))"
      by (intro find_last_of_split[where b = app]) simp_all
    have d1: "1 \<le> length dir" using False by (cases dir) simp_all
    have "of_nat (length (butlast dir)) + 1 = (of_nat (length dir) :: size_t)"
      using d1 by (simp add: of_nat_diff)
    moreover have "of_nat (?n - 1) - of_nat (length (butlast dir)) = (of_nat (length app) :: size_t)"
      using d1 by (subst of_nat_size_diff) simp_all
    ultimately show ?thesis
      using sub by (simp only: last)
  qed
  show ?thesis
    unfolding path_def[symmetric]
    by (simp only: parseServiceName_def Let_def procName[unfolded cur] rbind_simps cur prev appName)
qed

lemma parseServiceName_total:
  assumes "str_fits path"
  shows "\<exists>name. parseServiceName path = Inr name"
  unfolding parseServiceName_def Let_def
  using substr_after_find_last_of[OF assms] by (metis rbind_simps(2))

lemma parseServiceName_no_slash:
  assumes "CHR ''/'' \<notin> set path" "length path < 2 ^ 63"
  shows "parseServiceName path = Inr (getServiceName path path)"
proof -
  have "unat (npos - 11 - npos :: size_t) = 2 ^ 64 - 11"
    by (simp add: npos_def unat_eq_nat_uint uint_word_ariths)
  then show ?thesis
    using assms
    by (simp add: parseServiceName_def Let_def find_last_of_absent str_substr_def unat_npos)
qed

text \<open>
  Parsing a service name never throws: the positions that the searches return, with the
  wrap-around of \<^verbatim>\<open>size_t\<close> when a search fails, are always legal arguments of \<^verbatim>\<open>substr\<close>. For a path of
  the form "dir/app/processes/proc" the result is the service name of \<open>app\<close> and \<open>proc\<close>; for a
  string without a slash it is that string twice.
\<close>

lemma parseServiceName_spec:
  assumes "str_fits path"
  shows "(\<exists>name. parseServiceName path = Inr name) \<and>
         (\<forall>dir app proc.
            path = dir @ app @ ''/processes/'' @ proc \<longrightarrow> CHR ''/'' \<notin> set app \<longrightarrow> CHR ''/'' \<notin> set proc \<longrightarrow>
            dir = [] \<or> last dir = CHR ''/'' \<longrightarrow> dir @ app \<noteq> [] \<longrightarrow>
            parseServiceName path = Inr (getServiceName app proc)) \<and>
         (CHR ''/'' \<notin> set path \<longrightarrow> length path < 2 ^ 63 \<longrightarrow>
            parseServiceName path = Inr (getServiceName path path))"
  using parseServiceName_total[OF assms] parseServiceName_process_path parseServiceName_no_slash assms
  by blast

end
