(* ===== verification/Json_Dump.thy ===== *)
theory Json_Dump
  imports Json_Escape Json_Digits Common
begin

text \<open>
  The serialiser of \<^verbatim>\<open>tools/json/json.hpp\<close> (class \<open>serializer\<close>), which writes the file of the key-value
  storage: integers, doubles and nested values, compact or with indentation. Strings are written by
  \<^verbatim>\<open>dump_escaped\<close>, of the theory \<open>Json_Escape\<close>, doubles by \<^verbatim>\<open>to_chars\<close>, of the theory \<open>Json_Digits\<close>.
\<close>

section \<open>Integers\<close>

function count_digits_from :: "nat \<Rightarrow> nat \<Rightarrow> nat" where
  "count_digits_from n_digits x =
     (if x < 10 then n_digits else if x < 100 then n_digits + 1 else if x < 1000 then n_digits + 2
      else if x < 10000 then n_digits + 3 else count_digits_from (n_digits + 4) (x div 10000))"
  by pat_completeness auto
termination
  by (relation "measure snd") auto

declare count_digits_from.simps [simp del]

definition count_digits :: "nat \<Rightarrow> nat" where
  "count_digits x = count_digits_from 1 x"

text \<open>A row of the table: the two digits of a number below 100.\<close>

definition digits_to_99 :: "nat \<Rightarrow> char \<times> char" where
  "digits_to_99 i = (char_of (48 + i div 10), char_of (48 + i mod 10))"

text \<open>\<^verbatim>\<open>*(--buffer_ptr) = d\<close>, on the position and the contents of \<^verbatim>\<open>number_buffer\<close>.\<close>

definition put_back :: "char \<Rightarrow> nat \<times> string \<Rightarrow> nat \<times> string" where
  "put_back d b = (fst b - 1, (snd b)[fst b - 1 := d])"

definition put_pair :: "nat \<Rightarrow> nat \<times> string \<Rightarrow> nat \<times> string" where
  "put_pair i b = put_back (fst (digits_to_99 i)) (put_back (snd (digits_to_99 i)) b)"

function fill_digits :: "nat \<Rightarrow> nat \<times> string \<Rightarrow> nat \<times> string" where
  "fill_digits abs_value b =
     (if abs_value \<ge> 100 then fill_digits (abs_value div 100) (put_pair (abs_value mod 100) b)
      else if abs_value \<ge> 10 then put_pair abs_value b
      else put_back (char_of (48 + abs_value)) b)"
  by pat_completeness auto
termination
  by (relation "measure fst") auto

declare fill_digits.simps [simp del]

text \<open>
  \<open>is_signed\<close> says which type the template is instantiated with. The result is what is written and
  the new contents of \<^verbatim>\<open>number_buffer\<close>. \<^verbatim>\<open>std::abs\<close> of the least integer is undefined.
\<close>

definition dump_integer :: "bool \<Rightarrow> 64 word \<Rightarrow> string \<Rightarrow> (string \<times> string) res" where
  "dump_integer is_signed x number_buffer =
     (if x = 0 then Inr (''0'', number_buffer)
      else let is_negative = (is_signed \<and> \<not> 0 \<le> sint x)
           in if is_negative \<and> sint x = - (2 ^ 63) then Inl (Undefined ''std::abs'')
              else let buf1 = (if is_negative then number_buffer[0 := CHR ''-''] else number_buffer);
                       abs_value = (if is_negative then nat (- sint x) else unat x);
                       n_chars = (if is_negative then 1 + count_digits abs_value else count_digits abs_value);
                       buf2 = snd (fill_digits abs_value (n_chars, buf1))
                   in Inr (take n_chars buf2, buf2))"

lemma digits_100: "100 \<le> n \<Longrightarrow> digits_of_nat n =
    digits_of_nat (n div 100) @ [fst (digits_to_99 (n mod 100)), snd (digits_to_99 (n mod 100))]"
proof -
  assume n: "100 \<le> n"
  have "n div 10 div 10 = n div 100" by (simp flip: div_mult2_eq)
  moreover have "n mod 100 = 10 * (n div 10 mod 10) + n mod 10" using mod_mult2_eq[of n 10 10] by simp
  then have "n mod 100 div 10 = n div 10 mod 10" "n mod 100 mod 10 = n mod 10" by simp_all
  moreover have "\<not> n div 10 < 10" using n by linarith
  ultimately show ?thesis
    using n by (simp add: digits_of_nat.simps[of n] digits_of_nat.simps[of "n div 10"] digits_to_99_def)
qed

lemma digits_10: "10 \<le> n \<Longrightarrow> n < 100 \<Longrightarrow> digits_of_nat n = [fst (digits_to_99 n), snd (digits_to_99 n)]"
proof -
  assume "10 \<le> n" "n < 100"
  moreover from this have "n div 10 < 10" by linarith
  ultimately show ?thesis
    by (simp add: digits_of_nat.simps[of n] digits_of_nat.simps[of "n div 10"] digits_to_99_def)
qed

lemma digits_1: "n < 10 \<Longrightarrow> digits_of_nat n = [char_of (48 + n)]"
  by (simp add: digits_of_nat.simps[of n])

lemma count_digits_length: "count_digits_from k n + 1 = k + length (digits_of_nat n)"
proof (induction k n rule: count_digits_from.induct)
  case (1 k n)
  have len: "length (digits_of_nat m) = Suc (length (digits_of_nat (m div 10)))" if "10 \<le> m" for m
    using that by (simp add: digits_of_nat.simps[of m])
  show ?case
  proof (cases "n < 10000")
    case False
    then have "length (digits_of_nat n) = 4 + length (digits_of_nat (n div 10 div 10 div 10 div 10))"
      by (simp add: len)
    moreover have "n div 10 div 10 div 10 div 10 = n div 10000" by (simp flip: div_mult2_eq)
    ultimately show ?thesis
      using 1 False by (simp add: count_digits_from.simps[of k n])
  next
    case True
    consider "n < 10" | "10 \<le> n" "n < 100" | "100 \<le> n" "n < 1000" | "1000 \<le> n" "n < 10000"
      using True by linarith
    then show ?thesis
      by cases (simp_all add: count_digits_from.simps[of k n] len digits_1)
  qed
qed

lemma put_back_at: "0 < p \<Longrightarrow> p \<le> length buf \<Longrightarrow>
    put_back d (p, buf) = (p - 1, take (p - 1) buf @ d # drop p buf)"
  by (simp add: put_back_def upd_conv_take_nth_drop)

text \<open>The digits are written in front of the position, and nothing else changes.\<close>

lemma fill_digits_spec:
  "length (digits_of_nat n) \<le> p \<Longrightarrow> p \<le> length buf \<Longrightarrow>
     snd (fill_digits n (p, buf)) =
       take (p - length (digits_of_nat n)) buf @ digits_of_nat n @ drop p buf"
proof (induction n "(p, buf)" arbitrary: p buf rule: fill_digits.induct)
  case (1 n p buf)
  have pair: "put_pair i (p, buf) = (p - 2, take (p - 2) buf @
      [fst (digits_to_99 i), snd (digits_to_99 i)] @ drop p buf)" if "2 \<le> p" for i
  proof -
    from that obtain q where "p = Suc (Suc q)" using le_Suc_ex[of 2 p] by auto
    with 1(3) show ?thesis by (simp add: put_pair_def put_back_at min_def)
  qed
  consider "n < 10" | "10 \<le> n" "n < 100" | "100 \<le> n" by linarith
  then show ?case
  proof cases
    case 1
    with "1.prems" show ?thesis by (simp add: fill_digits.simps[of n] digits_1 put_back_at)
  next
    case 2
    with "1.prems" show ?thesis by (simp add: fill_digits.simps[of n] digits_10 pair numeral_2_eq_2)
  next
    case 3
    let ?buf = "take (p - 2) buf @ [fst (digits_to_99 (n mod 100)), snd (digits_to_99 (n mod 100))] @ drop p buf"
    from 3 "1.prems"(1) have len: "2 + length (digits_of_nat (n div 100)) \<le> p" by (simp add: digits_100)
    then have "put_pair (n mod 100) (p, buf) = (p - 2, ?buf)" by (simp add: pair)
    from "1.hyps"[OF 3 this] len "1.prems"(2)
    have "snd (fill_digits (n div 100) (p - 2, ?buf)) =
        take (p - 2 - length (digits_of_nat (n div 100))) ?buf @ digits_of_nat (n div 100) @ drop (p - 2) ?buf"
      by simp
    moreover have "take (p - 2 - length (digits_of_nat (n div 100))) ?buf =
        take (p - length (digits_of_nat n)) buf"
      using 3 len "1.prems"(2) by (simp add: digits_100)
    moreover have "drop (p - 2) ?buf = [fst (digits_to_99 (n mod 100)), snd (digits_to_99 (n mod 100))] @ drop p buf"
      using len "1.prems"(2) by simp
    ultimately show ?thesis
      using 3 len by (simp only: fill_digits.simps[of n] pair digits_100 if_True append.assoc)
  qed
qed

lemma length_digits_bound: "n < 10 ^ Suc k \<Longrightarrow> length (digits_of_nat n) \<le> Suc k"
proof (induction n arbitrary: k rule: digits_of_nat.induct)
  case (1 n)
  show ?case
  proof (cases "n < 10")
    case True
    then show ?thesis by (simp add: digits_1)
  next
    case False
    then obtain k' where k: "k = Suc k'" using "1.prems" by (cases k) auto
    with "1.prems" have "n div 10 < 10 ^ Suc k'" by (simp add: less_mult_imp_div_less)
    from 1(1)[OF False this] False k show ?thesis by (simp add: digits_of_nat.simps[of n])
  qed
qed

lemma nat_sint: "0 \<le> sint (x :: 64 word) \<Longrightarrow> nat (sint x) = unat x"
proof -
  assume nonneg: "0 \<le> sint x"
  have "sint x = uint x - 2 ^ 64 * of_bool (bit (uint x) 63)"
    using signed_take_bit_eq_take_bit_minus[of 63 "uint x"] by (simp add: sint_uint bintr_uint)
  moreover have "uint x < 2 ^ LENGTH(64)" by (rule unsigned_less)
  ultimately have "sint x = uint x" using nonneg by (cases "bit (uint x) 63") auto
  then show ?thesis by simp
qed

lemma length_filled:
  "length ds \<le> n \<Longrightarrow> n \<le> length buf \<Longrightarrow> length (take (n - length ds) buf @ ds @ drop n buf) = length buf"
  by simp

lemma zero_char: "char_of (48 :: nat) = CHR ''0''"
  by (simp add: char_of_eq_iff)

lemma dump_integer_spec:
  assumes "length number_buffer = 64"
  shows "if is_signed \<and> sint x = - (2 ^ 63) then dump_integer is_signed x number_buffer = Inl (Undefined ''std::abs'')
         else \<exists>buf. dump_integer is_signed x number_buffer =
                Inr (to_string (if is_signed then sint x else int (unat x)), buf) \<and> length buf = 64"
proof (cases "x = 0")
  case True
  then show ?thesis using assms by (simp add: dump_integer_def to_string_def digits_1 zero_char)
next
  case nz: False
  let ?neg = "is_signed \<and> \<not> 0 \<le> sint x"
  let ?abs = "if ?neg then nat (- sint x) else unat x"
  let ?digits = "digits_of_nat ?abs"
  have "nat (- sint x) \<le> 2 ^ 63" using sint_ge[of x] by simp
  moreover have "unat x < 2 ^ LENGTH(64)" by (rule unsigned_less)
  ultimately have "?abs < 10 ^ Suc 19" by simp
  from length_digits_bound[OF this] have len: "length ?digits \<le> 20" by simp
  have count: "count_digits ?abs = length ?digits"
    using count_digits_length[of 1 ?abs] by (simp add: count_digits_def)
  show ?thesis
  proof (cases "?neg \<and> sint x = - (2 ^ 63)")
    case True
    then show ?thesis using nz by (simp add: dump_integer_def)
  next
    case False
    let ?buf = "if ?neg then number_buffer[0 := CHR ''-''] else number_buffer"
    let ?n = "if ?neg then 1 + length ?digits else length ?digits"
    let ?buf2 = "take (?n - length ?digits) ?buf @ ?digits @ drop ?n ?buf"
    have fill: "snd (fill_digits ?abs (?n, ?buf)) = ?buf2"
      by (rule fill_digits_spec) (use len assms in auto)
    have "dump_integer is_signed x number_buffer =
        Inr (take ?n (snd (fill_digits ?abs (?n, ?buf))), snd (fill_digits ?abs (?n, ?buf)))"
      unfolding dump_integer_def Let_def count using nz False by simp
    then have run: "dump_integer is_signed x number_buffer = Inr (take ?n ?buf2, ?buf2)"
      unfolding fill .
    have "take ?n ?buf2 = to_string (if is_signed then sint x else int (unat x))"
    proof (cases ?neg)
      case True
      obtain c cs where "number_buffer = c # cs" using assms by (cases number_buffer) auto
      with True show ?thesis by (simp add: to_string_def)
    next
      case nneg: False
      have "nat (sint x) = unat x" if "0 \<le> sint x"
        using that by (rule nat_sint)
      with nneg show ?thesis by (auto simp: to_string_def)
    qed
    moreover have "length ?buf2 = length ?buf" by (rule length_filled) (use len assms in auto)
    then have "length ?buf2 = 64" using assms by (simp split: if_splits)
    moreover have "\<not> (is_signed \<and> sint x = - (2 ^ 63))" using False by auto
    ultimately show ?thesis using run by (metis (no_types, lifting))
  qed
qed

section \<open>Values\<close>

record serializer =
  ser_out :: string
  ser_number_buffer :: string
  ser_indent_char :: char
  ser_indent_string :: string
  ser_error_handler :: error_handler_t

text \<open>
  The constructor. The locale is only used for doubles that are not printed by \<^verbatim>\<open>to_chars\<close>, and is
  left out.
\<close>

definition serializer_init :: "string \<Rightarrow> char \<Rightarrow> error_handler_t \<Rightarrow> serializer" where
  "serializer_init out ichar error_handler =
     \<lparr>ser_out = out, ser_number_buffer = replicate 64 (CHR 0x00), ser_indent_char = ichar,
      ser_indent_string = replicate 512 ichar, ser_error_handler = error_handler\<rparr>"

definition ser_write :: "string \<Rightarrow> serializer \<Rightarrow> serializer" where
  "ser_write cs s = s\<lparr>ser_out := ser_out s @ cs\<rparr>"

definition ser_string :: "bool \<Rightarrow> uint32 \<Rightarrow> string \<Rightarrow> serializer \<Rightarrow> serializer out" where
  "ser_string ensure_ascii codepoint str s =
     rbind (dump_escaped (ser_error_handler s) ensure_ascii codepoint str (ser_out s @ [CHR 0x22])) (\<lambda>out.
       Inr (s\<lparr>ser_out := out @ [CHR 0x22]\<rparr>))"

definition ser_integer :: "bool \<Rightarrow> 64 word \<Rightarrow> serializer \<Rightarrow> serializer out" where
  "ser_integer is_signed x s =
     (case dump_integer is_signed x (ser_number_buffer s) of
        Inl err \<Rightarrow> Inl (ser_out s, err)
      | Inr (cs, buf) \<Rightarrow> Inr ((ser_write cs s)\<lparr>ser_number_buffer := buf\<rparr>))"

text \<open>\<^verbatim>\<open>to_chars\<close> prints into the number buffer; what it does not overwrite stays there.\<close>

definition dump_float :: "64 word \<Rightarrow> serializer \<Rightarrow> serializer out" where
  "dump_float x s =
     (if \<not> isfinite x then Inr (ser_write ''null'' s)
      else case to_chars (int (length (ser_number_buffer s))) x of
             Inl err \<Rightarrow> Inl (ser_out s, err)
           | Inr cs \<Rightarrow> Inr ((ser_write cs s)\<lparr>ser_number_buffer := cs @ drop (length cs) (ser_number_buffer s)\<rparr>))"

text \<open>
  The indentation is a part of \<^verbatim>\<open>indent_string\<close>, which is doubled once if it is too short. Of its
  \<^verbatim>\<open>c_str()\<close>, one character more than its size can be read, a zero; the rest is undefined.
\<close>

definition grow_indent :: "uint32 \<Rightarrow> serializer \<Rightarrow> serializer" where
  "grow_indent new_indent s =
     (let n = length (ser_indent_string s)
      in if n < unat new_indent then s\<lparr>ser_indent_string := ser_indent_string s @ replicate n (CHR '' '')\<rparr> else s)"

definition write_indent :: "uint32 \<Rightarrow> serializer \<Rightarrow> serializer out" where
  "write_indent indent s =
     (let c_str = ser_indent_string s @ [CHR 0x00]
      in if unat indent \<le> length c_str then Inr (ser_write (take (unat indent) c_str) s)
         else Inl (ser_out s, Undefined ''indent_string''))"

text \<open>
  \<open>junk\<close> gives the value of the uninitialised code point. The members of an object and the elements
  of an array are written with a comma after all but the last; with \<^verbatim>\<open>pretty_print\<close> each on a line of
  its own.
\<close>

fun dump :: "uint32 \<Rightarrow> bool \<Rightarrow> bool \<Rightarrow> uint32 \<Rightarrow> json \<Rightarrow> uint32 \<Rightarrow> serializer \<Rightarrow> serializer out"
  and dump_members ::
    "uint32 \<Rightarrow> bool \<Rightarrow> bool \<Rightarrow> uint32 \<Rightarrow> (string \<times> json) list \<Rightarrow> uint32 \<Rightarrow> serializer \<Rightarrow> serializer out"
  and dump_elements ::
    "uint32 \<Rightarrow> bool \<Rightarrow> bool \<Rightarrow> uint32 \<Rightarrow> json list \<Rightarrow> uint32 \<Rightarrow> serializer \<Rightarrow> serializer out" where
  "dump junk pretty_print ensure_ascii indent_step (JObject m) current_indent s =
     (if m = [] then Inr (ser_write ''{}'' s)
      else if pretty_print
      then let new_indent = current_indent + indent_step
           in rbind (dump_members junk True ensure_ascii indent_step m new_indent
                       (grow_indent new_indent (ser_write [CHR ''{'', CHR 0x0A] s))) (\<lambda>s1.
              rbind (write_indent current_indent (ser_write [CHR 0x0A] s1)) (\<lambda>s2.
              Inr (ser_write ''}'' s2)))
      else rbind (dump_members junk False ensure_ascii indent_step m current_indent (ser_write ''{'' s)) (\<lambda>s1.
             Inr (ser_write ''}'' s1)))"
| "dump junk pretty_print ensure_ascii indent_step (JArray xs) current_indent s =
     (if xs = [] then Inr (ser_write ''[]'' s)
      else if pretty_print
      then let new_indent = current_indent + indent_step
           in rbind (dump_elements junk True ensure_ascii indent_step xs new_indent
                       (grow_indent new_indent (ser_write [CHR ''['', CHR 0x0A] s))) (\<lambda>s1.
              rbind (write_indent current_indent (ser_write [CHR 0x0A] s1)) (\<lambda>s2.
              Inr (ser_write '']'' s2)))
      else rbind (dump_elements junk False ensure_ascii indent_step xs current_indent (ser_write ''['' s)) (\<lambda>s1.
             Inr (ser_write '']'' s1)))"
| "dump junk pretty_print ensure_ascii indent_step (JString str) current_indent s = ser_string ensure_ascii junk str s"
| "dump junk pretty_print ensure_ascii indent_step (JBool b) current_indent s =
     Inr (ser_write (if b then ''true'' else ''false'') s)"
| "dump junk pretty_print ensure_ascii indent_step (JInteger w) current_indent s = ser_integer True w s"
| "dump junk pretty_print ensure_ascii indent_step (JUnsigned w) current_indent s = ser_integer False w s"
| "dump junk pretty_print ensure_ascii indent_step (JFloat w) current_indent s = dump_float w s"
| "dump junk pretty_print ensure_ascii indent_step JNull current_indent s = Inr (ser_write ''null'' s)"
| "dump_members junk pretty_print ensure_ascii indent_step [] new_indent s = Inr s"
| "dump_members junk pretty_print ensure_ascii indent_step ((k, v) # m) new_indent s =
     rbind (if pretty_print then write_indent new_indent s else Inr s) (\<lambda>s0.
     rbind (ser_string ensure_ascii junk k s0) (\<lambda>s1.
     rbind (dump junk pretty_print ensure_ascii indent_step v new_indent
              (ser_write (if pretty_print then '': '' else '':'') s1)) (\<lambda>s2.
     if m = [] then Inr s2
     else dump_members junk pretty_print ensure_ascii indent_step m new_indent
            (ser_write (if pretty_print then [CHR '','', CHR 0x0A] else '','') s2))))"
| "dump_elements junk pretty_print ensure_ascii indent_step [] new_indent s = Inr s"
| "dump_elements junk pretty_print ensure_ascii indent_step (x # xs) new_indent s =
     rbind (if pretty_print then write_indent new_indent s else Inr s) (\<lambda>s0.
     rbind (dump junk pretty_print ensure_ascii indent_step x new_indent s0) (\<lambda>s1.
     if xs = [] then Inr s1
     else dump_elements junk pretty_print ensure_ascii indent_step xs new_indent
            (ser_write (if pretty_print then [CHR '','', CHR 0x0A] else '','') s1)))"

text \<open>
  \<^verbatim>\<open>operator<<\<close> on a stream with a width and a fill character; the width is reset to zero. A negative
  width does not ask for indentation.
\<close>

definition json_output :: "int \<Rightarrow> char \<Rightarrow> uint32 \<Rightarrow> json \<Rightarrow> string out" where
  "json_output width fill junk j =
     (let pretty_print = 0 < width;
          indentation = (if pretty_print then width else 0)
      in rbind (dump junk pretty_print False (word_of_int indentation) j 0 (serializer_init [] fill strict)) (\<lambda>s.
           Inr (ser_out s)))"

text \<open>On a new stream, as the program has it, the width is zero and the fill character a space.\<close>

definition json_write :: "uint32 \<Rightarrow> json \<Rightarrow> string out" where
  "json_write junk j = json_output 0 (CHR '' '') junk j"

text \<open>The member \<^verbatim>\<open>dump\<close> of a value, which returns a string.\<close>

definition json_dump :: "int \<Rightarrow> char \<Rightarrow> bool \<Rightarrow> error_handler_t \<Rightarrow> uint32 \<Rightarrow> json \<Rightarrow> string out" where
  "json_dump indent indent_char ensure_ascii error_handler junk j =
     rbind (if 0 \<le> indent
            then dump junk True ensure_ascii (word_of_int indent) j 0 (serializer_init [] indent_char error_handler)
            else dump junk False ensure_ascii 0 j 0 (serializer_init [] indent_char error_handler)) (\<lambda>s.
       Inr (ser_out s))"

section \<open>Properties\<close>

text \<open>
  C28. The two-digits-at-a-time conversion of integers writes the decimal representation, with the
  sign, for every signed and unsigned 64-bit number but the least signed one, whose absolute value is
  undefined in the source; it stays within its buffer of 64 bytes.
\<close>

theorem integers_print_in_decimal:
  assumes "length number_buffer = 64"
  shows "if is_signed \<and> sint x = - (2 ^ 63) then dump_integer is_signed x number_buffer = Inl (Undefined ''std::abs'')
         else \<exists>buf. dump_integer is_signed x number_buffer =
                Inr (to_string (if is_signed then sint x else int (unat x)), buf) \<and> length buf = 64"
  using assms by (rule dump_integer_spec)

theorem integers_print_in_decimal_witness:
  "\<exists>buf. dump_integer False 12345 (replicate 64 (CHR 0x00)) = Inr (to_string 12345, buf)"
  using integers_print_in_decimal[of "replicate 64 (CHR 0x00)" False 12345] by auto

end
