(* ===== verification/Json_Double.thy ===== *)
theory Json_Double
  imports Json_Digits Complex_Main
begin

text \<open>
  Why Grisu2 prints enough: the digits that \<^verbatim>\<open>tools/json/json.hpp\<close> generates for a double denote a
  number strictly between the midpoints to the neighbouring doubles, so that rounding to nearest
  brings the double back, and there are at most seventeen of them. Values are rational numbers.
\<close>

section \<open>The value of a double\<close>

definition double_value :: "64 word \<Rightarrow> rat" where
  "double_value bits = of_nat (double_f bits) * 2 powi double_e bits"

lemma powi_minus1: "(2 :: rat) powi (e - 1) = 2 powi e / 2" "(2 :: rat) powi (e - 2) = 2 powi e / 4"
  by (simp_all add: power_int_diff)

lemma double_value_next:
  assumes "unat bits < 2 ^ 63"
  shows "double_value (bits + 1) = double_value bits + 2 powi double_e bits"
proof -
  have u: "unat (bits + 1) = Suc (unat bits)" using assms unat_plus_fits[of bits 1] by simp
  define E F where "E = unat bits div 2 ^ 52" and "F = unat bits mod 2 ^ 52"
  have F: "F < 2 ^ 52" by (simp add: F_def)
  have next_E: "unat (bits + 1) div 2 ^ 52 = (if F = 2 ^ 52 - 1 then Suc E else E)"
    "unat (bits + 1) mod 2 ^ 52 = (if F = 2 ^ 52 - 1 then 0 else Suc F)"
    unfolding u by (auto simp: E_def F_def div_Suc mod_Suc)
  show ?thesis
    unfolding double_value_def double_f_def double_e_def next_E E_def[symmetric] F_def[symmetric]
    by (cases "F = 2 ^ 52 - 1"; cases "E = 0") (auto simp: algebra_simps power_int_add power_int_diff)
qed

lemma double_value_previous:
  assumes "double_positive bits"
  shows "double_value (bits - 1) = double_value bits - (if closer_below bits then 2 powi (double_e bits - 1) else 2 powi double_e bits)"
proof -
  define b where "b = bits - 1"
  have bits: "bits = b + 1" by (simp add: b_def)
  have "0 < unat bits" using assms by (simp add: double_positive_def unat_gt_0)
  then have "unat b = unat bits - 1" unfolding b_def by (subst unat_sub) (auto simp: word_le_nat_alt)
  then have less: "unat b < 2 ^ 63" and u: "unat bits = Suc (unat b)" using positive_bound[OF assms] \<open>0 < unat bits\<close> by auto
  have "double_e b = (if closer_below bits then double_e bits - 1 else double_e bits)"
    unfolding double_e_def closer_below_def u by (auto simp: div_Suc mod_Suc)
  then show ?thesis using double_value_next[OF less] by (simp add: bits)
qed

section \<open>Scaling by a power of ten\<close>

text \<open>The significand of the product with a number \<open>c\<close> of the table.\<close>

definition scaled :: "nat \<Rightarrow> nat \<Rightarrow> nat" where
  "scaled c x = (x * c + 2 ^ 63) div 2 ^ 64"

lemma scaled_error: "\<bar>of_nat (scaled c x) - of_nat x * (of_nat c / 2 ^ 64 :: rat)\<bar> \<le> 1 / 2"
proof -
  have "2 ^ 64 * scaled c x + (x * c + 2 ^ 63) mod 2 ^ 64 = x * c + 2 ^ 63" "(x * c + 2 ^ 63) mod 2 ^ 64 < 2 ^ 64"
    unfolding scaled_def by simp_all
  then have "2 ^ 64 * scaled c x \<le> x * c + 2 ^ 63" "x * c + 2 ^ 63 < 2 ^ 64 * scaled c x + 2 ^ 64" by linarith+
  then have "(of_nat (2 ^ 64 * scaled c x) :: rat) \<le> of_nat (x * c + 2 ^ 63)"
    "(of_nat (x * c + 2 ^ 63) :: rat) < of_nat (2 ^ 64 * scaled c x + 2 ^ 64)" by (simp_all only: of_nat_le_iff of_nat_less_iff)
  then show ?thesis by (simp add: abs_le_iff field_simps)
qed

lemma scaled_fits: "x < 2 ^ 64 \<Longrightarrow> c < 2 ^ 64 \<Longrightarrow> scaled c x < 2 ^ 64"
proof -
  assume "x < 2 ^ 64" "c < 2 ^ 64"
  then have "x * c \<le> (2 ^ 64 - 1) * (2 ^ 64 - 1)" by (intro mult_le_mono) auto
  then show ?thesis unfolding scaled_def by (intro less_mult_imp_div_less) simp
qed

lemma powi_pos_neg: "(b :: rat) \<noteq> 0 \<Longrightarrow> b powi k = b ^ nat k / b ^ nat (- k)"
  by (cases "0 \<le> k") (auto simp: power_int_def divide_inverse power_inverse)

lemma power_accurate_error:
  assumes "power_accurate c e k"
  shows "\<bar>of_nat (unat c) - 10 powi k / (2 :: rat) powi e\<bar> \<le> 1 / 2"
proof -
  define p2 p2' p10 p10' :: rat where "p2 = 2 ^ nat e" and "p2' = 2 ^ nat (- e)" and "p10 = 10 ^ nat k" and "p10' = 10 ^ nat (- k)"
  have pos: "0 < p2" "0 < p2'" "0 < p10" "0 < p10'" by (simp_all add: p2_def p2'_def p10_def p10'_def)
  have "2 * \<bar>int (unat c) * 2 ^ nat e * 10 ^ nat (- k) - 10 ^ nat k * 2 ^ nat (- e)\<bar> \<le> 2 ^ nat e * 10 ^ nat (- k)"
    using assms by (simp add: power_accurate_def power_off_def)
  then have "(of_int (2 * \<bar>int (unat c) * 2 ^ nat e * 10 ^ nat (- k) - 10 ^ nat k * 2 ^ nat (- e)\<bar>) :: rat)
      \<le> of_int (2 ^ nat e * 10 ^ nat (- k))" by (simp only: of_int_le_iff)
  then have "2 * \<bar>of_nat (unat c) * p2 * p10' - p10 * p2'\<bar> \<le> p2 * p10'"
    by (simp add: p2_def p2'_def p10_def p10'_def)
  moreover have "of_nat (unat c) - 10 powi k / (2 :: rat) powi e = (of_nat (unat c) * p2 * p10' - p10 * p2') / (p2 * p10')"
    using pos by (simp add: powi_pos_neg p2_def p2'_def p10_def p10'_def field_simps)
  ultimately show ?thesis using pos by (simp add: abs_divide divide_le_eq)
qed

lemma scaled_close:
  assumes "power_accurate c e k" "x < 2 ^ 64"
  shows "\<bar>of_nat (scaled (unat c) x) - of_nat x * (10 powi k / (2 :: rat) powi (e + 64))\<bar> < 1"
proof -
  define s :: rat where "s = 10 powi k / 2 powi e"
  have s: "10 powi k / (2 :: rat) powi (e + 64) = s / 2 ^ 64" by (simp add: s_def power_int_add)
  have x: "of_nat x / 2 ^ 64 < (1 :: rat)" using assms(2) by simp
  have "\<bar>(of_nat x / 2 ^ 64) * (of_nat (unat c) - s)\<bar> \<le> (of_nat x / 2 ^ 64) * (1 / 2)"
    unfolding abs_mult s_def by (intro mult_mono power_accurate_error[OF assms(1)]) auto
  then have "\<bar>of_nat x * (of_nat (unat c) / 2 ^ 64) - of_nat x * (s / 2 ^ 64)\<bar> < (1 / 2 :: rat)"
    using x by (simp add: algebra_simps diff_divide_distrib)
  then show ?thesis using scaled_error[of "unat c" x] unfolding s by linarith
qed

lemma seventeen_digits:
  fixes h l x u d z :: rat
  assumes "l \<le> x - d + 1 / 2" "x + u - 1 / 2 \<le> h" "h \<le> x + u + 1 / 2" "60000000000000000 \<le> z"
    and "z / 2 \<le> 10000000000000000 * (d + u) - (x + u)"
  shows "h - 1 \<le> (h - l - 2) * 10000000000000000"
  using assms by (simp add: algebra_simps)

text \<open>What digit generation needs: the bounds are apart, and there are at most seventeen digits.\<close>

lemma scaled_bounds:
  assumes "2 ^ 63 \<le> c" "c < 2 ^ 64" "2 ^ 63 \<le> x" "x + up < 2 ^ 64" "512 \<le> down" "down \<le> x" "1024 \<le> up"
    and "6 * 10 ^ 16 + x + up \<le> (down + up) * 10 ^ 16"
  defines "lo \<equiv> scaled c (x - down) + 1" and "hi \<equiv> scaled c (x + up) - 1"
  shows "lo \<le> scaled c x" "scaled c x \<le> hi" "2 ^ 60 \<le> hi" "hi \<le> (hi - lo) * 10 ^ 16" "Suc hi = scaled c (x + up)"
proof -
  define r :: rat where "r = of_nat c / 2 ^ 64"
  define L W H where "L = scaled c (x - down)" and "W = scaled c x" and "H = scaled c (x + up)"
  have "(of_nat (2 ^ 63) :: rat) \<le> of_nat c" using assms(1) by (simp only: of_nat_le_iff)
  then have r: "1 / 2 \<le> r" by (simp add: r_def)
  have mono: "a / 2 \<le> a * r" if "0 \<le> a" for a using mult_left_mono[OF r that] by simp
  define X U D :: rat where "X = of_nat x" and "U = of_nat up" and "D = of_nat down"
  have nat: "2 ^ 63 \<le> X" "512 \<le> D" "1024 \<le> U" "X + U \<le> (D + U) * 10 ^ 16 - 6 * 10 ^ 16"
    using of_nat_mono[OF assms(3), where 'a = rat] of_nat_mono[OF assms(5), where 'a = rat]
      of_nat_mono[OF assms(7), where 'a = rat] of_nat_mono[OF assms(8), where 'a = rat]
    by (simp_all add: X_def U_def D_def)
  have err: "\<bar>of_nat L - (X * r - D * r)\<bar> \<le> 1 / 2" "\<bar>of_nat W - X * r\<bar> \<le> 1 / 2" "\<bar>of_nat H - (X * r + U * r)\<bar> \<le> 1 / 2"
    using scaled_error[of c "x - down"] scaled_error[of c x] scaled_error[of c "x + up"] assms(6)
    by (simp_all add: L_def W_def H_def X_def U_def D_def r_def of_nat_diff algebra_simps add_divide_distrib diff_divide_distrib)
  have half: "D / 2 \<le> D * r" "U / 2 \<le> U * r" "X / 2 \<le> X * r" using mono nat by auto
  have "of_nat (L + 2) \<le> (of_nat W :: rat)" unfolding of_nat_add of_nat_power of_nat_numeral of_nat_1 using err half(1) nat by linarith
  moreover have "of_nat (W + 2) \<le> (of_nat H :: rat)" unfolding of_nat_add of_nat_power of_nat_numeral of_nat_1 using err half(2) nat by linarith
  moreover have "X / 2 \<le> of_nat H" using err half(2,3) nat(3) by linarith
  then have "of_nat (2 ^ 60 + 1) \<le> (of_nat H :: rat)" using nat(1) by simp
  ultimately have apart: "L + 2 \<le> W" "W + 2 \<le> H" "2 ^ 60 + 1 \<le> H"
    by (simp_all only: of_nat_le_iff)
  then show "lo \<le> scaled c x" "scaled c x \<le> hi" "2 ^ 60 \<le> hi" "Suc hi = scaled c (x + up)"
    by (auto simp: lo_def hi_def L_def W_def H_def)
  define Z where "Z = (D + U) * 10000000000000000 - (X + U)"
  have Z: "60000000000000000 \<le> Z" using nat(4) by (simp add: Z_def algebra_simps)
  have Zr: "Z / 2 \<le> Z * r" using Z by (intro mono) simp
  have Zr': "Z * r = 10000000000000000 * (D * r + U * r) - (X * r + U * r)" by (simp add: Z_def algebra_simps)
  have split: "of_nat L \<le> X * r - D * r + 1 / 2" "X * r + U * r - 1 / 2 \<le> of_nat H" "of_nat H \<le> X * r + U * r + 1 / 2"
    using err by linarith+
  have diff: "of_nat (hi - lo) = (of_nat H - of_nat L - 2 :: rat)" "of_nat hi = (of_nat H - 1 :: rat)"
    using apart by (simp_all add: lo_def hi_def of_nat_diff flip: L_def H_def)
  have "of_nat hi \<le> (of_nat (hi - lo) * 10000000000000000 :: rat)"
    unfolding diff by (rule seventeen_digits[OF split Z Zr[unfolded Zr']])
  then have "of_nat hi \<le> (of_nat ((hi - lo) * 10 ^ 16) :: rat)" unfolding of_nat_mult by simp
  then show "hi \<le> (hi - lo) * 10 ^ 16" by (simp only: of_nat_le_iff)
qed

section \<open>The printed digits\<close>

text \<open>The bounds of the interval that rounds to a positive double: the midpoints to its neighbours.\<close>

definition lower_bound :: "64 word \<Rightarrow> rat" where
  "lower_bound bits = (double_value (bits - 1) + double_value bits) / 2"

definition upper_bound :: "64 word \<Rightarrow> rat" where
  "upper_bound bits = (double_value bits + double_value (bits + 1)) / 2"

definition gap_below :: "64 word \<Rightarrow> nat \<Rightarrow> nat" where
  "gap_below bits n = (if closer_below bits then 2 ^ (n - 2) else 2 ^ (n - 1))"

lemma bounds_scaled:
  assumes "double_positive bits" "11 \<le> n" "gap_below bits n \<le> double_f bits * 2 ^ n"
  shows "lower_bound bits = of_nat (double_f bits * 2 ^ n - gap_below bits n) * 2 powi (double_e bits - int n)"
    "upper_bound bits = of_nat (double_f bits * 2 ^ n + 2 ^ (n - 1)) * 2 powi (double_e bits - int n)"
proof -
  obtain k where k: "n = k + 2" using assms(2) by (intro that[of "n - 2"]) simp
  have e: "(2 :: rat) powi (double_e bits - int n) = 2 powi double_e bits / 2 ^ n" by (simp add: power_int_diff)
  define P f :: rat where "P = 2 powi double_e bits" and "f = of_nat (double_f bits)"
  have "upper_bound bits = f * P + P / 2"
    using double_value_next positive_bound[OF assms(1)]
    by (simp add: upper_bound_def add_divide_distrib double_value_def P_def f_def)
  also have "\<dots> = (f * 2 ^ n + 2 ^ (n - 1)) * (P / 2 ^ n)" by (simp add: k field_simps)
  finally show "upper_bound bits = of_nat (double_f bits * 2 ^ n + 2 ^ (n - 1)) * 2 powi (double_e bits - int n)"
    unfolding e by (simp add: P_def f_def)
  have "lower_bound bits = f * P - (if closer_below bits then P / 4 else P / 2)"
    unfolding lower_bound_def double_value_previous[OF assms(1)] by (simp add: power_int_diff double_value_def P_def f_def)
  also have "\<dots> = (f * 2 ^ n - of_nat (gap_below bits n)) * (P / 2 ^ n)" by (simp add: gap_below_def k field_simps)
  finally show "lower_bound bits = of_nat (double_f bits * 2 ^ n - gap_below bits n) * 2 powi (double_e bits - int n)"
    unfolding e using assms(3) by (simp add: P_def f_def of_nat_diff)
qed

lemma gap_facts:
  assumes "isfinite bits" "double_positive bits" "2 ^ 63 \<le> double_f bits * 2 ^ n" "double_f bits * 2 ^ n < 2 ^ 64"
  shows "11 \<le> n" "n \<le> 63" "512 \<le> gap_below bits n" "gap_below bits n \<le> double_f bits * 2 ^ n" "(1024 :: nat) \<le> 2 ^ (n - 1)"
    "double_f bits * 2 ^ n + 2 ^ (n - 1) < 2 ^ 64"
    "6 * 10 ^ 16 + double_f bits * 2 ^ n + 2 ^ (n - 1) \<le> (gap_below bits n + 2 ^ (n - 1)) * 10 ^ 16"
    "-1137 \<le> double_e bits - int n" "double_e bits - int n \<le> 960"
proof -
  have f: "0 < double_f bits" "double_f bits < 2 ^ 53" using double_f_bounds[OF assms(2)] by auto
  show n: "11 \<le> n" "n \<le> 63" using normalize_shift_bounds[OF f assms(3,4)] by auto
  show "-1137 \<le> double_e bits - int n" "double_e bits - int n \<le> 960"
    using n finite_exponent[OF assms(1,2)] by (auto simp: double_e_def)
  have pow: "(512 :: nat) \<le> 2 ^ (n - 2)" "(1024 :: nat) \<le> 2 ^ (n - 1)"
    using power_increasing[of 9 "n - 2" "2 :: nat"] power_increasing[of 10 "n - 1" "2 :: nat"] n by auto
  then show "512 \<le> gap_below bits n" "(1024 :: nat) \<le> 2 ^ (n - 1)" by (auto simp: gap_below_def)
  have "gap_below bits n \<le> 2 ^ n" by (auto simp: gap_below_def intro!: power_increasing)
  also have "\<dots> \<le> double_f bits * 2 ^ n" using f by simp
  finally show "gap_below bits n \<le> double_f bits * 2 ^ n" .
  show top: "double_f bits * 2 ^ n + 2 ^ (n - 1) < 2 ^ 64"
  proof -
    obtain q where q: "(2 :: nat) ^ 64 = 2 ^ n * q" using le_imp_power_dvd[of n 64 "2 :: nat"] n by (auto elim: dvdE)
    then have "double_f bits < q" using assms(4) unfolding q by (simp add: mult.commute)
    then have "(double_f bits + 1) * 2 ^ n \<le> q * 2 ^ n" by (intro mult_le_mono1) simp
    moreover have "(2 :: nat) ^ (n - 1) < 2 ^ n" using n by simp
    ultimately show ?thesis unfolding q add_mult_distrib mult.commute[of _ q] by linarith
  qed
  show "6 * 10 ^ 16 + double_f bits * 2 ^ n + 2 ^ (n - 1) \<le> (gap_below bits n + 2 ^ (n - 1)) * 10 ^ 16"
  proof (cases "closer_below bits")
    case True
    then have "double_f bits = 2 ^ 52" by (auto simp: closer_below_def double_f_def)
    then have "(2 :: nat) ^ (n + 52) < 2 ^ 64" using assms(4) by (simp add: power_add mult.commute)
    then have "n = 11" using n power_less_imp_less_exp[of "2 :: nat" "n + 52" 64] by simp
    then show ?thesis using True \<open>double_f bits = 2 ^ 52\<close> by (simp add: gap_below_def)
  next
    case False
    then show ?thesis using top pow by (simp add: gap_below_def)
  qed
qed

text \<open>
  Digits between the scaled bounds, moved back by the power of ten, are strictly between the numbers
  that were scaled.
\<close>

lemma digits_between_value:
  assumes acc: "power_accurate c ce k" and small: "x < 2 ^ 64" "y < 2 ^ 64" and neg: "ce + e + 64 \<le> 0"
    and hi: "Suc hi = scaled (unat c) y"
    and ds: "digits_between (nat (- (ce + e + 64))) (scaled (unat c) x + 1) hi ds m q"
  shows "of_nat x * 2 powi e < (of_nat (digits_val ds) * 10 powi (- k + int m - int q) :: rat)"
    "of_nat (digits_val ds) * 10 powi (- k + int m - int q) < (of_nat y * 2 powi e :: rat)"
proof -
  define sh where "sh = nat (- (ce + e + 64))"
  define V s K :: rat where "V = of_nat (digits_val ds)" and "s = 10 powi k / 2 powi (ce + 64)"
    and "K = 2 powi (ce + e + 64) / 10 powi k"
  have sK: "z * s * K = z * 2 powi e" for z by (simp add: s_def K_def power_int_add)
  have "0 < K" by (simp add: K_def)
  have "(2 :: rat) ^ sh * 2 powi (ce + e + 64) = 1" using neg by (simp add: sh_def powi_pos_neg)
  moreover have "(10 :: rat) powi (- k + int m - int q) = 10 ^ m / 10 ^ q / 10 powi k"
    by (simp add: power_int_diff power_int_add power_int_minus field_simps)
  ultimately have val: "V * 10 powi (- k + int m - int q) = V * 10 ^ m * 2 ^ sh / 10 ^ q * K"
    unfolding K_def by (simp add: field_simps)
  have "of_nat x * s < of_nat (scaled (unat c) x + 1)" "of_nat hi < of_nat y * s"
    using scaled_close[OF acc small(1)] scaled_close[OF acc small(2)]
    unfolding s_def[symmetric] hi[symmetric] by (auto simp: abs_less_iff)
  moreover have "of_nat ((scaled (unat c) x + 1) * 10 ^ q) \<le> (of_nat (digits_val ds * 10 ^ m * 2 ^ sh) :: rat)"
    "of_nat (digits_val ds * 10 ^ m * 2 ^ sh) \<le> (of_nat (hi * 10 ^ q) :: rat)"
    using ds unfolding of_nat_le_iff digits_between_def sh_def by auto
  then have "of_nat (scaled (unat c) x + 1) \<le> V * 10 ^ m * 2 ^ sh / 10 ^ q" "V * 10 ^ m * 2 ^ sh / 10 ^ q \<le> of_nat hi"
    by (simp_all add: V_def le_divide_eq divide_le_eq distrib_right)
  ultimately have "of_nat x * s * K < V * 10 ^ m * 2 ^ sh / 10 ^ q * K"
    "V * 10 ^ m * 2 ^ sh / 10 ^ q * K < of_nat y * s * K"
    unfolding mult_less_cancel_right_pos[OF \<open>0 < K\<close>] by linarith+
  then show "of_nat x * 2 powi e < (of_nat (digits_val ds) * 10 powi (- k + int m - int q) :: rat)"
    "of_nat (digits_val ds) * 10 powi (- k + int m - int q) < (of_nat y * 2 powi e :: rat)"
    unfolding V_def[symmetric] val sK by simp_all
qed

text \<open>The scaled boundaries go through digit generation without a failed assertion.\<close>

lemma grisu2_scaled_digits:
  assumes e: "-1137 \<le> e" "e \<le> 960" and w: "2 ^ 63 \<le> w" "w + up < 2 ^ 64" "512 \<le> down" "down \<le> w" "1024 \<le> up"
    and gap: "6 * 10 ^ 16 + w + up \<le> (down + up) * 10 ^ 16"
  shows "\<exists>(c :: cached_power) hi ds m q. grisu2_scaled (diyfp_of (of_nat (w - down)) e) (diyfp_of (of_nat w) e) (diyfp_of (of_nat (w + up)) e)
        = Inr (map digit ds, - cp_k c + int m - int q) \<and>
     power_accurate (cp_f c) (cp_e c) (cp_k c) \<and> cp_e c + e + 64 \<le> 0 \<and> -300 \<le> cp_k c \<and> cp_k c \<le> 324 \<and>
     Suc hi = scaled (unat (cp_f c)) (w + up) \<and>
     digits_between (nat (- (cp_e c + e + 64))) (scaled (unat (cp_f c)) (w - down) + 1) hi ds m q"
proof -
  obtain c where c: "get_cached_power_for_binary_exponent e = Inr c" "(cp_f c, cp_e c, cp_k c) \<in> set kCachedPowers"
    "-60 \<le> cp_e c + e + 64" "cp_e c + e + 64 \<le> -32" "-300 \<le> cp_k c" "cp_k c \<le> 324"
    using cached_power_exists[OF e] by fastforce
  note acc = cached_powers_accurate[OF c(2)]
  define C where "C = unat (cp_f c)"
  have "int (2 ^ 63) \<le> int C" using acc by (simp add: C_def power_accurate_def)
  then have C: "2 ^ 63 \<le> C" "C < 2 ^ 64" using unat_bound[of "cp_f c"] unfolding of_nat_le_iff by (auto simp: C_def)
  define lo hi E where "lo = scaled C (w - down) + 1" and "hi = scaled C (w + up) - 1" and "E = cp_e c + e + 64"
  note bounds = scaled_bounds[OF C w gap, folded lo_def hi_def]
  have fits: "unat (of_nat x :: 64 word) = x" if "x < 2 ^ 64" for x using that by (simp add: unat_of_nat)
  have mul: "diyfp_mul (diyfp_of (of_nat x) e) (diyfp_of (cp_f c) (cp_e c)) = diyfp_of (of_nat (scaled C x)) E"
    if "x < 2 ^ 64" for x using that by (simp add: diyfp_mul_eq fits scaled_def C_def E_def ac_simps)
  have hi: "hi < 2 ^ 64" using bounds(5) scaled_fits[OF w(2) C(2)] by simp
  have run: "grisu2_scaled (diyfp_of (of_nat (w - down)) e) (diyfp_of (of_nat w) e) (diyfp_of (of_nat (w + up)) e)
      = grisu2_digit_gen (- cp_k c) (diyfp_of (of_nat lo) E) (diyfp_of (of_nat (scaled C w)) E) (diyfp_of (of_nat hi) E)"
    using c(1) w(2)
    by (simp add: grisu2_scaled_def Let_def mul lo_def add.commute[of 1] del: of_nat_add flip: bounds(5))
  have unat: "unat (of_nat lo :: 64 word) = lo" "unat (of_nat (scaled C w) :: 64 word) = scaled C w"
    "unat (of_nat hi :: 64 word) = hi" using bounds hi by (auto intro!: fits)
  have "0 < lo" "lo < hi" using bounds by (auto simp: lo_def)
  then have "\<exists>ds m q. grisu2_digit_gen (- cp_k c) (diyfp_of (of_nat lo) E) (diyfp_of (of_nat (scaled C w)) E) (diyfp_of (of_nat hi) E)
      = Inr (map digit ds, - cp_k c + int m - int q) \<and>
      digits_between (nat (- E)) (unat (of_nat lo :: 64 word)) (unat (of_nat hi :: 64 word)) ds m q"
    by (intro grisu2_digit_gen_eq)
      (use c(3,4) bounds unat in \<open>simp_all only: word_le_nat_alt word_less_nat_alt unat unsigned_0 E_def\<close>)
  then obtain ds m q where "grisu2_digit_gen (- cp_k c) (diyfp_of (of_nat lo) E) (diyfp_of (of_nat (scaled C w)) E) (diyfp_of (of_nat hi) E)
      = Inr (map digit ds, - cp_k c + int m - int q)" "digits_between (nat (- E)) lo hi ds m q" unfolding unat by blast
  then show ?thesis using c(4-6) acc bounds(5) unfolding run unfolding lo_def C_def E_def
    by (intro exI[of _ c] exI[of _ hi] exI[of _ ds] exI[of _ m] exI[of _ q]) simp
qed

theorem grisu2_correct:
  assumes "isfinite bits" "double_positive bits"
  shows "\<exists>ds x. grisu2 bits = Inr (map digit ds, x) \<and> ds \<noteq> [] \<and> hd ds \<noteq> 0 \<and> decimals ds \<and> length ds \<le> 17 \<and>
     -400 \<le> x \<and> x \<le> 400 \<and>
     lower_bound bits < of_nat (digits_val ds) * 10 powi x \<and> of_nat (digits_val ds) * 10 powi x < upper_bound bits"
proof -
  obtain n where n: "2 ^ 63 \<le> double_f bits * 2 ^ n" "double_f bits * 2 ^ n < 2 ^ 64"
    using normalize_shift_exists[of "double_f bits"] double_f_bounds[OF assms(2)] by auto
  define e w down up where "e = double_e bits - int n" and "w = double_f bits * 2 ^ n"
    and "down = gap_below bits n" and "up = (2 :: nat) ^ (n - 1)"
  note gap = gap_facts[OF assms n, folded e_def w_def down_def up_def]
  obtain c :: cached_power and hi ds m q where run: "grisu2_scaled (diyfp_of (of_nat (w - down)) e) (diyfp_of (of_nat w) e) (diyfp_of (of_nat (w + up)) e)
        = Inr (map digit ds, - cp_k c + int m - int q)"
    and c: "power_accurate (cp_f c) (cp_e c) (cp_k c)" "cp_e c + e + 64 \<le> 0" "-300 \<le> cp_k c" "cp_k c \<le> 324"
    and ds: "Suc hi = scaled (unat (cp_f c)) (w + up)"
      "digits_between (nat (- (cp_e c + e + 64))) (scaled (unat (cp_f c)) (w - down) + 1) hi ds m q"
    using grisu2_scaled_digits[OF gap(8,9) n(1)[folded w_def] gap(6,3,4,5,7)] by blast
  have "grisu2 bits = Inr (map digit ds, - cp_k c + int m - int q)"
    using compute_boundaries_eq[OF assms n, folded e_def w_def gap_below_def, folded down_def up_def] assms run
    by (simp add: grisu2_def del: of_nat_add)
  moreover have "w - down < 2 ^ 64" using gap(6) by simp
  note digits_between_value[OF c(1) this gap(6) c(2) ds]
  moreover note bounds_scaled[OF assms(2) gap(1) gap(4)[unfolded down_def w_def], folded e_def w_def down_def up_def]
  ultimately show ?thesis using ds(2) c(3,4) unfolding digits_between_def
    by (intro exI[of _ ds] exI[of _ "- cp_k c + int m - int q"]) auto
qed

end
