(* ===== verification/Json_Number.thy ===== *)
theory Json_Number
  imports Json_Double Json_Lexer
begin

text \<open>
  Decimal texts and the numbers they denote, and the correctness of \<^verbatim>\<open>to_chars\<close>: for every finite
  double it prints a text with a fraction or an exponent, whose value rounds to that double, without
  a failed assertion and within the buffer of the serialiser.
\<close>

unbundle bit_operations_syntax

section \<open>Decimal texts\<close>

text \<open>
  A number with a fraction or an exponent: digits before and after the point, and the sign and the
  digits of the exponent.
\<close>

definition float_string :: "nat list \<Rightarrow> nat list \<Rightarrow> (bool \<times> nat list) option \<Rightarrow> string" where
  "float_string ip fp ex =
     map digit ip @ (if fp = [] then [] else CHR ''.'' # map digit fp) @
     (case ex of None \<Rightarrow> [] | Some (neg, es) \<Rightarrow> CHR ''e'' # (if neg then CHR ''-'' else CHR ''+'') # map digit es)"

definition float_parts :: "nat list \<Rightarrow> nat list \<Rightarrow> (bool \<times> nat list) option \<Rightarrow> bool" where
  "float_parts ip fp ex \<longleftrightarrow>
     ip \<noteq> [] \<and> (hd ip \<noteq> 0 \<or> ip = [0]) \<and> decimals ip \<and> decimals fp \<and>
     (case ex of None \<Rightarrow> fp \<noteq> [] | Some (neg, es) \<Rightarrow> es \<noteq> [] \<and> decimals es)"

text \<open>The number that an unsigned decimal text denotes.\<close>

definition exponent_value :: "string \<Rightarrow> int" where
  "exponent_value s =
     (case s of [] \<Rightarrow> 0
      | c # ds \<Rightarrow> if c = CHR ''-'' then - int (decimal_value ds)
                  else if c = CHR ''+'' then int (decimal_value ds) else int (decimal_value s))"

definition text_value :: "string \<Rightarrow> rat" where
  "text_value s =
     (let is_e = (\<lambda>c. c = CHR ''e'' \<or> c = CHR ''E'');
          mantissa = takeWhile (\<lambda>c. \<not> is_e c) s;
          exponent = drop 1 (dropWhile (\<lambda>c. \<not> is_e c) s);
          ip = takeWhile (\<lambda>c. c \<noteq> CHR ''.'') mantissa;
          fp = drop 1 (dropWhile (\<lambda>c. c \<noteq> CHR ''.'') mantissa)
      in of_nat (decimal_value (ip @ fp)) * 10 powi (exponent_value exponent - int (length fp)))"

lemma byte_digit: "d \<le> 9 \<Longrightarrow> byte_of (digit d) = 48 + d"
  by (simp add: digit_def)

lemma digit_dec: "d \<le> 9 \<Longrightarrow> dec_digit (digit d)"
  by (simp add: dec_digit_def byte_digit)

lemma digit_neq: "d \<le> 9 \<Longrightarrow> c \<in> {CHR ''e'', CHR ''E'', CHR ''.'', CHR ''-'', CHR ''+''} \<Longrightarrow> digit d \<noteq> c"
  using digit_dec[of d] by (auto simp: dec_digit_def)

lemma decimal_value_map: "decimals ds \<Longrightarrow> decimal_value (map digit ds) = digits_val ds"
proof -
  have "foldl (\<lambda>n c. 10 * n + (byte_of c - 0x30)) v (map digit ds) = foldl (\<lambda>a d. 10 * a + d) v ds" if "decimals ds" for v
    using that by (induction ds arbitrary: v) (simp_all add: byte_digit)
  then show "decimals ds \<Longrightarrow> decimal_value (map digit ds) = digits_val ds"
    by (simp add: decimal_value_def digits_val_def)
qed

lemma takeWhile_digits: "\<forall>d\<in>set ds. P (digit d) \<Longrightarrow> takeWhile P (map digit ds @ s) = map digit ds @ takeWhile P s"
  by (induction ds) simp_all

lemma dropWhile_digits: "\<forall>d\<in>set ds. P (digit d) \<Longrightarrow> dropWhile P (map digit ds @ s) = dropWhile P s"
  by (induction ds) simp_all

definition exponent_int :: "(bool \<times> nat list) option \<Rightarrow> int" where
  "exponent_int ex = (case ex of None \<Rightarrow> 0 | Some (neg, es) \<Rightarrow> if neg then - int (digits_val es) else int (digits_val es))"

lemma text_value_float_string:
  assumes "float_parts ip fp ex"
  shows "text_value (float_string ip fp ex) = of_nat (digits_val (ip @ fp)) * 10 powi (exponent_int ex - int (length fp))"
proof -
  let ?e = "\<lambda>c. \<not> (c = CHR ''e'' \<or> c = CHR ''E'')" and ?d = "\<lambda>c. c \<noteq> CHR ''.''"
  have dec: "decimals ip" "decimals fp" using assms by (auto simp: float_parts_def)
  have no_e: "\<forall>d\<in>set ds. ?e (digit d)" and no_dot: "\<forall>d\<in>set ds. ?d (digit d)" if "decimals ds" for ds
    using that digit_neq by auto
  let ?m = "map digit ip @ (if fp = [] then [] else CHR ''.'' # map digit fp)"
  let ?x = "case ex of None \<Rightarrow> [] | Some (neg, es) \<Rightarrow> CHR ''e'' # (if neg then CHR ''-'' else CHR ''+'') # map digit es"
  have s: "float_string ip fp ex = ?m @ ?x" by (simp add: float_string_def)
  have "takeWhile ?e (?m @ ?x) = ?m" "dropWhile ?e (?m @ ?x) = ?x"
    using no_e[OF dec(1)] no_e[OF dec(2)] takeWhile_digits[of ip ?e] dropWhile_digits[of ip ?e]
      takeWhile_digits[of fp ?e] dropWhile_digits[of fp ?e]
    by (auto split: option.split)
  moreover have "takeWhile ?d ?m = map digit ip" "drop 1 (dropWhile ?d ?m) = map digit fp"
    using no_dot[OF dec(1)] takeWhile_digits[of ip ?d "if fp = [] then [] else CHR ''.'' # map digit fp"]
      dropWhile_digits[of ip ?d "if fp = [] then [] else CHR ''.'' # map digit fp"] by auto
  moreover have "exponent_value (drop 1 ?x) = exponent_int ex"
    using assms decimal_value_map
    by (auto simp: exponent_value_def exponent_int_def float_parts_def split: option.splits)
  moreover have "decimal_value (map digit ip @ map digit fp) = digits_val (ip @ fp)"
    using decimal_value_map[of "ip @ fp"] dec by auto
  ultimately show ?thesis unfolding text_value_def Let_def s by simp
qed

section \<open>The format\<close>

lemma append_exponent_eq:
  assumes "-1000 < e" "e < 1000"
  shows "\<exists>es. append_exponent e = Inr ((if e < 0 then CHR ''-'' else CHR ''+'') # map digit es) \<and>
     decimals es \<and> digits_val es = nat \<bar>e\<bar> \<and> es \<noteq> [] \<and> length es \<le> 3"
proof -
  define k where "k = nat \<bar>e\<bar>"
  have k: "k < 1000" using assms by (simp add: k_def)
  define es where "es = (if k < 10 then [0, k] else if k < 100 then [k div 10, k mod 10]
      else [k div 100, k mod 100 div 10, k mod 100 mod 10])"
  have "append_exponent e = Inr ((if e < 0 then CHR ''-'' else CHR ''+'') # map digit es)"
    using assms digit_zero_iff[of 0] by (simp add: append_exponent_def Let_def es_def digit_def flip: k_def)
  moreover have "decimals es" "length es \<le> 3" "es \<noteq> []" using k by (auto simp: es_def)
  moreover have "digits_val es = k"
  proof -
    have "k div 100 * 100 + (k mod 100 div 10 * 10 + k mod 100 mod 10) = k"
      using div_mult_mod_eq[of k 100] div_mult_mod_eq[of "k mod 100" 10] by linarith
    then show ?thesis by (auto simp: es_def)
  qed
  ultimately show ?thesis unfolding k_def by blast
qed

lemma digits_val_zeros: "digits_val (replicate n 0) = 0"
  by (induction n) simp_all

lemma digit_zero: "CHR ''0'' = digit 0"
  using digit_zero_iff[of 0] by simp

text \<open>What \<open>format_buffer\<close> makes of the digits \<open>ds\<close> with the exponent \<open>x\<close>.\<close>

lemma format_buffer_eq:
  assumes "ds \<noteq> []" "hd ds \<noteq> 0" "decimals ds" "length ds \<le> 17" "-400 \<le> x" "x \<le> 400"
  shows "\<exists>ip fp ex. format_buffer (map digit ds) x (-4) 15 = Inr (float_string ip fp ex) \<and> float_parts ip fp ex \<and>
     of_nat (digits_val (ip @ fp)) * 10 powi (exponent_int ex - int (length fp)) = (of_nat (digits_val ds) * 10 powi x :: rat) \<and>
     length (float_string ip fp ex) \<le> 23"
proof -
  define k n where "k = int (length ds)" and "n = int (length ds) + x"
  have k: "0 < k" "k \<le> 17" using assms(1,4) by (auto simp: k_def)
  have x: "x = n - k" by (simp add: n_def k_def)
  let ?good = "\<lambda>ip fp ex. format_buffer (map digit ds) x (-4) 15 = Inr (float_string ip fp ex) \<and> float_parts ip fp ex \<and>
     of_nat (digits_val (ip @ fp)) * 10 powi (exponent_int ex - int (length fp)) = (of_nat (digits_val ds) * 10 powi x :: rat) \<and>
     length (float_string ip fp ex) \<le> 23"
  consider (whole) "k \<le> n" "n \<le> 15" | (inside) "0 < n" "n \<le> 15" "n < k" | (small) "-4 < n" "n \<le> 0"
    | (exp) "\<not> (k \<le> n \<and> n \<le> 15)" "\<not> (0 < n \<and> n \<le> 15)" "\<not> (-4 < n \<and> n \<le> 0)" by linarith
  then show ?thesis
  proof cases
    case whole
    have "?good (ds @ replicate (nat x) 0) [0] None"
      using whole assms x k
      by (auto simp: format_buffer_def Let_def float_string_def float_parts_def exponent_int_def digit_zero digits_val_zeros
          power_int_def k_def hd_append simp flip: n_def)
    then show ?thesis by blast
  next
    case inside
    have "?good (take (nat n) ds) (drop (nat n) ds) None"
      using inside assms x k
      by (auto simp: format_buffer_def Let_def float_string_def float_parts_def exponent_int_def take_map drop_map
          k_def hd_take of_nat_diff simp flip: n_def dest: in_set_takeD in_set_dropD)
    then show ?thesis by blast
  next
    case small
    then have "\<not> int (length ds) \<le> n" using k unfolding k_def by linarith
    then have "?good [0] (replicate (nat (- n)) 0 @ ds) None"
      using small assms x k
      by (auto simp: format_buffer_def Let_def float_string_def float_parts_def exponent_int_def digit_zero digits_val_zeros
          k_def simp flip: n_def)
    then show ?thesis by blast
  next
    case exp
    have "-1000 < n - 1" "n - 1 < 1000" using assms(5,6) k x by auto
    then obtain es where es: "append_exponent (n - 1) = Inr ((if n - 1 < 0 then CHR ''-'' else CHR ''+'') # map digit es)"
      "decimals es" "digits_val es = nat \<bar>n - 1\<bar>" "es \<noteq> []" "length es \<le> 3" using append_exponent_eq by blast
    have e: "exponent_int (Some (n - 1 < 0, es)) = n - 1" using es(3) by (simp add: exponent_int_def)
    obtain d ds' where ds': "ds = d # ds'" using assms(1) by (cases ds) auto
    have "?good [d] ds' (Some (n - 1 < 0, es))"
      using exp assms x k es e ds'
      by (auto simp: format_buffer_def Let_def float_string_def float_parts_def k_def diff_diff_eq simp flip: n_def)
    then show ?thesis by blast
  qed
qed

section \<open>Printed doubles round back\<close>

text \<open>A number \<open>v\<close> rounds to the double with the bits \<open>w\<close>, of which the sign is clear.\<close>

definition rounds_to :: "64 word \<Rightarrow> rat \<Rightarrow> bool" where
  "rounds_to w v \<longleftrightarrow> (w = 0 \<or> lower_bound w < v) \<and> 0 \<le> v \<and> v < upper_bound w"

abbreviation magnitude :: "64 word \<Rightarrow> 64 word" where
  "magnitude w \<equiv> w AND (push_bit 63 1 - 1)"

abbreviation sign_text :: "64 word \<Rightarrow> string" where
  "sign_text w \<equiv> if bit w 63 then ''-'' else []"

lemma magnitude_bits: "\<not> bit (magnitude w) 63" "isfinite (magnitude w) = isfinite w"
proof -
  have m: "push_bit 63 1 - 1 = (mask 63 :: 64 word)" by (simp add: mask_eq_exp_minus_1)
  show "\<not> bit (magnitude w) 63" unfolding m by (simp add: bit_simps)
  have "drop_bit 52 (w AND mask 63) AND mask 11 = drop_bit 52 w AND mask 11"
    by (rule bit_word_eqI) (auto simp: bit_simps)
  moreover have "(0x7FF :: 64 word) = mask 11" by (simp add: mask_eq_exp_minus_1)
  ultimately show "isfinite (magnitude w) = isfinite w" unfolding isfinite_def m by simp
qed

lemma upper_bound_zero: "0 < upper_bound 0"
  by (simp add: upper_bound_def double_value_def double_f_def double_e_def)

lemma to_chars_eq:
  assumes "isfinite w" "24 \<le> room"
  shows "\<exists>ip fp ex. to_chars room w = Inr (sign_text w @ float_string ip fp ex) \<and> float_parts ip fp ex \<and>
     rounds_to (magnitude w) (text_value (float_string ip fp ex)) \<and> length (float_string ip fp ex) \<le> 23"
proof (cases "magnitude w = 0")
  case True
  have parts: "float_parts [0] [0] None" by (simp add: float_parts_def)
  have s: "float_string [0] [0] None = ''0.0''" by (simp add: float_string_def digit_zero)
  have "to_chars room w = Inr (sign_text w @ ''0.0'')"
    using True assms by (simp add: to_chars_def Let_def)
  moreover have "rounds_to (magnitude w) (text_value ''0.0'')"
    using text_value_float_string[OF parts] upper_bound_zero unfolding s True by (simp add: rounds_to_def)
  ultimately show ?thesis using parts unfolding s[symmetric] by (intro exI[of _ "[0]"] exI[of _ None]) (simp add: s)
next
  case False
  let ?m = "magnitude w"
  have "isfinite ?m" "double_positive ?m" using assms False magnitude_bits by (simp_all add: double_positive_def)
  from grisu2_correct[OF this] obtain ds x where ds: "grisu2 ?m = Inr (map digit ds, x)" "ds \<noteq> []" "hd ds \<noteq> 0" "decimals ds"
    "length ds \<le> 17" "-400 \<le> x" "x \<le> 400"
    and between: "lower_bound ?m < of_nat (digits_val ds) * 10 powi x" "of_nat (digits_val ds) * 10 powi x < upper_bound ?m"
    by blast
  from format_buffer_eq[OF ds(2-7)] obtain ip fp ex where
    f: "format_buffer (map digit ds) x (-4) 15 = Inr (float_string ip fp ex)" "float_parts ip fp ex"
    "of_nat (digits_val (ip @ fp)) * 10 powi (exponent_int ex - int (length fp)) = (of_nat (digits_val ds) * 10 powi x :: rat)"
    "length (float_string ip fp ex) \<le> 23" by blast
  have "to_chars room w = Inr (sign_text w @ float_string ip fp ex)"
    using assms False ds(1,5) f(1,4) by (simp add: to_chars_def Let_def)
  moreover have "rounds_to ?m (text_value (float_string ip fp ex))"
    using between unfolding text_value_float_string[OF f(2)] f(3) by (simp add: rounds_to_def)
  ultimately show ?thesis using f by blast
qed
text \<open>
  C11. Printing a finite double never fails an assertion and never writes past 24 characters: the
  text is a sign, digits with a fraction or an exponent, and the number it denotes lies strictly
  between the midpoints to the neighbouring doubles, so that rounding to nearest gives the double
  back.
\<close>

theorem printed_double_rounds_back:
  assumes "isfinite w" "24 \<le> room"
  shows "\<exists>s. to_chars room w = Inr (sign_text w @ s) \<and> length (sign_text w @ s) \<le> 24 \<and>
     (if magnitude w = 0 then s = ''0.0''
      else (double_value (magnitude w - 1) + double_value (magnitude w)) / 2 < text_value s \<and>
           text_value s < (double_value (magnitude w) + double_value (magnitude w + 1)) / 2)"
proof -
  obtain ip fp ex where s: "to_chars room w = Inr (sign_text w @ float_string ip fp ex)"
    "rounds_to (magnitude w) (text_value (float_string ip fp ex))" "length (float_string ip fp ex) \<le> 23"
    using to_chars_eq[OF assms] by blast
  moreover have "float_string ip fp ex = ''0.0''" if "magnitude w = 0"
    using s(1) that assms by (simp add: to_chars_def Let_def split: if_splits)
  ultimately show ?thesis
    by (intro exI[of _ "float_string ip fp ex"]) (auto simp: rounds_to_def lower_bound_def upper_bound_def)
qed

theorem printed_double_rounds_back_witness:
  "to_chars 64 0x3FB999999999999A = Inr ''0.1'' \<and>
   (double_value 0x3FB9999999999999 + double_value 0x3FB999999999999A) / 2 < text_value ''0.1'' \<and>
   text_value ''0.1'' < (double_value 0x3FB999999999999A + double_value 0x3FB999999999999B) / 2"
proof -
  have run: "to_chars 64 0x3FB999999999999A = Inr ''0.1''" by code_simp
  have "isfinite 0x3FB999999999999A" by (simp add: isfinite_def)
  from printed_double_rounds_back[OF this, of 64] run show ?thesis by auto
qed

end
