(* ===== verification/Json_Text.thy ===== *)
theory Json_Text
  imports Json_Dump Json_Number
begin

text \<open>
  What the serialiser writes, as a function on values, and that the lexer and the parser read it
  back. Each lemma about reading is stated for a text followed by an arbitrary rest, so that the
  lemmas compose along the structure of the value.
\<close>

section \<open>The text of a value\<close>

definition quoted :: "string \<Rightarrow> string" where
  "quoted s = CHR 0x22 # concat (map escape_char s) @ [CHR 0x22]"

text \<open>The text of a finite double; \<open>to_chars_eq\<close> shows that it is defined.\<close>

definition double_text :: "64 word \<Rightarrow> string" where
  "double_text w = (case to_chars 64 w of Inl _ \<Rightarrow> [] | Inr cs \<Rightarrow> cs)"

fun json_text :: "json \<Rightarrow> string"
  and members_text :: "(string \<times> json) list \<Rightarrow> string"
  and elements_text :: "json list \<Rightarrow> string" where
  "json_text (JObject m) = ''{'' @ members_text m @ ''}''"
| "json_text (JArray xs) = ''['' @ elements_text xs @ '']''"
| "json_text (JString s) = quoted s"
| "json_text (JBool b) = (if b then ''true'' else ''false'')"
| "json_text (JInteger w) = to_string (sint w)"
| "json_text (JUnsigned w) = to_string (int (unat w))"
| "json_text (JFloat w) = (if isfinite w then double_text w else ''null'')"
| "json_text JNull = ''null''"
| "members_text [] = []"
| "members_text ((k, v) # m) =
     quoted k @ '':'' @ json_text v @ (if m = [] then [] else '','' @ members_text m)"
| "elements_text [] = []"
| "elements_text (x # xs) =
     json_text x @ (if xs = [] then [] else '','' @ elements_text xs)"

text \<open>Text in ASCII is UTF-8.\<close>

definition ascii :: "string \<Rightarrow> bool" where
  "ascii s \<longleftrightarrow> list_all (\<lambda>c. byte_of c < 0x80) s"

lemma ascii_utf8: "ascii s \<Longrightarrow> utf8_valid s"
proof -
  have "utf8_run 0 s = 0" if "list_all (\<lambda>c. byte_of c < 0x80) s"
    using that
  proof (induction s)
    case (Cons c s)
    then have "utf8_next 0 (byte_of c) = 0"
      using utf8_from_accept[of "byte_of c"] by (simp add: utf8_lead_def)
    with Cons show ?case by (simp add: UTF8_REJECT_def)
  qed simp
  then show "ascii s \<Longrightarrow> utf8_valid s" by (simp add: ascii_def utf8_valid_def UTF8_ACCEPT_def)
qed

text \<open>Every string is written without an exception, and no integer is the least one.\<close>

fun dumpable_by :: "(string \<Rightarrow> bool) \<Rightarrow> json \<Rightarrow> bool" where
  "dumpable_by P (JObject m) \<longleftrightarrow> (\<forall>(k, v) \<in> set m. P k \<and> dumpable_by P v)"
| "dumpable_by P (JArray xs) \<longleftrightarrow> (\<forall>x \<in> set xs. dumpable_by P x)"
| "dumpable_by P (JString s) \<longleftrightarrow> P s"
| "dumpable_by P (JInteger w) \<longleftrightarrow> sint w \<noteq> - (2 ^ 63)"
| "dumpable_by P _ \<longleftrightarrow> True"

abbreviation dumpable :: "json \<Rightarrow> bool" where
  "dumpable \<equiv> dumpable_by utf8_valid"

section \<open>Layouts\<close>

text \<open>The arguments of the serialiser, and how it writes strings.\<close>

record layout =
  lay_quote :: "string \<Rightarrow> string"
  lay_pretty :: bool
  lay_step :: uint32
  lay_char :: char
  lay_ascii :: bool
  lay_handler :: error_handler_t

text \<open>The first 512 characters of an indentation are the chosen ones, the others are spaces.\<close>

definition indent_text :: "char \<Rightarrow> nat \<Rightarrow> string" where
  "indent_text ichar n = replicate (min n 512) ichar @ replicate (n - 512) (CHR '' '')"

definition line_break :: "layout \<Rightarrow> string" where
  "line_break L = (if lay_pretty L then [CHR 0x0A] else [])"

definition indentation :: "layout \<Rightarrow> uint32 \<Rightarrow> string" where
  "indentation L n = (if lay_pretty L then indent_text (lay_char L) (unat n) else [])"

definition deeper :: "layout \<Rightarrow> uint32 \<Rightarrow> uint32" where
  "deeper L n = (if lay_pretty L then n + lay_step L else n)"

fun layout_text :: "layout \<Rightarrow> json \<Rightarrow> uint32 \<Rightarrow> string"
  and layout_members :: "layout \<Rightarrow> (string \<times> json) list \<Rightarrow> uint32 \<Rightarrow> string"
  and layout_elements :: "layout \<Rightarrow> json list \<Rightarrow> uint32 \<Rightarrow> string" where
  "layout_text L (JObject m) n =
     (if m = [] then ''{}''
      else ''{'' @ line_break L @ layout_members L m (deeper L n) @ line_break L @ indentation L n @ ''}'')"
| "layout_text L (JArray xs) n =
     (if xs = [] then ''[]''
      else ''['' @ line_break L @ layout_elements L xs (deeper L n) @ line_break L @ indentation L n @ '']'')"
| "layout_text L (JString s) n = lay_quote L s"
| "layout_text L (JBool b) n = (if b then ''true'' else ''false'')"
| "layout_text L (JInteger w) n = to_string (sint w)"
| "layout_text L (JUnsigned w) n = to_string (int (unat w))"
| "layout_text L (JFloat w) n = (if isfinite w then double_text w else ''null'')"
| "layout_text L JNull n = ''null''"
| "layout_members L [] n = []"
| "layout_members L ((k, v) # m) n =
     indentation L n @ lay_quote L k @ (if lay_pretty L then '': '' else '':'') @ layout_text L v n @
     (if m = [] then [] else '','' @ line_break L @ layout_members L m n)"
| "layout_elements L [] n = []"
| "layout_elements L (x # xs) n =
     indentation L n @ layout_text L x n @
     (if xs = [] then [] else '','' @ line_break L @ layout_elements L xs n)"

text \<open>A string in quotes, as the serialiser writes it; if it raises an exception, a part of the text.\<close>

definition quotes :: "error_handler_t \<Rightarrow> bool \<Rightarrow> (string \<Rightarrow> string) \<Rightarrow> bool" where
  "quotes h ea q \<longleftrightarrow>
     (\<forall>s. (writable h s \<longrightarrow> q s = CHR 0x22 # escaped ea (repaired h s) @ [CHR 0x22]) \<and>
          (\<not> writable h s \<longrightarrow>
             prefix (CHR 0x22 # concat (map (item_text h ea) (valid_part (utf8_items [] s)))) (q s)))"

definition string_text :: "error_handler_t \<Rightarrow> bool \<Rightarrow> string \<Rightarrow> string" where
  "string_text h ea s = CHR 0x22 # escaped ea (repaired h s) @ [CHR 0x22]"

lemma quotes_string_text: "quotes h ea (string_text h ea)"
proof -
  have "prefix (concat (map f (valid_part xs))) (concat (map f xs))" for f :: "string option \<Rightarrow> string" and xs
    by (induction xs) (auto simp: valid_part_def)
  from this[of "item_text h ea"] show ?thesis
    by (auto simp: quotes_def string_text_def simp flip: items_text_repaired intro: prefix_prefix)
qed

lemma quotes_quoted: "quotes strict False quoted"
  using torn_bytes[of strict]
  by (auto simp: quotes_def quoted_def escaped_bytes repaired_valid intro: prefix_prefix)

section \<open>What the serialiser writes\<close>

text \<open>The buffers of the serialiser.\<close>

definition ser_inv :: "serializer \<Rightarrow> bool" where
  "ser_inv s \<longleftrightarrow>
     length (ser_number_buffer s) = 64 \<and> 512 \<le> length (ser_indent_string s) \<and>
     ser_indent_string s = indent_text (ser_indent_char s) (length (ser_indent_string s))"

definition ser_after :: "serializer \<Rightarrow> serializer \<Rightarrow> bool" where
  "ser_after s s' \<longleftrightarrow>
     ser_inv s' \<and> ser_indent_char s' = ser_indent_char s \<and> ser_error_handler s' = ser_error_handler s \<and>
     length (ser_indent_string s) \<le> length (ser_indent_string s')"

text \<open>
  \<open>yields c t s r\<close>: if \<open>c\<close>, the text \<open>t\<close> is written; otherwise there is an exception, after a part
  of it only.
\<close>

definition yields :: "bool \<Rightarrow> string \<Rightarrow> serializer \<Rightarrow> serializer out \<Rightarrow> bool" where
  "yields c t s r \<longleftrightarrow>
     (if c then \<exists>s'. r = Inr s' \<and> ser_out s' = ser_out s @ t \<and> ser_after s s'
      else \<exists>w e. r = Inl (w, e) \<and> prefix w (ser_out s @ t))"

lemma ser_after_trans: "ser_after s s1 \<Longrightarrow> ser_after s1 s2 \<Longrightarrow> ser_after s s2"
  by (simp add: ser_after_def)

lemma ser_after_write: "ser_inv s \<Longrightarrow> ser_after s (ser_write t s)"
  by (simp add: ser_after_def ser_inv_def ser_write_def)

lemma ser_inv_write [simp]: "ser_inv (ser_write t s) = ser_inv s"
  by (simp add: ser_inv_def ser_write_def)

lemma ser_write_fields [simp]:
  "ser_error_handler (ser_write t s) = ser_error_handler s" "ser_indent_string (ser_write t s) = ser_indent_string s"
  "ser_indent_char (ser_write t s) = ser_indent_char s" "ser_out (ser_write t s) = ser_out s @ t"
  "ser_number_buffer (ser_write t s) = ser_number_buffer s"
  by (simp_all add: ser_write_def)

lemma yields_write: "ser_inv s \<Longrightarrow> yields True t s (Inr (ser_write t s))"
  by (simp add: yields_def ser_after_write)

lemma yields_none: "ser_inv s \<Longrightarrow> yields True [] s (Inr s)"
  by (simp add: yields_def ser_after_def)

lemma yields_bind:
  assumes "yields c t s r" "\<And>s'. ser_after s s' \<Longrightarrow> yields d t' s' (f s')"
  shows "yields (c \<and> d) (t @ t') s (rbind r f)"
proof (cases c)
  case True
  with assms(1) obtain s' where s': "r = Inr s'" "ser_out s' = ser_out s @ t" "ser_after s s'"
    by (auto simp: yields_def)
  from assms(2)[OF s'(3)] s' True show ?thesis by (auto simp: yields_def ser_after_def)
next
  case False
  with assms(1) prefix_prefix[of _ "ser_out s @ t" t'] show ?thesis by (auto simp: yields_def)
qed

lemma yields_from:
  assumes "yields c t s1 r" "ser_after s s1" "ser_out s1 = ser_out s @ t0"
  shows "yields c (t0 @ t) s r"
  using assms by (auto simp: yields_def ser_after_def)

lemma yields_after: "yields c t (ser_write t0 s) r \<Longrightarrow> ser_inv s \<Longrightarrow> yields c (t0 @ t) s r"
  by (erule yields_from) (simp_all add: ser_after_write)

text \<open>Atoms.\<close>

lemma ser_string_yields:
  assumes "ser_inv s" "quotes (ser_error_handler s) ea q"
  shows "yields (writable (ser_error_handler s) str) (q str) s (ser_string ea junk str s)"
proof (cases "writable (ser_error_handler s) str")
  case True
  with assms dump_escaped_eq(1)[OF True, of ea junk "ser_out s @ [CHR 0x22]"] show ?thesis
    by (auto simp: yields_def quotes_def ser_string_def ser_after_def ser_inv_def)
next
  case False
  then obtain w where "dump_escaped (ser_error_handler s) ea junk str (ser_out s @ [CHR 0x22]) = Inl (w, JsonTypeError 316)"
    "prefix w (ser_out s @ CHR 0x22 # concat (map (item_text (ser_error_handler s) ea) (valid_part (utf8_items [] str))))"
    using dump_escaped_eq(2)[OF False, of ea junk "ser_out s @ [CHR 0x22]"] by auto
  moreover from this(2) assms(2) False have "prefix w (ser_out s @ q str)"
    unfolding quotes_def by (meson prefix_order.trans same_prefix_prefix)
  ultimately show ?thesis using False by (simp add: yields_def ser_string_def)
qed

lemma ser_integer_yields:
  assumes "ser_inv s"
  shows "yields (\<not> (is_signed \<and> sint x = - (2 ^ 63))) (to_string (if is_signed then sint x else int (unat x))) s
    (ser_integer is_signed x s)"
  using assms dump_integer_spec[of "ser_number_buffer s" is_signed x]
  by (auto simp: ser_integer_def yields_def ser_after_def ser_inv_def split: if_splits)

lemma double_text_eq:
  assumes "isfinite w"
  shows "\<exists>ip fp ex. double_text w = sign_text w @ float_string ip fp ex \<and> float_parts ip fp ex \<and>
     rounds_to (magnitude w) (text_value (float_string ip fp ex)) \<and> to_chars 64 w = Inr (double_text w) \<and>
     length (double_text w) \<le> 64"
proof -
  obtain ip fp ex where "to_chars 64 w = Inr (sign_text w @ float_string ip fp ex)" "float_parts ip fp ex"
    "rounds_to (magnitude w) (text_value (float_string ip fp ex))" "length (float_string ip fp ex) \<le> 23"
    using to_chars_eq[OF assms, of 64] by auto
  then show ?thesis unfolding double_text_def by (intro exI[of _ ip] exI[of _ fp] exI[of _ ex]) simp
qed

lemma dump_float_yields:
  assumes "ser_inv s"
  shows "yields True (if isfinite w then double_text w else ''null'') s (dump_float w s)"
proof (cases "isfinite w")
  case True
  then show ?thesis
    using double_text_eq[OF True] assms by (auto simp: dump_float_def yields_def ser_after_def ser_inv_def)
next
  case False
  then show ?thesis using yields_write[OF assms] by (simp add: dump_float_def)
qed

text \<open>
  Nested values. The indentation is never longer than \<^verbatim>\<open>indent_string\<close>: it is doubled where needed,
  which is enough for steps up to 1024.
\<close>

definition lay_ok :: "layout \<Rightarrow> uint32 \<Rightarrow> serializer \<Rightarrow> bool" where
  "lay_ok L n s \<longleftrightarrow>
     ser_inv s \<and> ser_error_handler s = lay_handler L \<and> ser_indent_char s = lay_char L \<and>
     quotes (lay_handler L) (lay_ascii L) (lay_quote L) \<and>
     (lay_pretty L \<longrightarrow> unat (lay_step L) \<le> 1024 \<and> unat n \<le> length (ser_indent_string s) \<and>
        (n = 0 \<or> unat (lay_step L) \<le> length (ser_indent_string s)))"

lemma lay_ok_after: "lay_ok L n s \<Longrightarrow> ser_after s s' \<Longrightarrow> lay_ok L n s'"
  by (auto simp: lay_ok_def ser_after_def)

lemma lay_ok_write: "lay_ok L n s \<Longrightarrow> lay_ok L n (ser_write t s)"
  by (rule lay_ok_after) (auto simp: lay_ok_def ser_after_write)

lemma indent_text_take: "n \<le> k \<Longrightarrow> take n (indent_text c k) = indent_text c n"
  by (auto simp: indent_text_def min_def)

lemma indent_text_double: "512 \<le> n \<Longrightarrow> indent_text c n @ replicate n (CHR '' '') = indent_text c (n + n)"
  by (simp add: indent_text_def min_def flip: replicate_add)

lemma length_indent_text [simp]: "length (indent_text c n) = n"
  by (simp add: indent_text_def)

lemma write_indent_yields:
  assumes "lay_ok L n s"
  shows "yields True (indentation L n) s (if lay_pretty L then write_indent n s else Inr s)"
proof (cases "lay_pretty L")
  case True
  with assms have s: "unat n \<le> length (ser_indent_string s)" "ser_inv s" "ser_indent_char s = lay_char L"
    by (auto simp: lay_ok_def)
  then have "take (unat n) (ser_indent_string s) = indent_text (lay_char L) (unat n)"
    using indent_text_take[OF s(1), of "ser_indent_char s"] by (simp add: ser_inv_def)
  with True s yields_write[OF s(2)] show ?thesis by (simp add: write_indent_def indentation_def)
next
  case False
  with assms yields_none[of s] show ?thesis by (simp add: indentation_def lay_ok_def)
qed

lemma grow_indent_ok:
  assumes "lay_ok L n s" "lay_pretty L"
  shows "lay_ok L (n + lay_step L) (grow_indent (n + lay_step L) s)" "ser_after s (grow_indent (n + lay_step L) s)"
    "ser_out (grow_indent (n + lay_step L) s) = ser_out s"
proof -
  let ?k = "length (ser_indent_string s)"
  from assms have s: "ser_inv s" "unat n \<le> ?k" "unat (lay_step L) \<le> 1024" "n = 0 \<or> unat (lay_step L) \<le> ?k" "512 \<le> ?k"
    by (auto simp: lay_ok_def ser_inv_def)
  have grown: "ser_indent_string s @ replicate ?k (CHR '' '') = indent_text (ser_indent_char s) (?k + ?k)"
    using s(1) indent_text_double[OF s(5), of "ser_indent_char s"] by (simp add: ser_inv_def)
  show after: "ser_after s (grow_indent (n + lay_step L) s)"
    using s(1) grown by (auto simp: ser_after_def ser_inv_def grow_indent_def Let_def)
  have "unat (n + lay_step L) \<le> unat n + unat (lay_step L)" by (simp add: unat_word_ariths)
  with s have "unat (n + lay_step L) \<le> ?k + ?k" "n \<noteq> 0 \<or> unat (n + lay_step L) = unat (lay_step L)" by auto
  with s have "unat (n + lay_step L) \<le> length (ser_indent_string (grow_indent (n + lay_step L) s)) \<and>
      unat (lay_step L) \<le> length (ser_indent_string (grow_indent (n + lay_step L) s))"
    by (auto simp: grow_indent_def Let_def)
  with lay_ok_after[OF assms(1) after] show "lay_ok L (n + lay_step L) (grow_indent (n + lay_step L) s)"
    by (auto simp: lay_ok_def)
  show "ser_out (grow_indent (n + lay_step L) s) = ser_out s" by (simp add: grow_indent_def Let_def)
qed

text \<open>A body between brackets, as objects and arrays have it.\<close>

definition enclosed :: "bool \<Rightarrow> string \<Rightarrow> string \<Rightarrow> uint32 \<Rightarrow> uint32 \<Rightarrow> (uint32 \<Rightarrow> serializer \<Rightarrow> serializer out) \<Rightarrow>
    serializer \<Rightarrow> serializer out" where
  "enclosed pretty left right step n body s =
     (if pretty
      then rbind (body (n + step) (grow_indent (n + step) (ser_write (left @ [CHR 0x0A]) s))) (\<lambda>s1.
           rbind (write_indent n (ser_write [CHR 0x0A] s1)) (\<lambda>s2. Inr (ser_write right s2)))
      else rbind (body n (ser_write left s)) (\<lambda>s1. Inr (ser_write right s1)))"

lemma enclosed_yields:
  assumes "lay_ok L n s" "\<And>s'. lay_ok L (deeper L n) s' \<Longrightarrow> yields c t s' (body (deeper L n) s')"
  shows "yields c (left @ line_break L @ t @ line_break L @ indentation L n @ right) s
    (enclosed (lay_pretty L) left right (lay_step L) n body s)"
proof (cases "lay_pretty L")
  case True
  let ?s = "ser_write (left @ [CHR 0x0A]) s"
  have inv: "ser_inv s" using assms(1) by (simp add: lay_ok_def)
  note grow = grow_indent_ok[OF lay_ok_write[OF assms(1), of "left @ [CHR 0x0A]"] True]
  have body: "yields c ((left @ [CHR 0x0A]) @ t) s (body (n + lay_step L) (grow_indent (n + lay_step L) ?s))"
    using assms(2)[of "grow_indent (n + lay_step L) ?s"] grow True ser_after_trans[OF ser_after_write[OF inv] grow(2)]
    by (intro yields_from) (simp_all add: deeper_def)
  have tail: "yields (True \<and> True) (indentation L n @ right) s2
      (rbind (write_indent n s2) (\<lambda>s3. Inr (ser_write right s3)))" if "lay_ok L n s2" for s2
    by (rule yields_bind) (use write_indent_yields[OF that] True in \<open>auto simp: ser_after_def intro: yields_write\<close>)
  have close: "yields True ([CHR 0x0A] @ indentation L n @ right) s1
      (rbind (write_indent n (ser_write [CHR 0x0A] s1)) (\<lambda>s3. Inr (ser_write right s3)))" if "ser_after s s1" for s1
    by (rule yields_after) (use that tail[OF lay_ok_write[OF lay_ok_after[OF assms(1) that]]] in \<open>auto simp: ser_after_def\<close>)
  have "yields (c \<and> True) (((left @ [CHR 0x0A]) @ t) @ ([CHR 0x0A] @ indentation L n @ right)) s
    (enclosed True left right (lay_step L) n body s)"
    unfolding enclosed_def if_True using body close by (rule yields_bind)
  with True show ?thesis by (simp add: line_break_def)
next
  case False
  have inv: "ser_inv s" using assms(1) by (simp add: lay_ok_def)
  have "yields c (left @ t) s (body n (ser_write left s))"
    using assms(2)[OF lay_ok_after[OF _ ser_after_write[OF inv]], of left] assms(1) False inv
    by (intro yields_after) (simp_all add: deeper_def lay_ok_def)
  then have "yields (c \<and> True) ((left @ t) @ right) s (enclosed False left right (lay_step L) n body s)"
    unfolding enclosed_def if_False by (rule yields_bind) (auto simp: ser_after_def intro: yields_write)
  with False show ?thesis by (simp add: line_break_def indentation_def)
qed

lemma rbind_assoc: "rbind (rbind r f) g = rbind r (\<lambda>x. rbind (f x) g)"
  by (cases r) simp_all

lemma dump_enclosed:
  "m \<noteq> [] \<Longrightarrow> dump junk pretty ea step (JObject m) n s =
     enclosed pretty ''{'' ''}'' step n (dump_members junk pretty ea step m) s"
  "xs \<noteq> [] \<Longrightarrow> dump junk pretty ea step (JArray xs) n s =
     enclosed pretty ''['' '']'' step n (dump_elements junk pretty ea step xs) s"
  by (simp_all add: enclosed_def Let_def)

definition members_dumpable :: "(string \<Rightarrow> bool) \<Rightarrow> (string \<times> json) list \<Rightarrow> bool" where
  "members_dumpable P m \<longleftrightarrow> (\<forall>(k, v) \<in> set m. P k \<and> dumpable_by P v)"

text \<open>An entry of a container, and what follows it.\<close>

lemma entry_yields:
  assumes "lay_ok L n s" "\<And>s'. lay_ok L n s' \<Longrightarrow> yields c t s' (entry s')"
    and "\<not> at_end \<Longrightarrow> (\<And>s'. lay_ok L n s' \<Longrightarrow> yields d t' s' (rest s'))"
  shows "yields (c \<and> (at_end \<or> d)) (indentation L n @ t @ (if at_end then [] else '','' @ line_break L @ t')) s
    (rbind (if lay_pretty L then write_indent n s else Inr s) (\<lambda>s0.
     rbind (entry s0) (\<lambda>s1.
     if at_end then Inr s1 else rest (ser_write (if lay_pretty L then [CHR '','', CHR 0x0A] else '','') s1))))"
proof -
  have more: "yields (at_end \<or> d) (if at_end then [] else '','' @ line_break L @ t') s1
      (if at_end then Inr s1 else rest (ser_write (if lay_pretty L then [CHR '','', CHR 0x0A] else '','') s1))"
    if "lay_ok L n s1" for s1
  proof (cases at_end)
    case True
    then show ?thesis using that by (simp add: yields_none lay_ok_def)
  next
    case False
    let ?sep = "if lay_pretty L then [CHR '','', CHR 0x0A] else '',''"
    have "yields d (?sep @ t') s1 (rest (ser_write ?sep s1))"
      by (rule yields_after) (use assms(3)[OF False lay_ok_write[OF that]] that in \<open>simp_all add: lay_ok_def\<close>)
    with False show ?thesis by (auto simp: line_break_def split: if_splits)
  qed
  have "yields (c \<and> (at_end \<or> d)) (t @ (if at_end then [] else '','' @ line_break L @ t')) s0
      (rbind (entry s0) (\<lambda>s1.
       if at_end then Inr s1 else rest (ser_write (if lay_pretty L then [CHR '','', CHR 0x0A] else '','') s1)))"
    if "lay_ok L n s0" for s0
    by (rule yields_bind[OF assms(2)[OF that]]) (rule more[OF lay_ok_after[OF that]])
  from yields_bind[OF write_indent_yields[OF assms(1)] this[OF lay_ok_after[OF assms(1)]]] show ?thesis by simp
qed

abbreviation lay_dump :: "layout \<Rightarrow> uint32 \<Rightarrow> json \<Rightarrow> uint32 \<Rightarrow> serializer \<Rightarrow> serializer out" where
  "lay_dump L junk \<equiv> dump junk (lay_pretty L) (lay_ascii L) (lay_step L)"

lemma dump_yields:
  "lay_ok L n s \<Longrightarrow>
     yields (dumpable_by (writable (lay_handler L)) j) (layout_text L j n) s (lay_dump L junk j n s)"
  "lay_ok L n s \<Longrightarrow>
     yields (members_dumpable (writable (lay_handler L)) m) (layout_members L m n) s
       (dump_members junk (lay_pretty L) (lay_ascii L) (lay_step L) m n s)"
  "lay_ok L n s \<Longrightarrow>
     yields (\<forall>x \<in> set xs. dumpable_by (writable (lay_handler L)) x) (layout_elements L xs n) s
       (dump_elements junk (lay_pretty L) (lay_ascii L) (lay_step L) xs n s)"
proof (induction L j n and L m n and L xs n arbitrary: s and s and s
    rule: layout_text_layout_members_layout_elements.induct)
  case (1 L m n)
  show ?case
  proof (cases "m = []")
    case True
    with 1 yields_write[of s "''{}''"] show ?thesis by (simp add: lay_ok_def)
  next
    case False
    from enclosed_yields[where body = "dump_members junk (lay_pretty L) (lay_ascii L) (lay_step L) m",
        OF 1(2) 1(1)[OF False], of "''{''" "''}''"] False show ?thesis
      by (simp add: dump_enclosed members_dumpable_def del: dump.simps)
  qed
next
  case (2 L xs n)
  show ?case
  proof (cases "xs = []")
    case True
    with 2 yields_write[of s "''[]''"] show ?thesis by (simp add: lay_ok_def)
  next
    case False
    from enclosed_yields[where body = "dump_elements junk (lay_pretty L) (lay_ascii L) (lay_step L) xs",
        OF 2(2) 2(1)[OF False], of "''[''" "'']''"] False show ?thesis
      by (simp add: dump_enclosed del: dump.simps)
  qed
next
  case (3 L str n)
  then show ?case using ser_string_yields[of s "lay_ascii L" "lay_quote L" str junk] by (simp add: lay_ok_def)
next
  case (4 L b n)
  then show ?case using yields_write[of s "if b then ''true'' else ''false''"] by (simp add: lay_ok_def)
next
  case (5 L w n)
  then show ?case using ser_integer_yields[of s True w] by (simp add: lay_ok_def)
next
  case (6 L w n)
  then show ?case using ser_integer_yields[of s False w] by (simp add: lay_ok_def)
next
  case (7 L w n)
  then show ?case using dump_float_yields[of s w] by (simp add: lay_ok_def)
next
  case (8 L n)
  then show ?case using yields_write[of s "''null''"] by (simp add: lay_ok_def)
next
  case (9 L n)
  then show ?case by (simp add: members_dumpable_def lay_ok_def yields_none)
next
  case (10 L k v m n)
  let ?colon = "if lay_pretty L then '': '' else '':''"
  have entry: "yields (writable (lay_handler L) k \<and> dumpable_by (writable (lay_handler L)) v)
      (lay_quote L k @ ?colon @ layout_text L v n) s'
      (rbind (ser_string (lay_ascii L) junk k s') (\<lambda>s1. lay_dump L junk v n (ser_write ?colon s1)))"
    if "lay_ok L n s'" for s'
  proof (rule yields_bind)
    show "yields (writable (lay_handler L) k) (lay_quote L k) s' (ser_string (lay_ascii L) junk k s')"
      using that ser_string_yields[of s' "lay_ascii L" "lay_quote L" k junk] by (simp add: lay_ok_def)
    fix s1 assume "ser_after s' s1"
    then have s1: "lay_ok L n s1" using that by (rule lay_ok_after[rotated])
    show "yields (dumpable_by (writable (lay_handler L)) v) (?colon @ layout_text L v n) s1
        (lay_dump L junk v n (ser_write ?colon s1))"
      by (rule yields_after) (use "10.IH"(1)[OF lay_ok_write[OF s1]] s1 in \<open>simp_all add: lay_ok_def\<close>)
  qed
  have "yields ((writable (lay_handler L) k \<and> dumpable_by (writable (lay_handler L)) v) \<and>
        (m = [] \<or> members_dumpable (writable (lay_handler L)) m)) (layout_members L ((k, v) # m) n) s
      (dump_members junk (lay_pretty L) (lay_ascii L) (lay_step L) ((k, v) # m) n s)"
    using entry_yields[OF "10.prems" entry "10.IH"(2)] by (simp add: rbind_assoc)
  then show ?case by (auto simp: members_dumpable_def)
next
  case (11 L n)
  then show ?case by (simp add: lay_ok_def yields_none)
next
  case (12 L x xs n)
  have "yields (dumpable_by (writable (lay_handler L)) x \<and>
        (xs = [] \<or> (\<forall>x \<in> set xs. dumpable_by (writable (lay_handler L)) x))) (layout_elements L (x # xs) n) s
      (dump_elements junk (lay_pretty L) (lay_ascii L) (lay_step L) (x # xs) n s)"
    using entry_yields[OF "12.prems" "12.IH"(1) "12.IH"(2)] by simp
  then show ?case by auto
qed

section \<open>The texts of the output functions\<close>

lemma compact_text:
  "\<not> lay_pretty L \<Longrightarrow> lay_quote L = quoted \<Longrightarrow> layout_text L j n = json_text j"
  "\<not> lay_pretty L \<Longrightarrow> lay_quote L = quoted \<Longrightarrow> layout_members L m n = members_text m"
  "\<not> lay_pretty L \<Longrightarrow> lay_quote L = quoted \<Longrightarrow> layout_elements L xs n = elements_text xs"
  by (induction L j n and L m n and L xs n rule: layout_text_layout_members_layout_elements.induct)
    (auto simp: line_break_def indentation_def deeper_def)

lemma serializer_init_inv: "ser_inv (serializer_init out ichar h)"
  by (simp add: ser_inv_def serializer_init_def indent_text_def)

lemma dump_from_start:
  assumes "lay_pretty L \<longrightarrow> unat (lay_step L) \<le> 1024" "quotes (lay_handler L) (lay_ascii L) (lay_quote L)"
  shows "yields (dumpable_by (writable (lay_handler L)) j) (layout_text L j 0) (serializer_init [] (lay_char L) (lay_handler L))
    (lay_dump L junk j 0 (serializer_init [] (lay_char L) (lay_handler L)))"
  by (rule dump_yields(1)) (use assms serializer_init_inv in \<open>simp add: lay_ok_def serializer_init_def\<close>)

lemma yields_text:
  assumes "yields c t (serializer_init [] ichar h) r"
  shows "c \<Longrightarrow> rbind r (\<lambda>s. Inr (ser_out s)) = Inr t"
    and "\<not> c \<Longrightarrow> \<exists>w e. rbind r (\<lambda>s. Inr (ser_out s)) = Inl (w, e) \<and> prefix w t"
  using assms by (auto simp: yields_def serializer_init_def)

lemma unat_small: "0 \<le> i \<Longrightarrow> i \<le> 1024 \<Longrightarrow> unat (word_of_int i :: uint32) \<le> 1024"
  by (simp add: unsigned_of_int take_bit_int_eq_self)

text \<open>The layouts of the member \<^verbatim>\<open>dump\<close> and of \<^verbatim>\<open>operator<<\<close>.\<close>

definition dump_layout :: "int \<Rightarrow> char \<Rightarrow> bool \<Rightarrow> error_handler_t \<Rightarrow> layout" where
  "dump_layout indent ichar ea h =
     \<lparr>lay_quote = string_text h ea, lay_pretty = (0 \<le> indent),
      lay_step = (if 0 \<le> indent then word_of_int indent else 0), lay_char = ichar, lay_ascii = ea, lay_handler = h\<rparr>"

definition output_layout :: "int \<Rightarrow> char \<Rightarrow> layout" where
  "output_layout width fill =
     \<lparr>lay_quote = quoted, lay_pretty = (0 < width), lay_step = (if 0 < width then word_of_int width else 0),
      lay_char = fill, lay_ascii = False, lay_handler = strict\<rparr>"

lemma json_dump_eq:
  assumes "indent \<le> 1024"
  shows "dumpable_by (writable h) j \<Longrightarrow>
      json_dump indent ichar ea h junk j = Inr (layout_text (dump_layout indent ichar ea h) j 0)"
    and "\<not> dumpable_by (writable h) j \<Longrightarrow>
      \<exists>w e. json_dump indent ichar ea h junk j = Inl (w, e) \<and> prefix w (layout_text (dump_layout indent ichar ea h) j 0)"
proof -
  let ?L = "dump_layout indent ichar ea h"
  have "yields (dumpable_by (writable h) j) (layout_text ?L j 0) (serializer_init [] ichar h)
      (lay_dump ?L junk j 0 (serializer_init [] ichar h))"
    using dump_from_start[of ?L j junk] unat_small[of indent] assms quotes_string_text[of h ea]
    by (simp add: dump_layout_def)
  note result = yields_text[OF this]
  have "json_dump indent ichar ea h junk j =
      rbind (lay_dump ?L junk j 0 (serializer_init [] ichar h)) (\<lambda>s. Inr (ser_out s))"
    by (simp add: json_dump_def dump_layout_def)
  with result show "dumpable_by (writable h) j \<Longrightarrow> json_dump indent ichar ea h junk j = Inr (layout_text ?L j 0)"
    and "\<not> dumpable_by (writable h) j \<Longrightarrow>
      \<exists>w e. json_dump indent ichar ea h junk j = Inl (w, e) \<and> prefix w (layout_text ?L j 0)"
    by simp_all
qed

lemma json_output_eq:
  assumes "width \<le> 1024"
  shows "dumpable j \<Longrightarrow> json_output width fill junk j = Inr (layout_text (output_layout width fill) j 0)"
    and "\<not> dumpable j \<Longrightarrow>
      \<exists>w e. json_output width fill junk j = Inl (w, e) \<and> prefix w (layout_text (output_layout width fill) j 0)"
proof -
  let ?L = "output_layout width fill"
  have "yields (dumpable j) (layout_text ?L j 0) (serializer_init [] fill strict)
      (lay_dump ?L junk j 0 (serializer_init [] fill strict))"
    using dump_from_start[of ?L j junk] unat_small[of width] assms quotes_quoted by (simp add: output_layout_def)
  note result = yields_text[OF this]
  have "json_output width fill junk j =
      rbind (lay_dump ?L junk j 0 (serializer_init [] fill strict)) (\<lambda>s. Inr (ser_out s))"
    by (simp add: json_output_def output_layout_def Let_def)
  with result show "dumpable j \<Longrightarrow> json_output width fill junk j = Inr (layout_text ?L j 0)"
    and "\<not> dumpable j \<Longrightarrow> \<exists>w e. json_output width fill junk j = Inl (w, e) \<and> prefix w (layout_text ?L j 0)"
    by simp_all
qed

lemma json_write_eq:
  "dumpable j \<Longrightarrow> json_write junk j = Inr (json_text j)"
  "\<not> dumpable j \<Longrightarrow> \<exists>w e. json_write junk j = Inl (w, e) \<and> prefix w (json_text j)"
  using json_output_eq[of 0 j "CHR '' ''" junk] by (simp_all add: json_write_def compact_text output_layout_def)

text \<open>A longer step reads behind the end of \<^verbatim>\<open>indent_string\<close>, which is doubled only once.\<close>

lemma indent_overrun:
  assumes "1025 < indent" "indent < 2 ^ 31" "xs \<noteq> []"
  shows "\<exists>w. json_dump indent ichar ea h junk (JArray xs) = Inl (w, Undefined ''indent_string'')"
proof -
  obtain x ys where xs: "xs = x # ys" using assms(3) by (cases xs) auto
  have "unat (word_of_int indent :: uint32) = nat indent"
    using assms by (simp add: unsigned_of_int take_bit_int_eq_self)
  moreover have "1025 < nat indent" "512 < nat indent" using assms(1) by simp_all
  ultimately show ?thesis using assms(1) xs
    by (simp add: json_dump_def Let_def write_indent_def grow_indent_def serializer_init_def)
qed

end
