(* ===== verification/Json_Round_Trip.thy ===== *)
theory Json_Round_Trip
  imports Json_Text
begin

text \<open>
  The lexer and the parser read what the serialiser wrote: the text of a value, followed by any rest
  that does not continue a number, is read as that value and leaves the rest. The lemmas follow the
  layers of the code: characters, strings, numbers, tokens, values.
\<close>

section \<open>What the lexer still has to read\<close>

definition lx_at :: "lexer \<Rightarrow> string \<Rightarrow> bool" where
  "lx_at lx r \<longleftrightarrow>
     (if lx_next_unget lx
      then (case lx_current lx of None \<Rightarrow> r = [] \<and> lx_input lx = [] | Some c \<Rightarrow> r = c # lx_input lx)
      else r = lx_input lx)"

text \<open>
  \<open>lx_read lx lx' r cs\<close>: on the way from \<open>lx\<close> to \<open>lx'\<close> the lexer came to the rest \<open>r\<close> and added
  \<open>cs\<close> to its buffer.
\<close>

definition lx_read :: "lexer \<Rightarrow> lexer \<Rightarrow> string \<Rightarrow> string \<Rightarrow> bool" where
  "lx_read lx lx' r cs \<longleftrightarrow>
     lx_at lx' r \<and> lx_token_buffer lx' = lx_token_buffer lx @ cs \<and> 0 < lx_chars_read_total lx'"

lemma get_fields [simp]:
  "lx_token_buffer (lx_get lx) = lx_token_buffer lx"
  "lx_chars_read_total (lx_get lx) = Suc (lx_chars_read_total lx)"
  by (simp_all add: lx_get_def Let_def split: list.split)

lemma get_at_cons: "lx_at lx (c # r) \<Longrightarrow> lx_current (lx_get lx) = Some c \<and> lx_at (lx_get lx) r"
  by (auto simp: lx_at_def lx_get_def Let_def split: if_splits option.splits list.split)

lemma get_at_eof: "lx_at lx [] \<Longrightarrow> lx_current (lx_get lx) = None \<and> lx_at (lx_get lx) []"
  by (auto simp: lx_at_def lx_get_def Let_def split: if_splits option.splits list.split)

lemma add_fields [simp]:
  "lx_at (lx_add c lx) r = lx_at lx r" "lx_at (lx_reset lx) r = lx_at lx r"
  "lx_token_buffer (lx_add c lx) = lx_token_buffer lx @ [c]" "lx_token_buffer (lx_reset lx) = []"
  "lx_chars_read_total (lx_add c lx) = lx_chars_read_total lx"
  "lx_chars_read_total (lx_reset lx) = lx_chars_read_total lx"
  by (simp_all add: lx_at_def lx_add_def lx_reset_def split: option.split)

lemma lx_read_trans: "lx_read lx lx1 r1 cs \<Longrightarrow> lx_read lx1 lx2 r2 ds \<Longrightarrow> lx_read lx lx2 r2 (cs @ ds)"
  by (simp add: lx_read_def)

section \<open>Characters of a string\<close>

lemma hex_digit_value: "n < 16 \<Longrightarrow> hex_value (Some (hex_digit n)) = Some (of_nat n)"
  by (cases "n < 10") (simp_all add: hex_value_def hex_digit_def)

lemma codepoint_of_hex:
  assumes "lx_at lx (map hex_digit [a, b, c, d] @ r)" "a < 16" "b < 16" "c < 16" "d < 16"
  shows "\<exists>lx'. get_codepoint lx =
           (Some (push_bit 12 (of_nat a) + push_bit 8 (of_nat b) + push_bit 4 (of_nat c) + of_nat d), lx') \<and>
         lx_read lx lx' r []"
proof -
  note digits = hex_digit_value[OF assms(2)] hex_digit_value[OF assms(3)] hex_digit_value[OF assms(4)]
    hex_digit_value[OF assms(5)]
  have at: "lx_at lx (hex_digit a # hex_digit b # hex_digit c # hex_digit d # r)" using assms(1) by simp
  note g1 = get_at_cons[OF at]
  note g2 = get_at_cons[OF conjunct2[OF g1]]
  note g3 = get_at_cons[OF conjunct2[OF g2]]
  note g4 = get_at_cons[OF conjunct2[OF g3]]
  show ?thesis
    by (simp add: get_codepoint_def g1 g2 g3 g4 digits lx_read_def Let_def)
qed

lemma scan_low_unicode:
  assumes "lx_at lx (hex4 (of_nat (byte_of c)) @ r)" "byte_of c < 0x80"
  shows "\<exists>lx'. scan_unicode lx = (None, lx') \<and> lx_read lx lx' r [c]"
proof -
  let ?b = "byte_of c"
  have u: "unat (of_nat ?b :: uint32) = ?b"
    unfolding unat_of_nat by (intro mod_less less_trans[OF byte_less]) simp
  have b: "unat (take_bit 16 (of_nat ?b :: uint32)) = ?b"
  proof -
    have "take_bit 16 ?b = ?b" using assms(2) by (simp add: take_bit_eq_mod)
    then have "take_bit 16 (of_nat ?b :: uint32) = of_nat ?b" by (simp only: take_bit_of_nat)
    then show ?thesis by (simp only: u)
  qed
  have "hex4 (of_nat ?b) = map hex_digit [0, 0, ?b div 16, ?b mod 16]"
    using assms(2) unfolding hex4_def b Let_def by simp
  moreover have "?b div 16 < 16" using assms(2) by linarith
  ultimately obtain lx' where
    lx': "get_codepoint lx = (Some (push_bit 4 (of_nat (?b div 16)) + of_nat (?b mod 16)), lx')" "lx_read lx lx' r []"
    using codepoint_of_hex[of lx 0 0 "?b div 16" "?b mod 16" r] assms by auto
  have "(of_nat ?b :: uint32) = of_nat (?b div 16 * 16 + ?b mod 16)" by (simp only: div_mult_mod_eq)
  then have cp: "push_bit 4 (of_nat (?b div 16)) + of_nat (?b mod 16) = (of_nat ?b :: uint32)"
    by (simp only: push_bit_eq_mult of_nat_add of_nat_mult) simp
  have "\<not> 0xD800 \<le> (of_nat ?b :: uint32)" "\<not> 0xDC00 \<le> (of_nat ?b :: uint32)" "(of_nat ?b :: uint32) < 0x80"
    using assms(2) by (simp_all add: word_le_nat_alt word_less_nat_alt u)
  with lx' show ?thesis
    by (auto simp: scan_unicode_def cp add_codepoint_def lx_add_int_def u lx_read_def)
qed

lemma scan_string_escape:
  assumes "lx_at lx (CHR 0x5C # s)"
  shows "scan_string_body lx = scan_escape (lx_get lx)" "lx_at (lx_get lx) s"
  using get_at_cons[OF assms] by (simp_all add: scan_string_cases)

lemma scan_escape_simple:
  assumes "lx_at lx (d # r)"
    and "(d, c) \<in> {(CHR 0x22, CHR 0x22), (CHR 0x5C, CHR 0x5C), (CHR ''b'', CHR 0x08), (CHR ''f'', CHR 0x0C),
       (CHR ''n'', CHR 0x0A), (CHR ''r'', CHR 0x0D), (CHR ''t'', CHR 0x09)}"
  shows "scan_escape lx = (None, lx_add c (lx_get lx))" "lx_at (lx_get lx) r"
  using get_at_cons[OF assms(1)] assms(2) by (auto simp: scan_escape_def Let_def)

lemma scan_string_ascii:
  assumes "lx_at lx (escape_char c @ r)" "byte_of c < 0x80"
  shows "\<exists>lx'. scan_string_body lx = (None, lx') \<and> lx_read lx lx' r [c]"
proof -
  have simple: ?thesis if "escape_char c = [CHR 0x5C, d]"
      "(d, c) \<in> {(CHR 0x22, CHR 0x22), (CHR 0x5C, CHR 0x5C), (CHR ''b'', CHR 0x08), (CHR ''f'', CHR 0x0C),
       (CHR ''n'', CHR 0x0A), (CHR ''r'', CHR 0x0D), (CHR ''t'', CHR 0x09)}" for d
  proof -
    from assms(1) that(1) have "lx_at lx (CHR 0x5C # d # r)" by simp
    from scan_string_escape[OF this] scan_escape_simple[OF _ that(2)] show ?thesis by (auto simp: lx_read_def)
  qed
  show ?thesis
  proof (cases "c \<in> {CHR 0x08, CHR 0x09, CHR 0x0A, CHR 0x0C, CHR 0x0D, CHR 0x22, CHR 0x5C}")
    case True
    with simple show ?thesis by (auto simp: escape_char_def)
  next
    case False
    then have esc: "escape_char c = (if byte_of c \<le> 0x1F then escape_unicode (of_nat (byte_of c)) else [c])"
      by (simp add: escape_char_def)
    show ?thesis
    proof (cases "byte_of c \<le> 0x1F")
      case True
      with assms(1) esc have at: "lx_at lx (CHR 0x5C # CHR ''u'' # hex4 (of_nat (byte_of c)) @ r)"
        by (simp add: escape_unicode_def)
      note body = scan_string_escape[OF at]
      note u = get_at_cons[OF body(2)]
      have "scan_escape (lx_get lx) = scan_unicode (lx_get (lx_get lx))"
        using u by (simp add: scan_escape_def Let_def)
      with body(1) scan_low_unicode[OF conjunct2[OF u] assms(2)] show ?thesis by (auto simp: lx_read_def)
    next
      case high: False
      with esc assms(1) have "lx_at lx (c # r)" by simp
      from get_at_cons[OF this] high False assms(2) show ?thesis
        by (auto simp: scan_string_cases lx_read_def char_eq_byte[of c])
    qed
  qed
qed

section \<open>Code points of several bytes\<close>

definition in_range :: "nat \<times> nat \<Rightarrow> char \<Rightarrow> bool" where
  "in_range lh c \<longleftrightarrow> fst lh \<le> byte_of c \<and> byte_of c \<le> snd lh"

lemma bytes_in_ranges_read:
  "list_all2 in_range ranges ds \<Longrightarrow> lx_at lx (ds @ r) \<Longrightarrow> 0 < lx_chars_read_total lx \<Longrightarrow>
     \<exists>lx'. bytes_in_ranges ranges lx = (True, lx') \<and> lx_read lx lx' r ds"
proof (induction ranges ds arbitrary: lx rule: list_all2_induct)
  case Nil
  then show ?case by (simp add: lx_read_def)
next
  case (Cons lh ranges d ds)
  from Cons.prems(1) have at: "lx_at lx (d # ds @ r)" by simp
  note g = get_at_cons[OF at]
  from Cons.IH[of "lx_add d (lx_get lx)"] g obtain lx' where
    "bytes_in_ranges ranges (lx_add d (lx_get lx)) = (True, lx')" "lx_read (lx_add d (lx_get lx)) lx' r ds"
    by auto
  with g Cons.hyps(1) show ?case
    by (cases lh) (auto simp: in_range_def lx_read_def Let_def)
qed

text \<open>The lexer tests the bytes of a code point with the ranges of the decoder's automaton.\<close>

lemma scan_string_lead:
  assumes "lx_at lx (c # s)" "utf8_open (utf8_lead (byte_of c))"
  shows "scan_string_body lx = next_byte_in_range c (utf8_ranges (utf8_lead (byte_of c))) (lx_get lx)"
proof -
  from get_at_cons[OF assms(1)] have cur: "lx_current (lx_get lx) = Some c" by simp
  show ?thesis
    using assms(2) unfolding scan_string_cases cur option.case
    by (auto simp: utf8_lead_def utf8_open_def split: if_splits)
qed

lemma utf8_follow_ranges:
  assumes "utf8_open st" "utf8_follow st b \<noteq> 1"
  shows "\<exists>lo hi rs. utf8_ranges st = (lo, hi) # rs \<and> lo \<le> b \<and> b \<le> hi \<and>
           (if rs = [] then utf8_follow st b = 0
            else utf8_open (utf8_follow st b) \<and> utf8_ranges (utf8_follow st b) = rs)"
  using assms by (auto simp: utf8_open_def utf8_follow_def split: if_splits)

lemma utf8_run_split:
  "utf8_open st \<Longrightarrow> utf8_run st s = 0 \<Longrightarrow>
     \<exists>ds s'. s = ds @ s' \<and> list_all2 in_range (utf8_ranges st) ds \<and> utf8_run 0 s' = 0"
proof (induction s arbitrary: st)
  case Nil
  then show ?case by (auto simp: utf8_open_def)
next
  case (Cons c s)
  let ?n = "utf8_follow st (byte_of c)"
  from Cons.prems have n: "?n \<noteq> 1" "utf8_run ?n s = 0"
    by (auto simp: utf8_open_next UTF8_REJECT_def Let_def split: if_splits)
  from utf8_follow_ranges[OF Cons.prems(1) n(1)] obtain lo hi rs where
    rs: "utf8_ranges st = (lo, hi) # rs" "in_range (lo, hi) c"
    "if rs = [] then ?n = 0 else utf8_open ?n \<and> utf8_ranges ?n = rs"
    by (auto simp: in_range_def)
  show ?case
  proof (cases "rs = []")
    case True
    with rs n(2) have "c # s = [c] @ s \<and> list_all2 in_range (utf8_ranges st) [c] \<and> utf8_run 0 s = 0" by simp
    then show ?thesis by blast
  next
    case False
    with rs(3) Cons.IH[of ?n] n(2) obtain ds s' where "s = ds @ s'" "list_all2 in_range rs ds" "utf8_run 0 s' = 0"
      by auto
    with rs have "c # s = (c # ds) @ s' \<and> list_all2 in_range (utf8_ranges st) (c # ds) \<and> utf8_run 0 s' = 0" by simp
    then show ?thesis by blast
  qed
qed

lemma ranges_high: "utf8_open st \<Longrightarrow> (lo, hi) \<in> set (utf8_ranges st) \<Longrightarrow> 0x80 \<le> lo"
  by (auto simp: utf8_open_def split: if_splits)

lemma escape_high: "list_all2 in_range rs ds \<Longrightarrow> \<forall>(lo, hi) \<in> set rs. 0x80 \<le> lo \<Longrightarrow> concat (map escape_char ds) = ds"
  by (induction rs ds rule: list_all2_induct) (auto simp: in_range_def escape_char_high)

section \<open>String literals\<close>

lemma scan_string_code_point:
  assumes "utf8_run 0 (c # s) = 0" "lx_at lx (concat (map escape_char (c # s)) @ r)"
  shows "\<exists>ds s' lx'. c # s = ds @ s' \<and> ds \<noteq> [] \<and> utf8_run 0 s' = 0 \<and>
           scan_string_body lx = (None, lx') \<and> lx_read lx lx' (concat (map escape_char s') @ r) ds"
proof (cases "byte_of c < 0x80")
  case True
  then have "utf8_run 0 s = 0"
    using assms(1) by (simp add: utf8_from_accept utf8_lead_def UTF8_REJECT_def)
  moreover obtain lx' where "scan_string_body lx = (None, lx')" "lx_read lx lx' (concat (map escape_char s) @ r) [c]"
    using scan_string_ascii[OF _ True] assms(2) by (auto simp: append.assoc)
  ultimately have "c # s = [c] @ s \<and> [c] \<noteq> [] \<and> utf8_run 0 s = 0 \<and>
      scan_string_body lx = (None, lx') \<and> lx_read lx lx' (concat (map escape_char s) @ r) [c]" by simp
  then show ?thesis by blast
next
  case False
  let ?st = "utf8_lead (byte_of c)"
  from assms(1) have st: "?st \<noteq> 1" "utf8_run ?st s = 0"
    by (auto simp: utf8_from_accept UTF8_REJECT_def Let_def split: if_splits)
  with False have "utf8_open ?st" by (auto simp: utf8_lead_def utf8_open_def split: if_splits)
  from utf8_run_split[OF this st(2)] obtain ds s' where
    s: "s = ds @ s'" "list_all2 in_range (utf8_ranges ?st) ds" "utf8_run 0 s' = 0" by blast
  have "concat (map escape_char ds) = ds"
    using escape_high[OF s(2)] ranges_high[OF \<open>utf8_open ?st\<close>] by fastforce
  with assms(2) s(1) False have at: "lx_at lx (c # ds @ concat (map escape_char s') @ r)"
    by (simp add: escape_char_high)
  note body = scan_string_lead[OF at \<open>utf8_open ?st\<close>]
  note g = get_at_cons[OF at]
  from bytes_in_ranges_read[OF s(2), of "lx_add c (lx_get lx)" "concat (map escape_char s') @ r"] g obtain lx' where
    "bytes_in_ranges (utf8_ranges ?st) (lx_add c (lx_get lx)) = (True, lx')"
    "lx_read (lx_add c (lx_get lx)) lx' (concat (map escape_char s') @ r) ds" by auto
  with body s have "c # s = (c # ds) @ s' \<and> c # ds \<noteq> [] \<and> utf8_run 0 s' = 0 \<and>
      scan_string_body lx = (None, lx') \<and> lx_read lx lx' (concat (map escape_char s') @ r) (c # ds)"
    by (simp add: next_byte_in_range_def lx_read_def del: utf8_ranges.simps)
  then show ?thesis by blast
qed

lemma scan_string_loop_read:
  "utf8_run 0 s = 0 \<Longrightarrow> lx_at lx (concat (map escape_char s) @ CHR 0x22 # r) \<Longrightarrow>
     \<exists>lx'. scan_string_loop lx = (value_string, lx') \<and> lx_read lx lx' r s"
proof (induction "length s" arbitrary: s lx rule: less_induct)
  case less
  show ?case
  proof (cases s)
    case Nil
    with less.prems(2) get_at_cons[of lx "CHR 0x22" r] show ?thesis
      by (simp add: scan_string_loop.simps[of lx] scan_string_cases lx_read_def)
  next
    case (Cons c s1)
    from scan_string_code_point[of c s1 lx "CHR 0x22 # r"] less.prems Cons obtain ds s' lx1 where
      ds: "s = ds @ s'" "ds \<noteq> []" "utf8_run 0 s' = 0" "scan_string_body lx = (None, lx1)"
      "lx_read lx lx1 (concat (map escape_char s') @ CHR 0x22 # r) ds" by auto
    from ds(1,2) have "length s' < length s" by simp
    from less.hyps[OF this ds(3), of lx1] ds(5) obtain lx' where
      "scan_string_loop lx1 = (value_string, lx')" "lx_read lx1 lx' r s'" by (auto simp: lx_read_def)
    with ds lx_read_trans[OF ds(5)] show ?thesis by (simp add: scan_string_loop.simps[of lx])
  qed
qed

section \<open>Numbers\<close>

text \<open>The rest does not continue a number.\<close>

definition number_stop :: "string \<Rightarrow> bool" where
  "number_stop r \<longleftrightarrow>
     (case r of [] \<Rightarrow> True | c # _ \<Rightarrow> \<not> dec_digit c \<and> c \<noteq> CHR ''.'' \<and> c \<noteq> CHR ''e'' \<and> c \<noteq> CHR ''E'')"

lemma unget_get_at: "lx_at lx r \<Longrightarrow> lx_at (lx_unget (lx_get lx)) r"
  by (cases r) (auto simp: lx_at_def lx_get_def lx_unget_def Let_def split: if_splits option.splits list.split)

lemma unget_fields [simp]:
  "lx_token_buffer (lx_unget lx) = lx_token_buffer lx"
  "lx_chars_read_total (lx_unget lx) = lx_chars_read_total lx - 1"
  by (simp_all add: lx_unget_def)

text \<open>
  The labels that a text goes through, as long as every character goes to another one, and the type
  of the number after them.
\<close>

fun number_run :: "number_label \<Rightarrow> token_type \<Rightarrow> string \<Rightarrow> (number_label \<times> token_type) option" where
  "number_run l t [] = Some (l, number_type_at l t)"
| "number_run l t (c # s) =
     (case number_jump l c of Goto l' \<Rightarrow> number_run l' (number_type_at l t) s | _ \<Rightarrow> None)"

lemma number_stop_jump: "number_eof l = NumberDone \<Longrightarrow> number_stop (c # r) \<Longrightarrow> number_jump l c = NumberDone"
  by (cases l) (auto simp: number_stop_def)

lemma number_ends:
  assumes "lx_at lx r" "number_stop r" "number_eof l = NumberDone"
  shows "scan_number_from l t lx = (Some (number_type_at l t), lx_get lx)"
  using assms get_at_cons[of lx] get_at_eof[of lx] number_stop_jump[OF assms(3)]
  by (cases r) (auto simp: scan_number_from.simps[of l t lx])

lemma number_run_read:
  "number_run l t ds = Some (l', t') \<Longrightarrow> number_eof l' = NumberDone \<Longrightarrow> number_stop r \<Longrightarrow>
     lx_at lx (ds @ r) \<Longrightarrow> 0 < lx_chars_read_total lx \<Longrightarrow>
     \<exists>lx'. scan_number_from l t lx = (Some t', lx') \<and> lx_read lx (lx_unget lx') r ds"
proof (induction ds arbitrary: l t lx)
  case Nil
  then show ?case using number_ends[of lx r l t] unget_get_at[of lx r] by (auto simp: lx_read_def)
next
  case (Cons d ds)
  then obtain l1 where l1: "number_jump l d = Goto l1" "number_run l1 (number_type_at l t) ds = Some (l', t')"
    by (auto split: number_target.splits)
  from Cons.prems have g: "lx_current (lx_get lx) = Some d" "lx_at (lx_get lx) (ds @ r)"
    using get_at_cons[of lx d "ds @ r"] by simp_all
  from Cons.IH[OF l1(2) Cons.prems(2,3), of "lx_add d (lx_get lx)"] Cons.prems g obtain lx' where
    "scan_number_from l1 (number_type_at l t) (lx_add d (lx_get lx)) = (Some t', lx')"
    "lx_read (lx_add d (lx_get lx)) (lx_unget lx') r ds" by auto
  with g l1(1) show ?case by (auto simp: scan_number_from.simps[of l t lx] lx_read_def)
qed

lemma number_run_typed: "number_run l (number_type_at l t) s = number_run l t s"
  by (cases l; cases s) simp_all

lemma number_run_append:
  "number_run l t (xs @ ys) = (case number_run l t xs of None \<Rightarrow> None | Some (l', t') \<Rightarrow> number_run l' t' ys)"
  by (induction l t xs rule: number_run.induct) (auto simp: number_run_typed split: number_target.split)

lemma number_any1_read:
  assumes "list_all dec_digit ds" "lx_at lx (ds @ r)" "number_stop r" "0 < lx_chars_read_total lx"
  shows "\<exists>lx'. scan_number_from n_any1 t lx = (Some t, lx') \<and> lx_read lx (lx_unget lx') r ds"
proof -
  have "number_run n_any1 t ds = Some (n_any1, t)" using assms(1) by (induction ds) auto
  from number_run_read[OF this _ assms(3,2,4)] show ?thesis by simp
qed

lemma dec_digit_char: "n < 10 \<Longrightarrow> dec_digit (char_of (48 + n :: nat))"
  by (simp add: dec_digit_def)

lemma digits_all: "list_all dec_digit (digits_of_nat n)"
proof (induction n rule: digits_of_nat.induct)
  case (1 n)
  then show ?case by (cases "n < 10") (simp_all add: digits_of_nat.simps[of n] dec_digit_char)
qed

lemma digits_hd: "0 < n \<Longrightarrow> \<exists>d ds. digits_of_nat n = d # ds \<and> d \<noteq> CHR ''0''"
proof (induction n rule: digits_of_nat.induct)
  case (1 n)
  show ?case
  proof (cases "n < 10")
    case True
    then have "byte_of (char_of (48 + n :: nat)) \<noteq> byte_of (CHR ''0'')" using "1.prems" by simp
    then have "char_of (48 + n :: nat) \<noteq> CHR ''0''" by metis
    with True show ?thesis by (simp add: digits_1)
  next
    case False
    with 1 show ?thesis by (fastforce simp: digits_of_nat.simps[of n])
  qed
qed

lemma decimal_value_append: "decimal_value (s @ [c]) = 10 * decimal_value s + (byte_of c - 0x30)"
  by (simp add: decimal_value_def)

lemma decimal_value_digits: "decimal_value (digits_of_nat n) = n"
proof (induction n rule: digits_of_nat.induct)
  case (1 n)
  show ?case
  proof (cases "n < 10")
    case True
    then show ?thesis by (simp add: digits_1 decimal_value_def)
  next
    case False
    with 1 show ?thesis by (simp add: digits_of_nat.simps[of n] decimal_value_append)
  qed
qed

definition lx_came :: "lexer \<Rightarrow> string \<Rightarrow> bool" where
  "lx_came lx r \<longleftrightarrow> lx_at lx r \<and> 0 < lx_chars_read_total lx"

lemma lx_at_values [simp]:
  "lx_at (lx\<lparr>lx_value_unsigned := u\<rparr>) r = lx_at lx r" "lx_at (lx\<lparr>lx_value_integer := i\<rparr>) r = lx_at lx r"
  "lx_at (lx\<lparr>lx_value_float := x\<rparr>) r = lx_at lx r"
  by (simp_all add: lx_at_def split: option.split)

lemma scan_unsigned_read:
  assumes "digits_of_nat n = c # ds" "n < 2 ^ 64" "lx_came lx (ds @ r)" "number_stop r"
  shows "\<exists>lx'. scan_number strtod c lx = (value_unsigned, lx') \<and> lx_came lx' r \<and> lx_value_unsigned lx' = of_nat n"
proof -
  let ?l = "if c = CHR ''0'' then n_zero else n_any1"
  let ?lx = "lx_add c (lx_reset lx)"
  from digits_all[of n] assms(1) have digits: "dec_digit c" "list_all dec_digit ds" by simp_all
  then have c: "c \<noteq> CHR ''-''" by (auto simp: dec_digit_def)
  have "\<exists>lx'. scan_number_from ?l value_unsigned ?lx = (Some value_unsigned, lx') \<and> lx_read ?lx (lx_unget lx') r ds"
  proof (cases "c = CHR ''0''")
    case True
    with digits_hd[of n] assms(1) have "n = 0" by fastforce
    with assms(1) have "ds = []" by (simp add: digits_1)
    with True assms(3,4) number_ends[of ?lx r n_zero value_unsigned] unget_get_at[of ?lx r] show ?thesis
      by (simp add: lx_read_def lx_came_def)
  next
    case False
    with number_any1_read[OF digits(2), of ?lx r value_unsigned] assms(3,4) show ?thesis by (simp add: lx_came_def)
  qed
  then obtain lx' where lx': "scan_number_from ?l value_unsigned ?lx = (Some value_unsigned, lx')" "lx_read ?lx (lx_unget lx') r ds"
    by blast
  from lx'(2) assms(1) have "lx_token_buffer (lx_unget lx') = digits_of_nat n" by (simp add: lx_read_def)
  with assms(2) have "strtoull (lx_token_buffer (lx_unget lx')) = Some (of_nat n)"
    by (simp add: strtoull_def decimal_value_digits)
  with lx' c show ?thesis
    by (simp add: scan_number_def scan_number_done_def Let_def lx_came_def lx_read_def)
qed

lemma scan_integer_read:
  assumes "0 < n" "n \<le> 2 ^ 63" "lx_came lx (digits_of_nat n @ r)" "number_stop r"
  shows "\<exists>lx'. scan_number strtod (CHR ''-'') lx = (value_integer, lx') \<and> lx_came lx' r \<and> lx_value_integer lx' = - of_nat n"
proof -
  let ?lx = "lx_add (CHR ''-'') (lx_reset lx)"
  from digits_hd[OF assms(1)] obtain d ds where d: "digits_of_nat n = d # ds" "d \<noteq> CHR ''0''" by blast
  with digits_all[of n] have digits: "dec_digit d" "list_all dec_digit ds" by simp_all
  have g: "lx_current (lx_get ?lx) = Some d" "lx_at (lx_get ?lx) (ds @ r)"
    using get_at_cons[of ?lx d "ds @ r"] assms(3) d(1) by (simp_all add: lx_came_def)
  from number_any1_read[OF digits(2), of "lx_add d (lx_get ?lx)" r value_integer] g assms(3,4) obtain lx' where
    lx': "scan_number_from n_any1 value_integer (lx_add d (lx_get ?lx)) = (Some value_integer, lx')"
    "lx_read (lx_add d (lx_get ?lx)) (lx_unget lx') r ds" by (auto simp: lx_came_def)
  have run: "scan_number_from n_minus value_unsigned ?lx = (Some value_integer, lx')"
    using g lx'(1) digits(1) d(2) by (simp add: scan_number_from.simps[of n_minus])
  from lx'(2) d(1) have "lx_token_buffer (lx_unget lx') = CHR ''-'' # digits_of_nat n" by (simp add: lx_read_def)
  with assms(2) have "strtoll (lx_token_buffer (lx_unget lx')) = Some (- of_nat n)"
    by (simp add: strtoll_def decimal_value_digits)
  with lx'(2) run show ?thesis
    by (simp add: scan_number_def scan_number_done_def Let_def lx_came_def lx_read_def)
qed

text \<open>Numbers with a fraction or an exponent.\<close>

lemma number_run_digits:
  assumes "decimals ds"
  shows "number_run n_any1 t (map digit ds @ s) = number_run n_any1 t s"
    "number_run n_decimal2 t (map digit ds @ s) = number_run n_decimal2 t s"
    "number_run n_any2 t (map digit ds @ s) = number_run n_any2 t s"
  using assms by (induction ds) (simp_all add: digit_dec)

lemma number_run_exponent:
  assumes "es \<noteq> []" "decimals es" "l \<in> {n_zero, n_any1, n_decimal2}" "sg \<in> {CHR ''-'', CHR ''+''}"
  shows "number_run l t (CHR ''e'' # sg # map digit es) = Some (n_any2, value_float)"
proof -
  obtain e es' where "es = e # es'" using assms(1) by (cases es) auto
  then show ?thesis
    using assms(2-4) number_run_digits(3)[of es' _ "[]"] digit_dec[of e] by (auto simp: dec_digit_def)
qed

lemma number_run_tail:
  assumes "float_parts ip fp ex" "l \<in> {n_zero, n_any1}"
  shows "\<exists>l'. number_run l t ((if fp = [] then [] else CHR ''.'' # map digit fp) @
      (case ex of None \<Rightarrow> [] | Some (neg, es) \<Rightarrow> CHR ''e'' # (if neg then CHR ''-'' else CHR ''+'') # map digit es))
      = Some (l', value_float) \<and> number_eof l' = NumberDone"
    (is "\<exists>l'. number_run l t (?frac @ ?exp) = _ \<and> _")
proof -
  have exp: "number_run l1 t1 ?exp = Some (if ex = None then l1 else n_any2, if ex = None then t1 else value_float)"
    if "l1 \<in> {n_zero, n_any1, n_decimal2}" for l1 t1
  proof (cases ex)
    case None
    then show ?thesis using that by auto
  next
    case (Some x)
    then obtain neg es where x: "ex = Some (neg, es)" "es \<noteq> []" "decimals es"
      using assms(1) by (cases x) (auto simp: float_parts_def)
    show ?thesis using number_run_exponent[OF x(2,3) that, of "if neg then CHR ''-'' else CHR ''+''" t1] x(1) by simp
  qed
  show ?thesis
  proof (cases fp)
    case Nil
    then show ?thesis using exp[of l t] assms by (auto simp: float_parts_def)
  next
    case (Cons d ds)
    then have "dec_digit (digit d)" "decimals ds" using assms(1) by (auto simp: float_parts_def digit_dec)
    then have "number_run l t (?frac @ ?exp) = number_run n_decimal2 value_float ?exp"
      using Cons assms(2) number_run_digits(2)[of ds value_float ?exp] by (auto simp: dec_digit_def)
    then show ?thesis using exp[of n_decimal2 value_float] by auto
  qed
qed

lemma scan_number_run:
  assumes "number_run (if c = CHR ''-'' then n_minus else if c = CHR ''0'' then n_zero else n_any1) value_unsigned s
      = Some (l', value_float)" "number_eof l' = NumberDone" "lx_came lx (s @ r)" "number_stop r"
  shows "\<exists>lx'. scan_number strtod c lx = (value_float, lx') \<and> lx_came lx' r \<and> lx_value_float lx' = strtod (c # s)"
proof -
  let ?lx = "lx_add c (lx_reset lx)"
  obtain lx' where "scan_number_from (if c = CHR ''-'' then n_minus else if c = CHR ''0'' then n_zero else n_any1) value_unsigned ?lx
      = (Some value_float, lx')" "lx_read ?lx (lx_unget lx') r s"
    using number_run_read[OF assms(1,2,4), of ?lx] assms(3) by (auto simp: lx_came_def)
  then show ?thesis
    by (auto simp: scan_number_def scan_number_done_def Let_def lx_came_def lx_read_def)
qed

section \<open>Tokens\<close>

lemma scan_first:
  assumes "lx_at lx (c # r)" "\<not> is_json_space c" "c \<noteq> CHR 0xEF"
  shows "\<exists>lx1. scan strtod lx = scan_current strtod lx1 \<and> lx_current lx1 = Some c \<and> lx_came lx1 r"
proof -
  have spaces: "skip_spaces lx0 = lx_get lx0 \<and> lx_current (lx_get lx0) = Some c \<and> lx_came (lx_get lx0) r"
    if "lx_at lx0 (c # r)" for lx0
    using get_at_cons[OF that] assms(2) by (simp add: skip_spaces.simps[of lx0] lx_came_def)
  show ?thesis
  proof (cases "lx_chars_read_total lx = 0")
    case True
    have "skip_bom lx = (True, lx_unget (lx_get lx))"
      using get_at_cons[OF assms(1)] assms(3) by (simp add: skip_bom_def Let_def)
    with True spaces[OF unget_get_at[OF assms(1)]] show ?thesis by (auto simp: scan_def)
  next
    case False
    with spaces[OF assms(1)] show ?thesis by (auto simp: scan_def)
  qed
qed

lemma scan_eof:
  assumes "lx_came lx []"
  shows "\<exists>lx'. scan strtod lx = (end_of_input, lx')"
  using assms get_at_eof[of lx] by (simp add: scan_def lx_came_def skip_spaces.simps[of lx] scan_current_def)

lemma scan_current_simps:
  "lx_current lx = Some (CHR ''['') \<Longrightarrow> scan_current strtod lx = (begin_array, lx)"
  "lx_current lx = Some (CHR '']'') \<Longrightarrow> scan_current strtod lx = (end_array, lx)"
  "lx_current lx = Some (CHR ''{'') \<Longrightarrow> scan_current strtod lx = (begin_object, lx)"
  "lx_current lx = Some (CHR ''}'') \<Longrightarrow> scan_current strtod lx = (end_object, lx)"
  "lx_current lx = Some (CHR '':'') \<Longrightarrow> scan_current strtod lx = (name_separator, lx)"
  "lx_current lx = Some (CHR '','') \<Longrightarrow> scan_current strtod lx = (value_separator, lx)"
  "lx_current lx = Some (CHR ''t'') \<Longrightarrow> scan_current strtod lx = scan_literal ''rue'' literal_true lx"
  "lx_current lx = Some (CHR ''f'') \<Longrightarrow> scan_current strtod lx = scan_literal ''alse'' literal_false lx"
  "lx_current lx = Some (CHR ''n'') \<Longrightarrow> scan_current strtod lx = scan_literal ''ull'' literal_null lx"
  "lx_current lx = Some (CHR 0x22) \<Longrightarrow> scan_current strtod lx = scan_string lx"
  "lx_current lx = Some (CHR ''-'') \<Longrightarrow> scan_current strtod lx = scan_number strtod (CHR ''-'') lx"
  by (simp_all add: scan_current_def del: scan_literal.simps)

lemma scan_current_digit:
  assumes "lx_current lx = Some c" "dec_digit c"
  shows "scan_current strtod lx = scan_number strtod c lx"
proof -
  have "c \<notin> {CHR ''['', CHR '']'', CHR ''{'', CHR ''}'', CHR '':'', CHR '','', CHR ''t'', CHR ''f'', CHR ''n'', CHR 0x22}"
    using assms(2) by (auto simp: dec_digit_def)
  with assms show ?thesis by (simp add: scan_current_def)
qed

lemma scan_punctuation:
  assumes "lx_at lx (c # r)"
    and "(c, t) \<in> {(CHR ''['', begin_array), (CHR '']'', end_array), (CHR ''{'', begin_object), (CHR ''}'', end_object),
       (CHR '':'', name_separator), (CHR '','', value_separator)}"
  shows "\<exists>lx'. scan strtod lx = (t, lx') \<and> lx_came lx' r"
proof -
  from assms(2) have "\<not> is_json_space c" "c \<noteq> CHR 0xEF" by (auto simp: is_json_space_def)
  from scan_first[OF assms(1) this, of strtod] obtain lx1 where
    "scan strtod lx = scan_current strtod lx1" "lx_current lx1 = Some c" "lx_came lx1 r" by blast
  with assms(2) show ?thesis by (auto simp: scan_current_simps)
qed

lemma scan_quoted:
  assumes "lx_at lx (quoted s @ r)" "utf8_valid s"
  shows "\<exists>lx'. scan strtod lx = (value_string, lx') \<and> lx_came lx' r \<and> lx_token_buffer lx' = s"
proof -
  from assms(1) have at: "lx_at lx (CHR 0x22 # concat (map escape_char s) @ CHR 0x22 # r)" by (simp add: quoted_def)
  have "\<not> is_json_space (CHR 0x22)" "CHR 0x22 \<noteq> CHR 0xEF" by (simp_all add: is_json_space_def)
  from scan_first[OF at this, of strtod] obtain lx1 where
    lx1: "scan strtod lx = scan_current strtod lx1" "lx_current lx1 = Some (CHR 0x22)"
    "lx_came lx1 (concat (map escape_char s) @ CHR 0x22 # r)" by blast
  have "utf8_run 0 s = 0" using assms(2) by (simp add: utf8_valid_def UTF8_ACCEPT_def)
  from scan_string_loop_read[OF this, of "lx_reset lx1" r] lx1(3) obtain lx' where
    "scan_string_loop (lx_reset lx1) = (value_string, lx')" "lx_read (lx_reset lx1) lx' r s"
    by (auto simp: lx_came_def)
  with lx1(1,2) show ?thesis by (auto simp: scan_current_simps scan_string_def lx_read_def lx_came_def)
qed

lemma scan_literal_read:
  "lx_at lx (cs @ r) \<Longrightarrow> 0 < lx_chars_read_total lx \<Longrightarrow> \<exists>lx'. scan_literal cs t lx = (t, lx') \<and> lx_came lx' r"
proof (induction cs arbitrary: lx)
  case Nil
  then show ?case by (simp add: lx_came_def)
next
  case (Cons c cs)
  from Cons.prems(1) have "lx_at lx (c # cs @ r)" by simp
  from get_at_cons[OF this] Cons.IH[of "lx_get lx"] show ?case by (simp add: Let_def)
qed

lemma scan_word:
  assumes "lx_at lx (w @ r)"
    and "(w, t) \<in> {(''true'', literal_true), (''false'', literal_false), (''null'', literal_null)}"
  shows "\<exists>lx'. scan strtod lx = (t, lx') \<and> lx_came lx' r"
proof -
  from assms obtain c cs where w: "w = c # cs" "c \<in> {CHR ''t'', CHR ''f'', CHR ''n''}" by auto
  with assms(1) have at: "lx_at lx (c # cs @ r)" by simp
  have "\<not> is_json_space c" "c \<noteq> CHR 0xEF" using w(2) by (auto simp: is_json_space_def)
  from scan_first[OF at this, of strtod] obtain lx1 where
    lx1: "scan strtod lx = scan_current strtod lx1" "lx_current lx1 = Some c" "lx_came lx1 (cs @ r)" by blast
  with scan_literal_read[of lx1 cs r t] assms(2) w show ?thesis
    by (auto simp: scan_current_simps lx_came_def simp del: scan_literal.simps)
qed

lemma scan_digits:
  assumes "lx_at lx (digits_of_nat n @ r)" "n < 2 ^ 64" "number_stop r"
  shows "\<exists>lx'. scan strtod lx = (value_unsigned, lx') \<and> lx_came lx' r \<and> lx_value_unsigned lx' = of_nat n"
proof -
  obtain c ds where c: "digits_of_nat n = c # ds"
    by (cases "digits_of_nat n") (auto simp: digits_of_nat.simps[of n] split: if_splits)
  with digits_all[of n] have d: "dec_digit c" by simp
  then have "\<not> is_json_space c" "c \<noteq> CHR 0xEF" by (auto simp: is_json_space_def dec_digit_def)
  moreover have "lx_at lx (c # ds @ r)" using assms(1) c by simp
  ultimately obtain lx1 where
    lx1: "scan strtod lx = scan_current strtod lx1" "lx_current lx1 = Some c" "lx_came lx1 (ds @ r)"
    using scan_first[of lx c "ds @ r" strtod] by blast
  from scan_current_digit[OF lx1(2) d] scan_unsigned_read[OF c assms(2) lx1(3) assms(3), of strtod] lx1(1) show ?thesis by simp
qed

lemma scan_minus:
  assumes "lx_at lx (CHR ''-'' # digits_of_nat n @ r)" "0 < n" "n \<le> 2 ^ 63" "number_stop r"
  shows "\<exists>lx'. scan strtod lx = (value_integer, lx') \<and> lx_came lx' r \<and> lx_value_integer lx' = - of_nat n"
proof -
  have "\<not> is_json_space (CHR ''-'')" "CHR ''-'' \<noteq> CHR 0xEF" by (simp_all add: is_json_space_def)
  from scan_first[OF assms(1) this, of strtod] obtain lx1 where
    lx1: "scan strtod lx = scan_current strtod lx1" "lx_current lx1 = Some (CHR ''-'')" "lx_came lx1 (digits_of_nat n @ r)"
    by blast
  with scan_integer_read[OF assms(2,3) lx1(3) assms(4), of strtod] show ?thesis by (simp add: scan_current_simps)
qed

lemma float_run:
  assumes "float_parts ip fp ex" "sign_text w @ float_string ip fp ex = c # s"
  shows "\<exists>l'. number_run (if c = CHR ''-'' then n_minus else if c = CHR ''0'' then n_zero else n_any1) value_unsigned s
      = Some (l', value_float) \<and> number_eof l' = NumberDone"
    and "c = CHR ''-'' \<or> dec_digit c"
proof -
  obtain d ds where ip: "ip = d # ds" "d \<le> 9" "decimals ds" "d = 0 \<longrightarrow> ds = []"
    using assms(1) by (cases ip) (auto simp: float_parts_def)
  let ?tail = "(if fp = [] then [] else CHR ''.'' # map digit fp) @
      (case ex of None \<Rightarrow> [] | Some (neg, es) \<Rightarrow> CHR ''e'' # (if neg then CHR ''-'' else CHR ''+'') # map digit es)"
  let ?l = "if digit d = CHR ''0'' then n_zero else n_any1"
  have shape: "float_string ip fp ex = digit d # map digit ds @ ?tail" by (simp add: float_string_def ip(1))
  have digits: "number_run ?l t (map digit ds @ ?tail) = number_run ?l t ?tail" for t
    using ip number_run_digits(1)[OF ip(3), of t ?tail] digit_zero_iff[OF ip(2)] by auto
  obtain l' where tail: "number_run ?l t ?tail = Some (l' t, value_float) \<and> number_eof (l' t) = NumberDone" for t
    using number_run_tail[OF assms(1), of ?l] by atomize_elim (rule choice, auto)
  have "digit d \<noteq> CHR ''-''" using digit_neq[OF ip(2)] by simp
  then show "\<exists>l'. number_run (if c = CHR ''-'' then n_minus else if c = CHR ''0'' then n_zero else n_any1) value_unsigned s
      = Some (l', value_float) \<and> number_eof l' = NumberDone"
    using assms(2) digits tail digit_dec[OF ip(2)] unfolding shape by (auto split: if_splits)
  show "c = CHR ''-'' \<or> dec_digit c" using assms(2) digit_dec[OF ip(2)] unfolding shape by (auto split: if_splits)
qed

lemma scan_float:
  assumes "lx_at lx (sign_text w @ float_string ip fp ex @ r)" "float_parts ip fp ex" "number_stop r"
  shows "\<exists>lx'. scan strtod lx = (value_float, lx') \<and> lx_came lx' r \<and>
     lx_value_float lx' = strtod (sign_text w @ float_string ip fp ex)"
proof -
  obtain c s where cs: "sign_text w @ float_string ip fp ex = c # s"
    using assms(2) by (cases "sign_text w @ float_string ip fp ex") (auto simp: float_string_def float_parts_def)
  note run = float_run[OF assms(2) cs]
  then have "\<not> is_json_space c" "c \<noteq> CHR 0xEF" by (auto simp: is_json_space_def dec_digit_def)
  moreover have "lx_at lx (c # s @ r)" using assms(1) cs by (metis append.assoc append_Cons)
  ultimately obtain lx1 where
    lx1: "scan strtod lx = scan_current strtod lx1" "lx_current lx1 = Some c" "lx_came lx1 (s @ r)"
    using scan_first[of lx c "s @ r" strtod] by blast
  have "scan_current strtod lx1 = scan_number strtod c lx1"
    using run(2) scan_current_digit[OF lx1(2)] lx1(2) by (auto simp: scan_current_simps)
  with scan_number_run[OF _ _ lx1(3) assms(3), of c _ strtod] run(1) lx1(1) cs show ?thesis by auto
qed

end
