(* ===== verification/Json_Literals.thy ===== *)
theory Json_Literals
  imports Json_Round_Trip
begin

text \<open>
  What the lexer reads besides the compact texts: white space before a token, and string literals
  whose code points are escaped with \<open>ensure_ascii\<close>. For these, the UTF-8 decoder of the serialiser
  is inverted by the encoder of the lexer, and the surrogate pairs of the one are those of the other.
\<close>

unbundle bit_operations_syntax

section \<open>White space\<close>

abbreviation spaces :: "string \<Rightarrow> bool" where
  "spaces \<equiv> list_all is_json_space"

lemma scan_space:
  assumes "lx_at lx (c # r)" "is_json_space c"
  shows "\<exists>lx'. scan strtod lx = scan strtod lx' \<and> lx_at lx' r"
proof -
  have skip: "skip_spaces lx0 = skip_spaces (lx_get lx0) \<and> lx_at (lx_get lx0) r" if "lx_at lx0 (c # r)" for lx0
    using get_at_cons[OF that] assms(2) by (simp add: skip_spaces.simps[of lx0])
  show ?thesis
  proof (cases "lx_chars_read_total lx = 0")
    case True
    let ?lx = "lx_unget (lx_get lx)"
    have "c \<noteq> CHR 0xEF" using assms(2) by (auto simp: is_json_space_def)
    with get_at_cons[OF assms(1)] have "skip_bom lx = (True, ?lx)" by (simp add: skip_bom_def Let_def)
    with True skip[OF unget_get_at[OF assms(1)]] have "scan strtod lx = scan strtod (lx_get ?lx)" "lx_at (lx_get ?lx) r"
      by (simp_all add: scan_def)
    then show ?thesis by blast
  next
    case False
    with skip[OF assms(1)] have "scan strtod lx = scan strtod (lx_get lx)" "lx_at (lx_get lx) r"
      by (simp_all add: scan_def)
    then show ?thesis by blast
  qed
qed

lemma scan_spaces:
  "lx_at lx (ws @ r) \<Longrightarrow> spaces ws \<Longrightarrow> \<exists>lx'. scan strtod lx = scan strtod lx' \<and> lx_at lx' r"
proof (induction ws arbitrary: lx)
  case (Cons c ws)
  then obtain lx1 where "scan strtod lx = scan strtod lx1" "lx_at lx1 (ws @ r)"
    using scan_space[of lx c "ws @ r" strtod] by auto
  with Cons.IH[of lx1] Cons.prems(2) show ?case by auto
qed auto

section \<open>Code points and their bytes\<close>

text \<open>The bytes of a code point, as numbers.\<close>

definition utf8_bytes :: "nat \<Rightarrow> nat list" where
  "utf8_bytes n =
     (if n < 0x80 then [n]
      else if n < 0x800 then [0xC0 + n div 64, 0x80 + n mod 64]
      else if n < 0x10000 then [0xE0 + n div 4096, 0x80 + n div 64 mod 64, 0x80 + n mod 64]
      else [0xF0 + n div 262144, 0x80 + n div 4096 mod 64, 0x80 + n div 64 mod 64, 0x80 + n mod 64])"

lemma unat_or_low:
  assumes "unat w < 2 ^ k" "take_bit k (v :: uint32) = 0" "unat v + unat w < 2 ^ 32"
  shows "unat (v OR w) = unat v + unat w"
proof -
  have "take_bit k w = w" using assms(1) by (simp add: word_unat_eq_iff unsigned_take_bit_eq take_bit_nat_eq_self)
  then have "v AND w = take_bit k v AND take_bit k w" by (metis and.assoc and.commute take_bit_eq_mask)
  with assms(2) have "v AND w = 0" by simp
  then have "v OR w = v + w" by (simp add: disjunctive_add_eq_or)
  then show ?thesis using assms(3) by (simp add: unat_word_ariths)
qed

lemma unat_drop: "unat (drop_bit k (w :: uint32)) = unat w div 2 ^ k"
proof -
  have "unat w < 2 ^ LENGTH(32)" by (rule unsigned_less)
  then have "take_bit 32 (unat w) = unat w" by (simp add: take_bit_nat_eq_self)
  then show ?thesis unfolding unsigned_drop_bit_eq by (simp add: drop_bit_eq_div)
qed

lemma unat_take: "unat ((w :: uint32) AND mask k) = unat w mod 2 ^ k"
  by (simp only: unsigned_take_bit_eq flip: take_bit_eq_mask) (simp only: take_bit_eq_mod)

lemma byte_words:
  fixes cp :: uint32
  shows "unat (0x80 OR (cp AND 0x3F)) = 0x80 + unat cp mod 64"
    and "unat (0x80 OR (drop_bit 6 cp AND 0x3F)) = 0x80 + unat cp div 64 mod 64"
    and "unat (0x80 OR (drop_bit 12 cp AND 0x3F)) = 0x80 + unat cp div 4096 mod 64"
    and "unat cp < 0x800 \<Longrightarrow> unat (0xC0 OR drop_bit 6 cp) = 0xC0 + unat cp div 64"
    and "unat cp < 0x10000 \<Longrightarrow> unat (0xE0 OR drop_bit 12 cp) = 0xE0 + unat cp div 4096"
    and "unat cp < 0x110000 \<Longrightarrow> unat (0xF0 OR drop_bit 18 cp) = 0xF0 + unat cp div 262144"
proof -
  have low: "unat (w AND 0x3F) = unat w mod 64" for w :: uint32
    using unat_take[of w 6] by (simp add: mask_eq_exp_minus_1)
  have six: "unat (0x80 OR (w AND 0x3F)) = 0x80 + unat w mod 64" for w :: uint32
    using unat_or_low[where w = "w AND 0x3F" and k = 6 and v = "0x80"] by (simp add: low)
  show "unat (0x80 OR (cp AND 0x3F)) = 0x80 + unat cp mod 64"
    "unat (0x80 OR (drop_bit 6 cp AND 0x3F)) = 0x80 + unat cp div 64 mod 64"
    "unat (0x80 OR (drop_bit 12 cp AND 0x3F)) = 0x80 + unat cp div 4096 mod 64"
    by (simp_all add: six unat_drop)
  show "unat cp < 0x800 \<Longrightarrow> unat (0xC0 OR drop_bit 6 cp) = 0xC0 + unat cp div 64"
    using unat_or_low[where w = "drop_bit 6 cp" and k = 5 and v = "0xC0"] by (simp add: unat_drop)
  show "unat cp < 0x10000 \<Longrightarrow> unat (0xE0 OR drop_bit 12 cp) = 0xE0 + unat cp div 4096"
    using unat_or_low[where w = "drop_bit 12 cp" and k = 4 and v = "0xE0"] by (simp add: unat_drop)
  show "unat cp < 0x110000 \<Longrightarrow> unat (0xF0 OR drop_bit 18 cp) = 0xF0 + unat cp div 262144"
    using unat_or_low[where w = "drop_bit 18 cp" and k = 3 and v = "0xF0"] by (simp add: unat_drop)
qed

lemma add_codepoint_read:
  assumes "unat cp < 0x110000" "lx_at lx r" "0 < lx_chars_read_total lx"
  shows "lx_read lx (add_codepoint cp lx) r (map char_of (utf8_bytes (unat cp)))"
  using assms byte_words[of cp]
  by (auto simp: add_codepoint_def lx_add_int_def lx_read_def utf8_bytes_def word_less_nat_alt word_le_nat_alt)

text \<open>The bytes of a code point, as the decoder writable them.\<close>

lemma open_unit_ranges:
  "utf8_open (fst (decode_all p)) \<Longrightarrow> utf8_items p s = [Some (p @ s)] \<Longrightarrow>
     list_all2 in_range (utf8_ranges (fst (decode_all p))) s"
proof (induction s arbitrary: p)
  case Nil
  then show ?case by (simp split: if_splits)
next
  case (Cons c s)
  let ?st = "fst (decode_all p)"
  let ?n = "utf8_follow ?st (byte_of c)"
  have n: "utf8_next ?st (byte_of c) = ?n" using Cons.prems(1) by (rule utf8_open_next) simp
  with Cons.prems(2) have "?n \<noteq> 1" by (auto simp: UTF8_ACCEPT_def UTF8_REJECT_def)
  from utf8_follow_ranges[OF Cons.prems(1) this] obtain lo hi rs where
    rs: "utf8_ranges ?st = (lo, hi) # rs" "in_range (lo, hi) c"
    "if rs = [] then ?n = 0 else utf8_open ?n \<and> utf8_ranges ?n = rs"
    by (auto simp: in_range_def)
  show ?case
  proof (cases "rs = []")
    case True
    with rs n Cons.prems(2) show ?thesis by (cases s) (auto simp: UTF8_ACCEPT_def)
  next
    case False
    with rs(3) have "?n \<notin> {0, 1}" "utf8_open ?n" "utf8_ranges ?n = rs" by (auto simp: utf8_open_def)
    with Cons.prems(2) n Cons.IH[of "p @ [c]"] rs(1,2) show ?thesis
      by (simp add: UTF8_ACCEPT_def UTF8_REJECT_def del: utf8_ranges.simps)
  qed
qed

lemma decode_single: "decode_all [c] = decode 0 0 (byte_of c)"
  using decode_all_simps(2)[of "[]" c] by simp

lemma unit_shape:
  assumes "utf8_items [] (c # ds) = [Some (c # ds)]"
  shows "ds = [] \<and> byte_of c < 0x80 \<or>
    utf8_open (utf8_lead (byte_of c)) \<and> list_all2 in_range (utf8_ranges (utf8_lead (byte_of c))) ds"
proof -
  have lead: "utf8_next 0 (byte_of c) = utf8_lead (byte_of c)" by (simp add: utf8_from_accept)
  consider "utf8_lead (byte_of c) = 0" | "utf8_lead (byte_of c) = 1" | "utf8_lead (byte_of c) \<notin> {0, 1}" by auto
  then show ?thesis
  proof cases
    case 1
    with assms lead utf8_lead_cases(1)[OF byte_less, of c] show ?thesis by (cases ds) (auto simp: UTF8_ACCEPT_def)
  next
    case 2
    with assms lead show ?thesis by (simp add: UTF8_ACCEPT_def UTF8_REJECT_def)
  next
    case 3
    with assms lead have "utf8_items [c] ds = [Some ([c] @ ds)]" by (simp add: UTF8_ACCEPT_def UTF8_REJECT_def)
    moreover have "fst (decode_all [c]) = utf8_lead (byte_of c)" by (simp add: decode_single lead)
    moreover have "utf8_open (utf8_lead (byte_of c))"
      using 3 utf8_lead_cases(2)[OF byte_less, of c] by (simp add: lead)
    ultimately show ?thesis using open_unit_ranges[of "[c]" ds] by simp
  qed
qed

lemma lead_value:
  assumes "utf8_open (utf8_lead b)" "b < 256"
  shows "unat (snd (decode 0 cp b)) = (if b \<le> 0xDF then b - 0xC0 else if b \<le> 0xEF then b - 0xE0 else b - 0xF0)"
proof -
  have lead: "snd (decode 0 cp b) = drop_bit (utf8_type b) 0xFF AND of_nat b"
    using assms(2) by (simp add: decode_def UTF8_ACCEPT_def utf8d_type Let_def)
  note bits = unat_mask_byte[OF assms(2), of 6] unat_mask_byte[OF assms(2), of 5] unat_mask_byte[OF assms(2), of 2]
  consider "0xC2 \<le> b" "b \<le> 0xDF" | "b = 0xE0" | "0xE1 \<le> b \<and> b \<le> 0xEC \<or> 0xEE \<le> b \<and> b \<le> 0xEF"
    | "b = 0xED" | "b = 0xF0" | "0xF1 \<le> b" "b \<le> 0xF3" | "b = 0xF4"
    using assms(1) by (auto simp: utf8_lead_def utf8_open_def split: if_split_asm)
  then show ?thesis
  proof cases
    case 1
    then have "utf8_type b = 2" "b mod 64 = b - 0xC0" by (simp_all add: utf8_type_def mod_nat_eqI)
    with 1 bits(1) show ?thesis by (simp add: lead mask_eq_exp_minus_1)
  next
    case 3
    then have "utf8_type b = 3" "b mod 32 = b - 0xE0" by (auto simp: utf8_type_def mod_nat_eqI)
    with 3 bits(2) show ?thesis by (auto simp: lead mask_eq_exp_minus_1)
  next
    case 6
    then have "utf8_type b = 6" "b mod 4 = b - 0xF0" by (simp_all add: utf8_type_def mod_nat_eqI)
    with 6 bits(3) show ?thesis by (simp add: lead mask_eq_exp_minus_1)
  qed (unfold lead, simp_all add: utf8_type_def)
qed

lemma follow_value:
  assumes "0x80 \<le> b" "b \<le> 0xBF" "unat cp < 2 ^ 20" "state \<noteq> 0"
  shows "unat (snd (decode state cp b)) = 64 * unat cp + (b - 0x80)"
proof -
  have "b < 256" "b mod 64 = b - 0x80" using assms(1,2) by (auto simp: mod_nat_eqI)
  then show ?thesis
    using unat_next_codepoint[OF _ assms(3), of b] assms(4) by (simp add: decode_def UTF8_ACCEPT_def Let_def)
qed

lemma byte_offset:
  assumes "in_range (lo, hi) d" "0x80 \<le> lo" "hi \<le> 0xBF"
  obtains x where "byte_of d = 0x80 + x" "x < 64" "lo \<le> 0x80 + x" "0x80 + x \<le> hi"
  using assms by (auto simp: in_range_def le_iff_add)

lemma utf8_bytes_compose:
  assumes "x < 64" "y < 64" "z < 64"
  shows "2 \<le> a \<Longrightarrow> a < 32 \<Longrightarrow> utf8_bytes (64 * a + x) = [0xC0 + a, 0x80 + x]"
    and "a < 16 \<Longrightarrow> 32 \<le> 64 * a + x \<Longrightarrow>
      utf8_bytes (64 * (64 * a + x) + y) = [0xE0 + a, 0x80 + x, 0x80 + y]"
    and "a < 8 \<Longrightarrow> 16 \<le> 64 * a + x \<Longrightarrow>
      utf8_bytes (64 * (64 * (64 * a + x) + y) + z) = [0xF0 + a, 0x80 + x, 0x80 + y, 0x80 + z]"
proof -
  have d: "n div 4096 = n div 64 div 64" "n div 262144 = n div 64 div 64 div 64" for n :: nat
    by (simp_all flip: div_mult2_eq)
  obtain m where m: "64 * a + x = m" "m div 64 = a" "m mod 64 = x" using assms(1) by simp
  obtain k where k: "64 * m + y = k" "k div 64 = m" "k mod 64 = y" using assms(2) by simp
  show "2 \<le> a \<Longrightarrow> a < 32 \<Longrightarrow> utf8_bytes (64 * a + x) = [0xC0 + a, 0x80 + x]"
    unfolding utf8_bytes_def d m(1) using m assms by auto
  show "a < 16 \<Longrightarrow> 32 \<le> 64 * a + x \<Longrightarrow>
      utf8_bytes (64 * (64 * a + x) + y) = [0xE0 + a, 0x80 + x, 0x80 + y]"
    unfolding utf8_bytes_def d m(1) k(1) using m k assms by auto
  show "a < 8 \<Longrightarrow> 16 \<le> 64 * a + x \<Longrightarrow>
      utf8_bytes (64 * (64 * (64 * a + x) + y) + z) = [0xF0 + a, 0x80 + x, 0x80 + y, 0x80 + z]"
    unfolding utf8_bytes_def d m(1) k(1) using m k assms by auto
qed

text \<open>The encoder of the lexer inverts the decoder of the serialiser.\<close>

definition scalar :: "nat \<Rightarrow> bool" where
  "scalar n \<longleftrightarrow> n < 0x110000 \<and> \<not> (0xD800 \<le> n \<and> n \<le> 0xDFFF)"

definition follow_bytes :: "string \<Rightarrow> nat \<Rightarrow> nat" where
  "follow_bytes ds n = fold (\<lambda>d v. 64 * v + (byte_of d - 0x80)) ds n"

lemma decode_follows:
  "utf8_open (fst (decode_all p)) \<Longrightarrow> codepoint_ok (fst (decode_all p)) (snd (decode_all p)) \<Longrightarrow>
     list_all2 in_range (utf8_ranges (fst (decode_all p))) ds \<Longrightarrow>
     unat (snd (decode_all (p @ ds))) = follow_bytes ds (unat (snd (decode_all p)))"
proof (induction ds arbitrary: p)
  case Nil
  then show ?case by (simp add: follow_bytes_def)
next
  case (Cons d ds)
  let ?st = "fst (decode_all p)" and ?cp = "snd (decode_all p)"
  obtain lo hi rs where r: "utf8_ranges ?st = (lo, hi) # rs" "in_range (lo, hi) d" "list_all2 in_range rs ds"
    using Cons.prems(3) by (cases "utf8_ranges ?st") (auto simp del: utf8_ranges.simps)
  then have rs: "utf8_ranges ?st = (lo, hi) # rs" "lo \<le> byte_of d" "byte_of d \<le> hi" "list_all2 in_range rs ds"
    by (simp_all add: in_range_def del: utf8_ranges.simps)
  have range: "0x80 \<le> byte_of d" "byte_of d \<le> 0xBF"
    using rs(1-3) Cons.prems(1) by (auto simp: utf8_open_def split: if_splits)
  have cp: "unat ?cp < 2 ^ 20" "?st \<noteq> 0" using Cons.prems(1,2) by (auto simp: codepoint_ok_def utf8_open_def)
  have step: "unat (snd (decode_all (p @ [d]))) = 64 * unat ?cp + (byte_of d - 0x80)"
    using follow_value[OF range cp] by simp
  have n: "utf8_next ?st (byte_of d) = utf8_follow ?st (byte_of d)" using Cons.prems(1) by (rule utf8_open_next) simp
  with rs(1-3) have "utf8_next ?st (byte_of d) \<noteq> 1"
    by (auto simp: utf8_follow_def simp del: utf8_ranges.simps)
  note follow = decode_follow[OF Cons.prems(1,2) byte_less this]
  show ?case
  proof (cases "rs = []")
    case True
    with rs(4) step show ?thesis by (simp add: follow_bytes_def del: decode_all_simps)
  next
    case False
    with utf8_follow_ranges[OF Cons.prems(1), of "byte_of d"] rs(1) n \<open>utf8_next ?st (byte_of d) \<noteq> 1\<close> have
      "utf8_open (utf8_next ?st (byte_of d))" "utf8_ranges (utf8_next ?st (byte_of d)) = rs" "utf8_next ?st (byte_of d) \<noteq> 0"
      by (auto simp: utf8_open_def simp del: utf8_ranges.simps)
    with Cons.IH[of "p @ [d]"] follow rs(4) step show ?thesis
      by (simp add: follow_bytes_def del: utf8_ranges.simps)
  qed
qed

lemma unit_value:
  assumes "utf8_open (utf8_lead (byte_of c))" "list_all2 in_range (utf8_ranges (utf8_lead (byte_of c))) ds"
  shows "unat (snd (decode_all (c # ds))) = follow_bytes ds (unat (snd (decode 0 0 (byte_of c))))"
proof -
  have state: "fst (decode_all [c]) = utf8_lead (byte_of c)" by (simp add: decode_single utf8_from_accept)
  moreover have "codepoint_ok (utf8_lead (byte_of c)) (snd (decode_all [c]))"
    using decode_lead(2)[OF byte_less, of c 0] assms(1) by (auto simp: decode_single utf8_from_accept utf8_open_def)
  ultimately show ?thesis using decode_follows[of "[c]" ds] assms by (simp add: decode_single)
qed

lemma unit_bytes:
  assumes "utf8_items [] (c # ds) = [Some (c # ds)]"
  shows "map byte_of (c # ds) = utf8_bytes (unat (snd (decode_all (c # ds)))) \<and>
    scalar (unat (snd (decode_all (c # ds))))"
  using unit_shape[OF assms]
proof
  assume "ds = [] \<and> byte_of c < 0x80"
  then show ?thesis
    using decode_lead(1)[OF byte_less, of c 0]
    by (simp add: decode_single utf8_from_accept utf8_lead_def unat_byte utf8_bytes_def scalar_def)
next
  assume shape: "utf8_open (utf8_lead (byte_of c)) \<and> list_all2 in_range (utf8_ranges (utf8_lead (byte_of c))) ds"
  note val = unit_value[OF conjunct1[OF shape] conjunct2[OF shape], unfolded lead_value[OF conjunct1[OF shape] byte_less]]
  consider "0xC2 \<le> byte_of c" "byte_of c \<le> 0xDF" | "0xE0 \<le> byte_of c" "byte_of c \<le> 0xEF" | "0xF0 \<le> byte_of c" "byte_of c \<le> 0xF4"
    using shape by (auto simp: utf8_lead_def utf8_open_def split: if_splits)
  then show ?thesis
  proof cases
    case 1
    then have "utf8_lead (byte_of c) = 2" by (simp add: utf8_lead_def)
    with shape obtain d where d: "ds = [d]" "in_range (0x80, 0xBF) d" by (auto simp: list_all2_Cons1)
    obtain x where x: "byte_of d = 0x80 + x" "x < 64" by (rule byte_offset[OF d(2)]) auto
    obtain a where a: "byte_of c = 0xC0 + a" "2 \<le> a" "a < 32" using 1 by (auto simp: le_iff_add)
    have "unat (snd (decode_all (c # ds))) = 64 * a + x" unfolding val using a x d(1) by (simp add: follow_bytes_def)
    then show ?thesis using utf8_bytes_compose(1)[OF x(2) x(2) x(2) a(2,3)] a x d(1) by (simp add: scalar_def)
  next
    case 2
    obtain a where a: "byte_of c = 0xE0 + a" "a < 16" using 2 by (auto simp: le_iff_add)
    then have "utf8_lead (byte_of c) = (if a = 0 then 4 else if a = 13 then 5 else 3)" by (auto simp: utf8_lead_def)
    with shape obtain d e where d: "ds = [d, e]" "in_range (if a = 0 then 0xA0 else 0x80, if a = 13 then 0x9F else 0xBF) d"
      "in_range (0x80, 0xBF) e" by (auto simp: list_all2_Cons1 split: if_splits)
    obtain x where x: "byte_of d = 0x80 + x" "x < 64" "(if a = 0 then 0xA0 else 0x80) \<le> 0x80 + x"
      "0x80 + x \<le> (if a = 13 then 0x9F else 0xBF)" by (rule byte_offset[OF d(2)]) (auto split: if_splits)
    obtain y where y: "byte_of e = 0x80 + y" "y < 64" by (rule byte_offset[OF d(3)]) auto
    have bounds: "32 \<le> 64 * a + x" "a = 13 \<Longrightarrow> x < 32" using x by (cases "a = 0"; auto)+
    have "unat (snd (decode_all (c # ds))) = 64 * (64 * a + x) + y"
      unfolding val using a x y d(1) by (simp add: follow_bytes_def)
    moreover have "scalar (64 * (64 * a + x) + y)"
      using bounds(2) a x(2) y unfolding scalar_def by (cases "a = 13") auto
    ultimately show ?thesis using utf8_bytes_compose(2)[OF x(2) y(2) y(2) a(2) bounds(1)] a x y d(1) by simp
  next
    case 3
    obtain a where a: "byte_of c = 0xF0 + a" "a < 5" using 3 by (auto simp: le_iff_add)
    then have "utf8_lead (byte_of c) = (if a = 0 then 6 else if a = 4 then 8 else 7)" by (auto simp: utf8_lead_def)
    with shape obtain d e f where d: "ds = [d, e, f]" "in_range (if a = 0 then 0x90 else 0x80, if a = 4 then 0x8F else 0xBF) d"
      "in_range (0x80, 0xBF) e" "in_range (0x80, 0xBF) f" by (auto simp: list_all2_Cons1 split: if_splits)
    obtain x where x: "byte_of d = 0x80 + x" "x < 64" "(if a = 0 then 0x90 else 0x80) \<le> 0x80 + x"
      "0x80 + x \<le> (if a = 4 then 0x8F else 0xBF)" by (rule byte_offset[OF d(2)]) (auto split: if_splits)
    obtain y where y: "byte_of e = 0x80 + y" "y < 64" by (rule byte_offset[OF d(3)]) auto
    obtain z where z: "byte_of f = 0x80 + z" "z < 64" by (rule byte_offset[OF d(4)]) auto
    have bounds: "16 \<le> 64 * a + x" "a = 4 \<Longrightarrow> x < 16" "a < 8" using x a by (cases "a = 0"; auto)+
    have "unat (snd (decode_all (c # ds))) = 64 * (64 * (64 * a + x) + y) + z"
      unfolding val using a x y z d(1) by (simp add: follow_bytes_def)
    moreover have "scalar (64 * (64 * (64 * a + x) + y) + z)"
      using bounds(1,2) a x(2) y z unfolding scalar_def by (cases "a = 4") auto
    ultimately show ?thesis using utf8_bytes_compose(3)[OF x(2) y(2) z(2) bounds(3,1)] a x y z d(1) by simp
  qed
qed

section \<open>Escaped code points\<close>

lemma get_codepoint_hex4:
  assumes "lx_at lx (hex4 w @ r)" "unat w < 0x10000"
  shows "\<exists>lx'. get_codepoint lx = (Some w, lx') \<and> lx_read lx lx' r []"
proof -
  let ?n = "unat w"
  have "unat (take_bit 16 w) = ?n"
    using assms(2) by (simp add: unsigned_take_bit_eq take_bit_nat_eq_self)
  then have hex: "hex4 w = map hex_digit [?n div 4096 mod 16, ?n div 256 mod 16, ?n div 16 mod 16, ?n mod 16]"
    by (simp add: hex4_def Let_def)
  have digits: "4096 * (?n div 4096 mod 16) + 256 * (?n div 256 mod 16) + 16 * (?n div 16 mod 16) + ?n mod 16 = ?n"
  proof -
    have d: "?n div 4096 = ?n div 16 div 16 div 16" "?n div 256 = ?n div 16 div 16" by (simp_all flip: div_mult2_eq)
    have "?n div 16 div 16 div 16 < 16" using assms(2) by linarith
    then have "?n div 16 div 16 div 16 mod 16 = ?n div 16 div 16 div 16" by (rule mod_less)
    then show ?thesis
      unfolding d using div_mult_mod_eq[of ?n 16] div_mult_mod_eq[of "?n div 16" 16]
        div_mult_mod_eq[of "?n div 16 div 16" 16] by linarith
  qed
  from codepoint_of_hex[of lx "?n div 4096 mod 16" "?n div 256 mod 16" "?n div 16 mod 16" "?n mod 16" r] assms(1)
  obtain lx' where lx': "get_codepoint lx = (Some (push_bit 12 (of_nat (?n div 4096 mod 16)) +
      push_bit 8 (of_nat (?n div 256 mod 16)) + push_bit 4 (of_nat (?n div 16 mod 16)) + of_nat (?n mod 16)), lx')"
    "lx_read lx lx' r []" by (auto simp: hex)
  have "push_bit 12 (of_nat (?n div 4096 mod 16)) + push_bit 8 (of_nat (?n div 256 mod 16)) +
      push_bit 4 (of_nat (?n div 16 mod 16)) + of_nat (?n mod 16) = (of_nat ?n :: uint32)"
    using arg_cong[OF digits, of "of_nat :: nat \<Rightarrow> uint32"]
    by (simp only: push_bit_eq_mult of_nat_add of_nat_mult) (simp add: mult.commute)
  with lx' show ?thesis by simp
qed

text \<open>A code point outside the surrogates is read from its escape, or from its surrogate pair.\<close>

lemma scan_unicode_one:
  assumes "lx_at lx (hex4 cp @ r)" "unat cp < 0x10000" "scalar (unat cp)"
  shows "\<exists>lx'. scan_unicode lx = (None, lx') \<and> lx_read lx lx' r (map char_of (utf8_bytes (unat cp)))"
proof -
  from get_codepoint_hex4[OF assms(1,2)] obtain lx1 where
    lx1: "get_codepoint lx = (Some cp, lx1)" "lx_read lx lx1 r []" by blast
  have "\<not> (0xD800 \<le> cp \<and> cp \<le> 0xDBFF)" "\<not> (0xDC00 \<le> cp \<and> cp \<le> 0xDFFF)"
    using assms(3) by (auto simp: scalar_def word_le_nat_alt)
  with lx1 add_codepoint_read[of cp lx1 r] assms(3) lx_read_trans[OF lx1(2)] show ?thesis
    by (auto simp: scan_unicode_def scalar_def lx_read_def)
qed

lemma surrogates:
  fixes cp :: uint32
  assumes "0x10000 \<le> unat cp" "unat cp < 0x110000"
  defines "hi \<equiv> 0xD7C0 + drop_bit 10 cp" and "lo \<equiv> 0xDC00 + (cp AND 0x3FF)"
  shows "0xD800 \<le> hi" "hi \<le> 0xDBFF" "0xDC00 \<le> lo" "lo \<le> 0xDFFF" "push_bit 10 hi + lo - 0x35FDC00 = cp"
proof -
  have q: "unat (drop_bit 10 cp) = unat cp div 1024"
    by (simp add: unat_drop)
  have m: "unat (cp AND 0x3FF) = unat cp mod 1024"
    using unat_take[of cp 10] by (simp add: mask_eq_exp_minus_1)
  have "64 \<le> unat cp div 1024" "unat cp div 1024 < 1088" using assms(1,2) by linarith+
  then have hi: "unat hi = 0xD7C0 + unat cp div 1024" by (simp add: hi_def unat_word_ariths q)
  have lo: "unat lo = 0xDC00 + unat cp mod 1024" by (simp add: lo_def unat_word_ariths m)
  show "0xD800 \<le> hi" "hi \<le> 0xDBFF" "0xDC00 \<le> lo" "lo \<le> 0xDFFF"
    using hi lo \<open>64 \<le> unat cp div 1024\<close> \<open>unat cp div 1024 < 1088\<close> mod_less_divisor[of 1024 "unat cp"]
    by (simp_all add: word_le_nat_alt)
  have "of_nat (1024 * (unat cp div 1024) + unat cp mod 1024) = cp" by simp
  then have "1024 * of_nat (unat cp div 1024) + of_nat (unat cp mod 1024) = cp"
    by (simp only: of_nat_add of_nat_mult of_nat_numeral)
  then have "1024 * drop_bit 10 cp + (cp AND 0x3FF) = cp"
    using q m by (metis of_nat_unat ucast_id)
  then show "push_bit 10 hi + lo - 0x35FDC00 = cp"
    by (simp add: push_bit_eq_mult hi_def lo_def algebra_simps)
qed

lemma hex4_surrogates:
  fixes cp :: uint32
  assumes "0x10000 \<le> unat cp" "unat cp < 0x110000"
  shows "unat (0xD7C0 + drop_bit 10 cp) < 0x10000" "unat (0xDC00 + (cp AND 0x3FF)) < 0x10000"
  using surrogates(2,4)[OF assms] by (simp_all add: word_le_nat_alt)

lemma scan_unicode_pair:
  assumes "lx_at lx (hex4 (0xD7C0 + drop_bit 10 cp) @ escape_unicode (0xDC00 + (cp AND 0x3FF)) @ r)"
    and "0x10000 \<le> unat cp" "unat cp < 0x110000"
  shows "\<exists>lx'. scan_unicode lx = (None, lx') \<and> lx_read lx lx' r (map char_of (utf8_bytes (unat cp)))"
proof -
  let ?hi = "0xD7C0 + drop_bit 10 cp" and ?lo = "0xDC00 + (cp AND 0x3FF)"
  note pair = surrogates[OF assms(2,3)] and small = hex4_surrogates[OF assms(2,3)]
  from get_codepoint_hex4[OF assms(1) small(1)] obtain lx1 where
    lx1: "get_codepoint lx = (Some ?hi, lx1)" "lx_read lx lx1 (CHR 0x5C # CHR ''u'' # hex4 ?lo @ r) []"
    by (auto simp: escape_unicode_def)
  then have at: "lx_at lx1 (CHR 0x5C # CHR ''u'' # hex4 ?lo @ r)" by (simp add: lx_read_def)
  note g1 = get_at_cons[OF at]
  note g2 = get_at_cons[OF conjunct2[OF g1]]
  from get_codepoint_hex4[OF conjunct2[OF g2] small(2)] obtain lx4 where
    lx4: "get_codepoint (lx_get (lx_get lx1)) = (Some ?lo, lx4)" "lx_read (lx_get (lx_get lx1)) lx4 r []" by blast
  have "scan_unicode lx = (None, add_codepoint (push_bit 10 ?hi + ?lo - 0x35FDC00) lx4)"
    using lx1(1) lx4(1) g1 g2 pair(1-4) by (simp add: scan_unicode_def Let_def)
  then have "scan_unicode lx = (None, add_codepoint cp lx4)" by (simp only: pair(5))
  moreover have "lx_read lx lx4 r []" using lx1(2) lx4(2) by (simp add: lx_read_def)
  moreover from this have "lx_read lx4 (add_codepoint cp lx4) r (map char_of (utf8_bytes (unat cp)))"
    by (intro add_codepoint_read assms(3)) (simp_all add: lx_read_def)
  ultimately show ?thesis using lx_read_trans[of lx lx4 r "[]"] by auto
qed

lemma scan_string_u:
  assumes "lx_at lx (CHR 0x5C # CHR ''u'' # t)"
  shows "scan_string_body lx = scan_unicode (lx_get (lx_get lx))" "lx_at (lx_get (lx_get lx)) t"
    "lx_token_buffer (lx_get (lx_get lx)) = lx_token_buffer lx"
proof -
  note body = scan_string_escape[OF assms]
  note u = get_at_cons[OF body(2)]
  then show "scan_string_body lx = scan_unicode (lx_get (lx_get lx))" "lx_at (lx_get (lx_get lx)) t"
    "lx_token_buffer (lx_get (lx_get lx)) = lx_token_buffer lx"
    using body(1) by (simp_all add: scan_escape_def Let_def)
qed

lemma scan_ascii_unit:
  assumes "utf8_items [] (c # ds) = [Some (c # ds)]" "lx_at lx (unit_text True (c # ds) @ r)"
  shows "\<exists>lx'. scan_string_body lx = (None, lx') \<and> lx_read lx lx' r (c # ds)"
proof -
  let ?cp = "snd (decode_all (c # ds))"
  note unit = unit_bytes[OF assms(1)]
  from arg_cong[OF conjunct1[OF unit], of "map char_of"] have bytes: "map char_of (utf8_bytes (unat ?cp)) = c # ds"
    by (simp add: comp_def)
  from assms(2) have at: "lx_at lx (ascii_escape ?cp @ r)" by (simp add: unit_text_def)
  have read_u: ?thesis if "ascii_escape ?cp = CHR 0x5C # CHR ''u'' # t"
      "\<And>lx1. lx_at lx1 (t @ r) \<Longrightarrow> \<exists>lx'. scan_unicode lx1 = (None, lx') \<and> lx_read lx1 lx' r (c # ds)" for t
  proof -
    from at that(1) have "lx_at lx (CHR 0x5C # CHR ''u'' # t @ r)" by simp
    note u = scan_string_u[OF this]
    from that(2)[OF u(2)] u(1,3) show ?thesis by (auto simp: lx_read_def)
  qed
  consider "?cp < 0x7F" | "\<not> ?cp < 0x7F" "?cp \<le> 0xFFFF" | "\<not> ?cp < 0x7F" "\<not> ?cp \<le> 0xFFFF" by blast
  then show ?thesis
  proof cases
    case 1
    then have "unat ?cp < 0x7F" by (simp add: word_less_nat_alt)
    with unit have "ds = []" "unat ?cp = byte_of c" by (auto simp: utf8_bytes_def)
    with 1 at \<open>unat ?cp < 0x7F\<close> have "lx_at lx (escape_char c @ r)" "byte_of c < 0x80" by (simp_all add: ascii_escape_def)
    from scan_string_ascii[OF this] \<open>ds = []\<close> show ?thesis by simp
  next
    case 2
    then have "unat ?cp < 0x10000" by (simp add: word_le_nat_alt)
    with 2 unit bytes scan_unicode_one[of _ ?cp r] show ?thesis
      by (intro read_u[of "hex4 ?cp"]) (simp_all add: ascii_escape_def escape_unicode_def)
  next
    case 3
    then have "0x10000 \<le> unat ?cp" by (simp add: word_le_nat_alt)
    moreover have "unat ?cp < 0x110000" using unit by (simp add: scalar_def)
    ultimately show ?thesis
      using 3 bytes scan_unicode_pair[of _ ?cp r]
      by (intro read_u[of "hex4 (0xD7C0 + drop_bit 10 ?cp) @ escape_unicode (0xDC00 + (?cp AND 0x3FF))"])
        (simp_all add: ascii_escape_def escape_unicode_def)
  qed
qed

text \<open>String literals in both spellings.\<close>

definition literal :: "string \<Rightarrow> string \<Rightarrow> bool" where
  "literal s t \<longleftrightarrow> utf8_valid s \<and> (\<exists>ea. t = CHR 0x22 # escaped ea s @ [CHR 0x22])"

lemma valid_units:
  assumes "utf8_valid s"
  obtains us where "utf8_items [] s = map Some us" "concat us = s"
    "\<And>cs. cs \<in> set us \<Longrightarrow> utf8_items [] cs = [Some cs] \<and> cs \<noteq> []"
proof -
  let ?us = "map the (utf8_items [] s)"
  have valid: "None \<notin> set (utf8_items [] s)" using assms by (simp add: utf8_valid_items)
  moreover have "map Some (map the xs) = xs" if "None \<notin> set xs" for xs :: "string option list"
    using that by (induction xs) auto
  ultimately have items: "utf8_items [] s = map Some ?us" by metis
  have unit: "utf8_items [] cs = [Some cs] \<and> cs \<noteq> []" if "cs \<in> set ?us" for cs
  proof -
    have "Some cs \<in> set (utf8_items [] s)" using that by (subst items) auto
    then show ?thesis by (rule items_unit[rotated]) simp
  qed
  have "concat ?us = s" using items_concat[OF valid] by simp
  from that[OF items this unit] show ?thesis by blast
qed

lemma scan_ascii_loop:
  "(\<And>cs. cs \<in> set us \<Longrightarrow> utf8_items [] cs = [Some cs] \<and> cs \<noteq> []) \<Longrightarrow>
     lx_at lx (concat (map (unit_text True) us) @ CHR 0x22 # r) \<Longrightarrow>
     \<exists>lx'. scan_string_loop lx = (value_string, lx') \<and> lx_read lx lx' r (concat us)"
proof (induction us arbitrary: lx)
  case Nil
  then show ?case
    using get_at_cons[of lx "CHR 0x22" r] by (simp add: scan_string_loop.simps[of lx] scan_string_cases lx_read_def)
next
  case (Cons cs us)
  obtain c ds where cs: "cs = c # ds" using Cons.prems(1)[of cs] by (cases cs) auto
  have "lx_at lx (unit_text True (c # ds) @ concat (map (unit_text True) us) @ CHR 0x22 # r)"
    using Cons.prems(2) cs by simp
  with scan_ascii_unit[of c ds lx] Cons.prems(1)[of cs] cs obtain lx1 where
    lx1: "scan_string_body lx = (None, lx1)" "lx_read lx lx1 (concat (map (unit_text True) us) @ CHR 0x22 # r) cs"
    by auto
  with Cons.IH[of lx1] Cons.prems(1) obtain lx' where
    "scan_string_loop lx1 = (value_string, lx')" "lx_read lx1 lx' r (concat us)" by (auto simp: lx_read_def)
  with lx1 lx_read_trans[OF lx1(2)] show ?case by (simp add: scan_string_loop.simps[of lx])
qed

lemma scan_escaped_loop:
  assumes "utf8_valid s" "lx_at lx (escaped ea s @ CHR 0x22 # r)"
  shows "\<exists>lx'. scan_string_loop lx = (value_string, lx') \<and> lx_read lx lx' r s"
proof (cases ea)
  case True
  from valid_units[OF assms(1)] obtain us where us: "utf8_items [] s = map Some us" "concat us = s"
    "\<And>cs. cs \<in> set us \<Longrightarrow> utf8_items [] cs = [Some cs] \<and> cs \<noteq> []" by blast
  have "escaped ea s = concat (map (unit_text True) us)" using True us(1) by (simp add: escaped_def comp_def)
  with scan_ascii_loop[OF us(3)] assms(2) us(2) show ?thesis by metis
next
  case False
  with assms scan_string_loop_read[of s lx r] show ?thesis
    by (simp add: escaped_bytes utf8_valid_def UTF8_ACCEPT_def)
qed

lemma scan_string_literal:
  assumes "literal s t" "lx_at lx (t @ r)"
  shows "\<exists>lx'. scan strtod lx = (value_string, lx') \<and> lx_came lx' r \<and> lx_token_buffer lx' = s"
proof -
  from assms(1) obtain ea where t: "t = CHR 0x22 # escaped ea s @ [CHR 0x22]" "utf8_valid s"
    by (auto simp: literal_def)
  then have at: "lx_at lx (CHR 0x22 # escaped ea s @ CHR 0x22 # r)" using assms(2) by simp
  have "\<not> is_json_space (CHR 0x22)" "CHR 0x22 \<noteq> CHR 0xEF" by (simp_all add: is_json_space_def)
  from scan_first[OF at this, of strtod] obtain lx1 where
    lx1: "scan strtod lx = scan_current strtod lx1" "lx_current lx1 = Some (CHR 0x22)"
    "lx_came lx1 (escaped ea s @ CHR 0x22 # r)" by blast
  from scan_escaped_loop[OF t(2), of "lx_reset lx1"] lx1(3) obtain lx' where
    "scan_string_loop (lx_reset lx1) = (value_string, lx')" "lx_read (lx_reset lx1) lx' r s"
    by (auto simp: lx_came_def)
  with lx1(1,2) show ?thesis by (auto simp: scan_current_simps scan_string_def lx_read_def lx_came_def)
qed

lemma quoted_literal: "utf8_valid s \<Longrightarrow> literal s (quoted s)"
  by (auto simp: literal_def quoted_def escaped_bytes intro!: exI[of _ False])

lemma string_text_literal: "literal (repaired h s) (string_text h ea s)"
  by (auto simp: literal_def string_text_def repaired_utf8)

end
