(* ===== verification/Json_Reading.thy ===== *)
theory Json_Reading
  imports Json_Literals
begin

text \<open>
  The parser rebuilds a value from its texts. These are given by a grammar, with white space before
  every token and both spellings of string literals; the texts of the serialiser, compact or
  indented, are among them. A value is read wherever one is expected, whatever surrounds it: the
  statement \<open>reads\<close> says so for the loop of the parser and the tree of the DOM handler, and is
  proved by induction on the grammar.
\<close>

section \<open>Values that come back unchanged\<close>

text \<open>
  Objects are maps, integers of the signed kind are negative (the parser takes others for unsigned
  ones), and every double satisfies a condition.
\<close>

fun json_canonical :: "(64 word \<Rightarrow> bool) \<Rightarrow> json \<Rightarrow> bool" where
  "json_canonical P (JObject m) \<longleftrightarrow> std_map m \<and> (\<forall>(k, v) \<in> set m. json_canonical P v)"
| "json_canonical P (JArray xs) \<longleftrightarrow> (\<forall>x \<in> set xs. json_canonical P x)"
| "json_canonical P (JInteger w) \<longleftrightarrow> sint w < 0"
| "json_canonical P (JFloat w) \<longleftrightarrow> P w"
| "json_canonical P _ \<longleftrightarrow> True"

text \<open>The values without doubles, and those whose doubles \<^verbatim>\<open>strtod\<close> brings back from their texts.\<close>

abbreviation json_canon :: "json \<Rightarrow> bool" where
  "json_canon \<equiv> json_canonical (\<lambda>_. False)"

abbreviation json_faithful :: "(string \<Rightarrow> 64 word) \<Rightarrow> json \<Rightarrow> bool" where
  "json_faithful strtod \<equiv> json_canonical (\<lambda>w. isfinite w \<and> strtod (double_text w) = w)"

lemma json_canonical_mono: "json_canonical P j \<Longrightarrow> (\<And>w. P w \<Longrightarrow> Q w) \<Longrightarrow> json_canonical Q j"
  by (induction j) (fastforce simp: snds.simps)+

lemma canon_faithful: "json_canon j \<Longrightarrow> json_faithful strtod j"
  by (erule json_canonical_mono) simp

section \<open>Steps of the loop\<close>

abbreviation dom_loop :: "(string \<Rightarrow> 64 word) \<Rightarrow> dom parser \<Rightarrow> (bool \<times> dom parser) res" where
  "dom_loop strtod \<equiv> sax_parse_internal strtod json_sax_dom_parser"

lemma get_token_scan: "scan strtod (p_lexer p) = (t, lx) \<Longrightarrow> get_token strtod p = p\<lparr>p_lexer := lx, p_last_token := t\<rparr>"
  by (simp add: get_token_def)

lemma get_token_update [simp]:
  "get_token strtod (p\<lparr>p_states := st\<rparr>) = (get_token strtod p)\<lparr>p_states := st\<rparr>"
  by (simp add: get_token_def split: prod.split)

lemma loop_continue:
  "parse_iteration strtod h p = Inr (Continue q) \<Longrightarrow> sax_parse_internal strtod h p = sax_parse_internal strtod h q"
  by (simp add: sax_parse_internal.simps[of strtod h p])

lemma loop_fall:
  assumes "parse_value strtod h p = Inr (Fall q)" "\<not> p_skip p" "\<not> p_skip q"
  shows "sax_parse_internal strtod h p = sax_parse_internal strtod h (q\<lparr>p_skip := True\<rparr>)"
proof -
  have "q\<lparr>p_skip := False\<rparr> = q" using assms(3) by (cases q) simp
  from arg_cong[OF this, of "parse_state strtod h"] assms
  have "parse_iteration strtod h p = parse_iteration strtod h (q\<lparr>p_skip := True\<rparr>)"
    by (simp add: parse_iteration_def)
  then show ?thesis
    by (simp add: sax_parse_internal.simps[of strtod h p] sax_parse_internal.simps[of strtod h "q\<lparr>p_skip := True\<rparr>"])
qed

section \<open>The texts of a value\<close>

fun json_atom :: "json \<Rightarrow> bool" where
  "json_atom (JObject m) \<longleftrightarrow> False"
| "json_atom (JArray xs) \<longleftrightarrow> False"
| "json_atom (JString s) \<longleftrightarrow> False"
| "json_atom _ \<longleftrightarrow> True"

inductive json_texts :: "json \<Rightarrow> string \<Rightarrow> bool"
  and elements_texts :: "json list \<Rightarrow> string \<Rightarrow> bool"
  and members_texts :: "(string \<times> json) list \<Rightarrow> string \<Rightarrow> bool" where
  text_space: "spaces ws \<Longrightarrow> json_texts j t \<Longrightarrow> json_texts j (ws @ t)"
| text_atom: "json_atom j \<Longrightarrow> json_texts j (json_text j)"
| text_string: "literal s t \<Longrightarrow> json_texts (JString s) t"
| text_no_elements: "spaces ws \<Longrightarrow> json_texts (JArray []) (CHR ''['' # ws @ '']'')"
| text_array: "elements_texts xs t \<Longrightarrow> spaces ws \<Longrightarrow> json_texts (JArray xs) (CHR ''['' # t @ ws @ '']'')"
| text_no_members: "spaces ws \<Longrightarrow> json_texts (JObject []) (CHR ''{'' # ws @ ''}'')"
| text_object: "members_texts m t \<Longrightarrow> spaces ws \<Longrightarrow> json_texts (JObject m) (CHR ''{'' # t @ ws @ ''}'')"
| text_element: "json_texts x t \<Longrightarrow> elements_texts [x] t"
| text_elements: "json_texts x t \<Longrightarrow> spaces ws \<Longrightarrow> elements_texts xs t' \<Longrightarrow> elements_texts (x # xs) (t @ ws @ '','' @ t')"
| text_member: "spaces ws \<Longrightarrow> literal k tk \<Longrightarrow> spaces ws' \<Longrightarrow> json_texts v t \<Longrightarrow>
    members_texts [(k, v)] (ws @ tk @ ws' @ '':'' @ t)"
| text_members: "spaces ws \<Longrightarrow> literal k tk \<Longrightarrow> spaces ws' \<Longrightarrow> json_texts v t \<Longrightarrow> spaces ws'' \<Longrightarrow>
    members_texts m t' \<Longrightarrow> members_texts ((k, v) # m) (ws @ tk @ ws' @ '':'' @ t @ ws'' @ '','' @ t')"

section \<open>Tokens after white space\<close>

lemma scan_spaced_punctuation:
  assumes "lx_at lx (ws @ c # r)" "spaces ws"
    and "(c, t) \<in> {(CHR ''['', begin_array), (CHR '']'', end_array), (CHR ''{'', begin_object), (CHR ''}'', end_object),
       (CHR '':'', name_separator), (CHR '','', value_separator)}"
  shows "\<exists>lx'. scan strtod lx = (t, lx') \<and> lx_came lx' r"
proof -
  from scan_spaces[OF assms(1,2), of strtod] obtain lx1 where "scan strtod lx = scan strtod lx1" "lx_at lx1 (c # r)" by blast
  with scan_punctuation[OF _ assms(3), of lx1 r strtod] show ?thesis by simp
qed

lemma scan_spaced_literal:
  assumes "lx_at lx (ws @ t @ r)" "spaces ws" "literal s t"
  shows "\<exists>lx'. scan strtod lx = (value_string, lx') \<and> lx_came lx' r \<and> lx_token_buffer lx' = s"
proof -
  from scan_spaces[OF assms(1,2), of strtod] obtain lx1 where "scan strtod lx = scan strtod lx1" "lx_at lx1 (t @ r)" by blast
  with scan_string_literal[OF assms(3), of lx1 r strtod] show ?thesis by simp
qed

lemma number_stop_punctuation [simp]:
  "number_stop (CHR '','' # r)" "number_stop (CHR '']'' # r)" "number_stop (CHR ''}'' # r)" "number_stop []"
  by (simp_all add: number_stop_def dec_digit_def)

lemma number_stop_spaces [simp]: "spaces ws \<Longrightarrow> number_stop r \<Longrightarrow> number_stop (ws @ r)"
  by (cases ws) (auto simp: number_stop_def is_json_space_def dec_digit_def)

lemma tokenD:
  assumes "scan strtod (p_lexer p) = (t, lx)"
  shows "p_last_token (get_token strtod p) = t" "p_lexer (get_token strtod p) = lx"
  using get_token_scan[OF assms] by simp_all

lemma last_token_scan: "p_last_token (get_token strtod p) = fst (scan strtod (p_lexer p))"
  by (simp add: get_token_def split: prod.split)

section \<open>Reading a value\<close>

text \<open>The first token of a text does not close a container.\<close>

definition opens :: "(string \<Rightarrow> 64 word) \<Rightarrow> string \<Rightarrow> bool" where
  "opens strtod t \<longleftrightarrow>
     (\<forall>lx r. lx_at lx (t @ r) \<longrightarrow> number_stop r \<longrightarrow> fst (scan strtod lx) \<notin> {end_array, end_object})"

definition reads :: "(string \<Rightarrow> 64 word) \<Rightarrow> json \<Rightarrow> string \<Rightarrow> bool" where
  "reads strtod j t \<longleftrightarrow>
     opens strtod t \<and>
     (\<forall>p e put r. \<not> p_skip p \<longrightarrow> lx_at (p_lexer p) (t @ r) \<longrightarrow> number_stop r \<longrightarrow>
        placed (p_states p) (p_sax p) e put \<longrightarrow>
        (\<exists>q. dom_loop strtod (get_token strtod p) = dom_loop strtod (q\<lparr>p_skip := True\<rparr>) \<and>
             lx_came (p_lexer q) r \<and> p_states q = p_states p \<and>
             dom_root (p_sax q) = put j \<and> dom_ref_stack (p_sax q) = dom_ref_stack (p_sax p)))"

lemma readsD:
  assumes "reads strtod j t" "\<not> p_skip p" "lx_at (p_lexer p) (t @ r)" "number_stop r"
    "placed (p_states p) (p_sax p) e put"
  obtains q where "dom_loop strtod (get_token strtod p) = dom_loop strtod (q\<lparr>p_skip := True\<rparr>)"
    "lx_came (p_lexer q) r" "p_states q = p_states p" "dom_root (p_sax q) = put j"
    "dom_ref_stack (p_sax q) = dom_ref_stack (p_sax p)"
  using assms unfolding reads_def by blast

lemma reads_opens: "reads strtod j t \<Longrightarrow> opens strtod t"
  by (simp add: reads_def)

lemma opens_spaces: "opens strtod t \<Longrightarrow> spaces ws \<Longrightarrow> opens strtod (ws @ t)"
  unfolding opens_def using scan_spaces by (metis append.assoc)

lemma opens_append: "opens strtod t \<Longrightarrow> (\<And>r. number_stop r \<Longrightarrow> number_stop (t' @ r)) \<Longrightarrow> opens strtod (t @ t')"
  by (simp add: opens_def)

lemma reads_spaces:
  assumes "reads strtod j t" "spaces ws"
  shows "reads strtod j (ws @ t)"
  unfolding reads_def
proof (intro conjI allI impI)
  show "opens strtod (ws @ t)" using assms by (simp add: reads_def opens_spaces)
next
  fix p :: "dom parser" and e "put" r
  assume p: "\<not> p_skip p" "lx_at (p_lexer p) ((ws @ t) @ r)" "number_stop r" "placed (p_states p) (p_sax p) e put"
  from scan_spaces[of "p_lexer p" ws "t @ r" strtod] p(2) assms(2) obtain lx where
    lx: "scan strtod (p_lexer p) = scan strtod lx" "lx_at lx (t @ r)" by auto
  have "get_token strtod p = get_token strtod (p\<lparr>p_lexer := lx\<rparr>)"
    using lx(1) by (simp add: get_token_def split: prod.split)
  with readsD[OF assms(1), of "p\<lparr>p_lexer := lx\<rparr>" r e "put"] p lx(2)
  show "\<exists>q. dom_loop strtod (get_token strtod p) = dom_loop strtod (q\<lparr>p_skip := True\<rparr>) \<and>
             lx_came (p_lexer q) r \<and> p_states q = p_states p \<and>
             dom_root (p_sax q) = put j \<and> dom_ref_stack (p_sax q) = dom_ref_stack (p_sax p)" by auto
qed

section \<open>Simple values\<close>

lemma reads_token:
  assumes "\<And>lx r. lx_at lx (t @ r) \<Longrightarrow> number_stop r \<Longrightarrow>
      \<exists>tok lx'. scan strtod lx = (tok, lx') \<and> lx_came lx' r \<and> tok \<notin> {end_array, end_object} \<and>
        (\<forall>p :: dom parser. p_lexer p = lx' \<longrightarrow> p_last_token p = tok \<longrightarrow>
          (\<exists>ev. parse_value strtod json_sax_dom_parser p = sax_emit json_sax_dom_parser ev p (\<lambda>p1. Inr (Fall p1)) \<and>
             (\<forall>d. dom_on ev d = dom_value j d)))"
  shows "reads strtod j t"
  unfolding reads_def
proof (intro conjI allI impI)
  show "opens strtod t" using assms by (fastforce simp: opens_def)
next
  fix p :: "dom parser" and e "put" r
  assume p: "\<not> p_skip p" "lx_at (p_lexer p) (t @ r)" "number_stop r"
    "placed (p_states p) (p_sax p) e put"
  from assms[OF p(2,3)] obtain tk lx' where scan: "scan strtod (p_lexer p) = (tk, lx')" "lx_came lx' r"
    and tok: "\<And>p :: dom parser. p_lexer p = lx' \<Longrightarrow> p_last_token p = tk \<Longrightarrow>
          \<exists>ev. parse_value strtod json_sax_dom_parser p = sax_emit json_sax_dom_parser ev p (\<lambda>p1. Inr (Fall p1)) \<and>
             (\<forall>d. dom_on ev d = dom_value j d)" by blast
  let ?p = "p\<lparr>p_lexer := lx', p_last_token := tk\<rparr>"
  let ?q = "?p\<lparr>p_sax := (p_sax p)\<lparr>dom_root := put j\<rparr>\<rparr>"
  from p(4) have "dom_value j (p_sax p) = Inr (True, (p_sax p)\<lparr>dom_root := put j\<rparr>)"
    by (simp add: placed_def dom_value_def)
  with tok[of ?p] have "parse_value strtod json_sax_dom_parser ?p = Inr (Fall ?q)"
    by (auto simp: sax_emit_def json_sax_dom_parser_def)
  from loop_fall[OF this] p(1) get_token_scan[OF scan(1)]
  have "dom_loop strtod (get_token strtod p) = dom_loop strtod (?q\<lparr>p_skip := True\<rparr>)" by simp
  with scan(2) show "\<exists>q. dom_loop strtod (get_token strtod p) = dom_loop strtod (q\<lparr>p_skip := True\<rparr>) \<and>
             lx_came (p_lexer q) r \<and> p_states q = p_states p \<and>
             dom_root (p_sax q) = put j \<and> dom_ref_stack (p_sax q) = dom_ref_stack (p_sax p)"
    by (intro exI[of _ ?q]) simp
qed

lemma reads_string: "literal s t \<Longrightarrow> reads strtod (JString s) t"
  by (rule reads_token) (use scan_string_literal in \<open>fastforce simp: parse_value_def\<close>)

lemma reads_null: "reads strtod JNull ''null''"
  by (rule reads_token) (use scan_word[of _ "''null''" _ literal_null] in \<open>fastforce simp: parse_value_def\<close>)

lemma reads_true: "reads strtod (JBool True) ''true''"
  by (rule reads_token) (use scan_word[of _ "''true''" _ literal_true] in \<open>fastforce simp: parse_value_def\<close>)

lemma reads_false: "reads strtod (JBool False) ''false''"
  by (rule reads_token) (use scan_word[of _ "''false''" _ literal_false] in \<open>fastforce simp: parse_value_def\<close>)

lemma reads_unsigned: "reads strtod (JUnsigned w) (to_string (int (unat w)))"
proof (rule reads_token)
  fix lx r assume "lx_at lx (to_string (int (unat w)) @ r)" "number_stop r"
  moreover have "unat w < 2 ^ LENGTH(64)" by (rule unsigned_less)
  ultimately obtain lx' where "scan strtod lx = (value_unsigned, lx')" "lx_came lx' r" "lx_value_unsigned lx' = w"
    using scan_digits[of lx "unat w" r strtod] by (auto simp: to_string_def)
  then show "\<exists>tok lx'. scan strtod lx = (tok, lx') \<and> lx_came lx' r \<and> tok \<notin> {end_array, end_object} \<and>
        (\<forall>p :: dom parser. p_lexer p = lx' \<longrightarrow> p_last_token p = tok \<longrightarrow>
          (\<exists>ev. parse_value strtod json_sax_dom_parser p = sax_emit json_sax_dom_parser ev p (\<lambda>p1. Inr (Fall p1)) \<and>
             (\<forall>d. dom_on ev d = dom_value (JUnsigned w) d)))"
    by (intro exI[of _ value_unsigned] exI[of _ lx']) (auto simp: parse_value_def)
qed

lemma reads_integer:
  assumes "sint w < 0"
  shows "reads strtod (JInteger w) (to_string (sint w))"
proof (rule reads_token)
  fix lx r assume lx: "lx_at lx (to_string (sint w) @ r)" "number_stop r"
  let ?n = "nat (- sint w)"
  have "0 < ?n" "?n \<le> 2 ^ 63" using assms sint_ge[of w] by simp_all
  moreover have "- of_nat ?n = w" using assms(1) by simp
  moreover have "to_string (sint w) = CHR ''-'' # digits_of_nat ?n"
    using assms(1) by (simp add: to_string_def)
  ultimately obtain lx' where "scan strtod lx = (value_integer, lx')" "lx_came lx' r" "lx_value_integer lx' = w"
    using scan_minus[of lx ?n r strtod] lx by auto
  then show "\<exists>tok lx'. scan strtod lx = (tok, lx') \<and> lx_came lx' r \<and> tok \<notin> {end_array, end_object} \<and>
        (\<forall>p :: dom parser. p_lexer p = lx' \<longrightarrow> p_last_token p = tok \<longrightarrow>
          (\<exists>ev. parse_value strtod json_sax_dom_parser p = sax_emit json_sax_dom_parser ev p (\<lambda>p1. Inr (Fall p1)) \<and>
             (\<forall>d. dom_on ev d = dom_value (JInteger w) d)))"
    by (intro exI[of _ value_integer] exI[of _ lx']) (auto simp: parse_value_def)
qed

lemma reads_float:
  assumes "isfinite w" "strtod (double_text w) = w"
  shows "reads strtod (JFloat w) (double_text w)"
proof (rule reads_token)
  fix lx r assume lx: "lx_at lx (double_text w @ r)" "number_stop r"
  obtain ip fp ex where d: "double_text w = sign_text w @ float_string ip fp ex" "float_parts ip fp ex"
    using double_text_eq[OF assms(1)] by blast
  obtain lx' where "scan strtod lx = (value_float, lx')" "lx_came lx' r" "lx_value_float lx' = w"
    using scan_float[OF _ d(2) lx(2), of lx w strtod] lx(1) assms d(1) by auto
  then show "\<exists>tok lx'. scan strtod lx = (tok, lx') \<and> lx_came lx' r \<and> tok \<notin> {end_array, end_object} \<and>
        (\<forall>p :: dom parser. p_lexer p = lx' \<longrightarrow> p_last_token p = tok \<longrightarrow>
          (\<exists>ev. parse_value strtod json_sax_dom_parser p = sax_emit json_sax_dom_parser ev p (\<lambda>p1. Inr (Fall p1)) \<and>
             (\<forall>d. dom_on ev d = dom_value (JFloat w) d)))"
    using assms(1) by (intro exI[of _ value_float] exI[of _ lx']) (auto simp: parse_value_def Let_def)
qed

lemma reads_atom: "json_atom j \<Longrightarrow> json_faithful strtod j \<Longrightarrow> reads strtod j (json_text j)"
  by (cases j) (auto intro: reads_null reads_true reads_false reads_unsigned[simplified] reads_integer reads_float)

section \<open>Arrays\<close>

lemma placed_element:
  assumes "placed st d0 e put" "dom_ref_stack d = e # dom_ref_stack d0" "dom_root d = put (JArray ys)"
  shows "placed (True # st) d (e @ [AtIndex (length ys)]) (\<lambda>v. put (JArray (ys @ [v])))"
proof -
  from assms(1) have p: "\<And>v. get_at e (put v) = Some v" "\<And>v w. put_at e w (put v) = put w"
    "\<And>v. stack_ok st (dom_ref_stack d0) (put v)" "list_all (below e) (dom_ref_stack d0)"
    by (simp_all add: placed_def)
  show ?thesis
    unfolding placed_def
    using p assms(2,3) put_at_append[OF p(1)] by (simp add: handle_value_def get_at_append below_all[OF below_snoc])
qed

lemma dom_end_step:
  "p_sax p = d \<Longrightarrow> dom_ref_stack d = e # rs \<Longrightarrow> ev \<in> {SaxEndArray, SaxEndObject} \<Longrightarrow>
     sax_emit json_sax_dom_parser ev p k = k (p\<lparr>p_sax := d\<lparr>dom_ref_stack := rs\<rparr>\<rparr>)"
  by (auto simp: sax_emit_def json_sax_dom_parser_def dom_end_def)

text \<open>After an element: a comma leads to the next one, a bracket ends the array.\<close>

lemma array_comma:
  assumes "lx_came (p_lexer q) (ws @ CHR '','' # r)" "spaces ws" "p_states q = True # st"
  shows "\<exists>q'. dom_loop strtod (q\<lparr>p_skip := True\<rparr>) = dom_loop strtod (get_token strtod q') \<and>
           lx_came (p_lexer q') r \<and> p_states q' = True # st \<and> \<not> p_skip q' \<and> p_sax q' = p_sax q"
proof -
  let ?q = "get_token strtod (q\<lparr>p_skip := False\<rparr>)"
  from scan_spaced_punctuation[of "p_lexer q" ws "CHR '',''" r value_separator strtod] assms(1,2) obtain lx where
    scan: "scan strtod (p_lexer (q\<lparr>p_skip := False\<rparr>)) = (value_separator, lx)" "lx_came lx r" by (auto simp: lx_came_def)
  have "parse_iteration strtod json_sax_dom_parser (q\<lparr>p_skip := True\<rparr>) = Inr (Continue (get_token strtod ?q))"
    using tokenD[OF scan(1)] assms(3) by (simp add: parse_iteration_def parse_state_def Let_def)
  from loop_continue[OF this] tokenD[OF scan(1)] scan(2) assms(3) show ?thesis
    by (intro exI[of _ ?q]) simp
qed

lemma container_close:
  assumes "lx_came (p_lexer q) (ws @ c # r)" "spaces ws" "dom_ref_stack (p_sax q) = e # rs"
    and "(c, is_array) \<in> {(CHR '']'', True), (CHR ''}'', False)}" "p_states q = is_array # st"
  shows "\<exists>q'. dom_loop strtod (q\<lparr>p_skip := True\<rparr>) = dom_loop strtod (q'\<lparr>p_skip := True\<rparr>) \<and>
           lx_came (p_lexer q') r \<and> p_states q' = st \<and> p_sax q' = (p_sax q)\<lparr>dom_ref_stack := rs\<rparr>"
proof -
  let ?q = "get_token strtod (q\<lparr>p_skip := False\<rparr>)"
  let ?tok = "if is_array then end_array else end_object" and ?ev = "if is_array then SaxEndArray else SaxEndObject"
  have "(c, ?tok) \<in> {(CHR ''['', begin_array), (CHR '']'', end_array), (CHR ''{'', begin_object), (CHR ''}'', end_object),
       (CHR '':'', name_separator), (CHR '','', value_separator)}" using assms(4) by auto
  from scan_spaced_punctuation[OF _ assms(2) this, of "p_lexer q" r strtod] assms(1) obtain lx where
    scan: "scan strtod (p_lexer (q\<lparr>p_skip := False\<rparr>)) = (?tok, lx)" "lx_came lx r" by (auto simp: lx_came_def)
  let ?q' = "?q\<lparr>p_sax := (p_sax q)\<lparr>dom_ref_stack := rs\<rparr>, p_states := st\<rparr>"
  have "parse_iteration strtod json_sax_dom_parser (q\<lparr>p_skip := True\<rparr>) = Inr (Continue (?q'\<lparr>p_skip := True\<rparr>))"
    using tokenD[OF scan(1)] assms(4,5) dom_end_step[OF refl, of ?q e rs ?ev] assms(3)
    by (auto simp: parse_iteration_def parse_state_def parse_close_def Let_def)
  from loop_continue[OF this] tokenD[OF scan(1)] scan(2) show ?thesis
    by (intro exI[of _ ?q']) simp
qed

text \<open>The elements of an array, up to its end, are appended to those that are there.\<close>

definition reads_elements :: "(string \<Rightarrow> 64 word) \<Rightarrow> json list \<Rightarrow> string \<Rightarrow> bool" where
  "reads_elements strtod xs t \<longleftrightarrow>
     (\<forall>st d0 e put p ws r ys.
        placed st d0 e put \<longrightarrow> \<not> p_skip p \<longrightarrow> lx_at (p_lexer p) (t @ ws @ CHR '']'' # r) \<longrightarrow> spaces ws \<longrightarrow>
        p_states p = True # st \<longrightarrow> dom_ref_stack (p_sax p) = e # dom_ref_stack d0 \<longrightarrow>
        dom_root (p_sax p) = put (JArray ys) \<longrightarrow>
        (\<exists>q. dom_loop strtod (get_token strtod p) = dom_loop strtod (q\<lparr>p_skip := True\<rparr>) \<and>
           lx_came (p_lexer q) r \<and> p_states q = st \<and>
           dom_root (p_sax q) = put (JArray (ys @ xs)) \<and> dom_ref_stack (p_sax q) = dom_ref_stack d0))"

lemma element_step:
  assumes "reads strtod x t" "number_stop r" "placed st d0 e put" "\<not> p_skip p" "lx_at (p_lexer p) (t @ r)"
    and "p_states p = True # st" "dom_ref_stack (p_sax p) = e # dom_ref_stack d0" "dom_root (p_sax p) = put (JArray ys)"
  obtains q where "dom_loop strtod (get_token strtod p) = dom_loop strtod (q\<lparr>p_skip := True\<rparr>)"
    "lx_came (p_lexer q) r" "p_states q = True # st" "dom_root (p_sax q) = put (JArray (ys @ [x]))"
    "dom_ref_stack (p_sax q) = e # dom_ref_stack d0"
  using readsD[OF assms(1,4,5,2)] placed_element[OF assms(3,7,8)] assms(6,7) by metis

lemma reads_last_element:
  assumes "reads strtod x t"
  shows "reads_elements strtod [x] t"
  unfolding reads_elements_def
proof (intro allI impI)
  fix st d0 e "put" ws r ys and p :: "dom parser"
  assume p: "placed st d0 e put" "\<not> p_skip p" "lx_at (p_lexer p) (t @ ws @ CHR '']'' # r)" "spaces ws"
    "p_states p = True # st" "dom_ref_stack (p_sax p) = e # dom_ref_stack d0" "dom_root (p_sax p) = put (JArray ys)"
  have "number_stop (ws @ CHR '']'' # r)" using p(4) by simp
  from element_step[OF assms this p(1-3,5-7)] obtain q where
    q: "dom_loop strtod (get_token strtod p) = dom_loop strtod (q\<lparr>p_skip := True\<rparr>)" "lx_came (p_lexer q) (ws @ CHR '']'' # r)"
    "p_states q = True # st" "dom_root (p_sax q) = put (JArray (ys @ [x]))" "dom_ref_stack (p_sax q) = e # dom_ref_stack d0" .
  from container_close[OF q(2) p(4) q(5) _ q(3), of strtod] q(1,4)
  show "\<exists>q. dom_loop strtod (get_token strtod p) = dom_loop strtod (q\<lparr>p_skip := True\<rparr>) \<and>
           lx_came (p_lexer q) r \<and> p_states q = st \<and>
           dom_root (p_sax q) = put (JArray (ys @ [x])) \<and> dom_ref_stack (p_sax q) = dom_ref_stack d0" by auto
qed

lemma reads_more_elements:
  assumes "reads strtod x t" "spaces ws'" "reads_elements strtod xs t'"
  shows "reads_elements strtod (x # xs) (t @ ws' @ '','' @ t')"
  unfolding reads_elements_def
proof (intro allI impI)
  fix st d0 e "put" ws r ys and p :: "dom parser"
  assume p: "placed st d0 e put" "\<not> p_skip p" "lx_at (p_lexer p) ((t @ ws' @ '','' @ t') @ ws @ CHR '']'' # r)"
    "spaces ws" "p_states p = True # st" "dom_ref_stack (p_sax p) = e # dom_ref_stack d0"
    "dom_root (p_sax p) = put (JArray ys)"
  let ?rest = "t' @ ws @ CHR '']'' # r"
  have "number_stop (ws' @ CHR '','' # ?rest)" "lx_at (p_lexer p) (t @ ws' @ CHR '','' # ?rest)"
    using p(3) assms(2) by simp_all
  from element_step[OF assms(1) this(1) p(1,2) this(2) p(5-7)] obtain q where
    q: "dom_loop strtod (get_token strtod p) = dom_loop strtod (q\<lparr>p_skip := True\<rparr>)" "lx_came (p_lexer q) (ws' @ CHR '','' # ?rest)"
    "p_states q = True # st" "dom_root (p_sax q) = put (JArray (ys @ [x]))" "dom_ref_stack (p_sax q) = e # dom_ref_stack d0" .
  from array_comma[OF q(2) assms(2) q(3), of strtod] obtain q' where
    q': "dom_loop strtod (q\<lparr>p_skip := True\<rparr>) = dom_loop strtod (get_token strtod q')" "lx_at (p_lexer q') ?rest"
    "p_states q' = True # st" "\<not> p_skip q'" "p_sax q' = p_sax q" by (auto simp: lx_came_def)
  from assms(3)[unfolded reads_elements_def, rule_format, OF p(1) q'(4,2) p(4) q'(3), of "ys @ [x]"] q(1,4,5) q'(1,5)
  show "\<exists>q. dom_loop strtod (get_token strtod p) = dom_loop strtod (q\<lparr>p_skip := True\<rparr>) \<and>
           lx_came (p_lexer q) r \<and> p_states q = st \<and>
           dom_root (p_sax q) = put (JArray (ys @ x # xs)) \<and> dom_ref_stack (p_sax q) = dom_ref_stack d0" by auto
qed

text \<open>Opening a container.\<close>

lemma dom_start_step:
  assumes "placed st d e put" "p_sax p = d" "(ev, v) \<in> {(SaxStartArray, JArray []), (SaxStartObject, JObject [])}"
  shows "sax_emit json_sax_dom_parser ev p k =
           k (p\<lparr>p_sax := d\<lparr>dom_root := put v, dom_ref_stack := e # dom_ref_stack d\<rparr>\<rparr>)"
  using assms by (auto simp: sax_emit_def json_sax_dom_parser_def dom_start_def placed_def)

lemma opens_bracket: "opens strtod (CHR ''['' # t)" "opens strtod (CHR ''{'' # t)"
  using scan_punctuation[of _ "CHR ''[''" _ begin_array strtod] scan_punctuation[of _ "CHR ''{''" _ begin_object strtod]
  by (fastforce simp: opens_def)+

lemma array_start:
  assumes "lx_at (p_lexer p) (CHR ''['' # t)" "placed (p_states p) (p_sax p) e put"
  defines "d \<equiv> (p_sax p)\<lparr>dom_root := put (JArray []), dom_ref_stack := e # dom_ref_stack (p_sax p)\<rparr>"
  obtains p1 where "lx_at (p_lexer p1) t" "p_sax p1 = d" "p_states p1 = p_states p" "p_skip p1 = p_skip p"
    "parse_value strtod json_sax_dom_parser (get_token strtod p) =
      (if p_last_token (get_token strtod p1) = end_array
       then sax_emit json_sax_dom_parser SaxEndArray (get_token strtod p1) (\<lambda>p3. Inr (Fall p3))
       else Inr (Continue (get_token strtod (p1\<lparr>p_states := True # p_states p\<rparr>))))"
proof -
  from assms(1) scan_punctuation[of "p_lexer p" "CHR ''[''" t begin_array strtod] obtain lx where
    scan: "scan strtod (p_lexer p) = (begin_array, lx)" "lx_came lx t" by auto
  let ?p1 = "(get_token strtod p)\<lparr>p_sax := d\<rparr>"
  have "parse_value strtod json_sax_dom_parser (get_token strtod p) =
      (if p_last_token (get_token strtod ?p1) = end_array
       then sax_emit json_sax_dom_parser SaxEndArray (get_token strtod ?p1) (\<lambda>p3. Inr (Fall p3))
       else Inr (Continue (get_token strtod (?p1\<lparr>p_states := True # p_states p\<rparr>))))"
    using tokenD(1)[OF scan(1)] dom_start_step[OF assms(2), of "get_token strtod p" SaxStartArray "JArray []"]
    by (simp add: parse_value_def Let_def d_def)
  with tokenD[OF scan(1)] scan(2) that[of ?p1] show ?thesis by (simp add: lx_came_def)
qed

lemma reads_no_elements:
  assumes "spaces ws"
  shows "reads strtod (JArray []) (CHR ''['' # ws @ '']'')"
  unfolding reads_def
proof (intro conjI opens_bracket allI impI)
  fix p :: "dom parser" and e "put" r
  assume p: "\<not> p_skip p" "lx_at (p_lexer p) ((CHR ''['' # ws @ '']'') @ r)" "number_stop r"
    "placed (p_states p) (p_sax p) e put"
  from p(2) have "lx_at (p_lexer p) (CHR ''['' # ws @ CHR '']'' # r)" by simp
  from array_start[OF this p(4), of strtod] obtain p1 where p1: "lx_at (p_lexer p1) (ws @ CHR '']'' # r)"
    "p_sax p1 = (p_sax p)\<lparr>dom_root := put (JArray []), dom_ref_stack := e # dom_ref_stack (p_sax p)\<rparr>"
    "p_states p1 = p_states p" "p_skip p1 = p_skip p"
    "parse_value strtod json_sax_dom_parser (get_token strtod p) =
      (if p_last_token (get_token strtod p1) = end_array
       then sax_emit json_sax_dom_parser SaxEndArray (get_token strtod p1) (\<lambda>p3. Inr (Fall p3))
       else Inr (Continue (get_token strtod (p1\<lparr>p_states := True # p_states p\<rparr>))))" .
  from scan_spaced_punctuation[OF p1(1) assms, of end_array strtod] obtain lx where
    close: "scan strtod (p_lexer p1) = (end_array, lx)" "lx_came lx r" by auto
  let ?q = "(get_token strtod p1)\<lparr>p_sax := (p_sax p1)\<lparr>dom_ref_stack := dom_ref_stack (p_sax p)\<rparr>\<rparr>"
  have "parse_value strtod json_sax_dom_parser (get_token strtod p) = Inr (Fall ?q)"
    using p1(5) tokenD[OF close(1)] dom_end_step[OF refl, of "get_token strtod p1" e "dom_ref_stack (p_sax p)" SaxEndArray] p1(2)
    by simp
  from loop_fall[OF this] p(1) tokenD[OF close(1)] close(2) p1(2-4)
  show "\<exists>q. dom_loop strtod (get_token strtod p) = dom_loop strtod (q\<lparr>p_skip := True\<rparr>) \<and>
             lx_came (p_lexer q) r \<and> p_states q = p_states p \<and>
             dom_root (p_sax q) = put (JArray []) \<and> dom_ref_stack (p_sax q) = dom_ref_stack (p_sax p)"
    by (intro exI[of _ ?q]) simp
qed

lemma reads_array:
  assumes "reads_elements strtod xs t" "opens strtod t" "spaces ws"
  shows "reads strtod (JArray xs) (CHR ''['' # t @ ws @ '']'')"
  unfolding reads_def
proof (intro conjI opens_bracket allI impI)
  fix p :: "dom parser" and e "put" r
  assume p: "\<not> p_skip p" "lx_at (p_lexer p) ((CHR ''['' # t @ ws @ '']'') @ r)" "number_stop r"
    "placed (p_states p) (p_sax p) e put"
  from p(2) have "lx_at (p_lexer p) (CHR ''['' # t @ ws @ CHR '']'' # r)" by simp
  from array_start[OF this p(4), of strtod] obtain p1 where p1: "lx_at (p_lexer p1) (t @ ws @ CHR '']'' # r)"
    "p_sax p1 = (p_sax p)\<lparr>dom_root := put (JArray []), dom_ref_stack := e # dom_ref_stack (p_sax p)\<rparr>"
    "p_states p1 = p_states p" "p_skip p1 = p_skip p"
    "parse_value strtod json_sax_dom_parser (get_token strtod p) =
      (if p_last_token (get_token strtod p1) = end_array
       then sax_emit json_sax_dom_parser SaxEndArray (get_token strtod p1) (\<lambda>p3. Inr (Fall p3))
       else Inr (Continue (get_token strtod (p1\<lparr>p_states := True # p_states p\<rparr>))))" .
  have "number_stop (ws @ CHR '']'' # r)" using assms(3) by simp
  with p1(1) assms(2) have "p_last_token (get_token strtod p1) \<noteq> end_array"
    by (auto simp: opens_def last_token_scan)
  with p1(5) p(1) have "parse_iteration strtod json_sax_dom_parser (get_token strtod p) =
      Inr (Continue (get_token strtod (p1\<lparr>p_states := True # p_states p\<rparr>)))"
    by (simp add: parse_iteration_def)
  from loop_continue[OF this] p1 p(1)
    assms(1)[unfolded reads_elements_def, rule_format, OF p(4), of "p1\<lparr>p_states := True # p_states p\<rparr>" ws r "[]"] assms(3)
  show "\<exists>q. dom_loop strtod (get_token strtod p) = dom_loop strtod (q\<lparr>p_skip := True\<rparr>) \<and>
             lx_came (p_lexer q) r \<and> p_states q = p_states p \<and>
             dom_root (p_sax q) = put (JArray xs) \<and> dom_ref_stack (p_sax q) = dom_ref_stack (p_sax p)"
    by simp
qed

section \<open>Objects\<close>

lemma placed_member:
  assumes "placed st d0 e put" "dom_ref_stack d = e # dom_ref_stack d0" "dom_root d = put (JObject ms)"
    "dom_object_element d = Some (e @ [AtKey k])" "map_find k ms \<noteq> None"
  shows "placed (False # st) d (e @ [AtKey k]) (\<lambda>v. put (JObject (map_put k v ms)))"
proof -
  from assms(1) have p: "\<And>v. get_at e (put v) = Some v" "\<And>v w. put_at e w (put v) = put w"
    "\<And>v. stack_ok st (dom_ref_stack d0) (put v)" "list_all (below e) (dom_ref_stack d0)"
    by (simp_all add: placed_def)
  show ?thesis
    unfolding placed_def
    using p assms(2-) put_at_append[OF p(1)]
    by (auto simp: handle_value_def get_at_append below_all[OF below_snoc])
qed

lemma map_put_last: "(\<And>k'. k' \<in> set (std_keys ms) \<Longrightarrow> k' < k) \<Longrightarrow> map_put k v ms = ms @ [(k, v)]"
proof (induction ms)
  case (Cons p ms)
  obtain a b where "p = (a, b)" by (cases p)
  with Cons show ?case by (auto dest: order_less_asym)
qed simp

lemma map_index_last:
  assumes "\<And>k'. k' \<in> set (std_keys ms) \<Longrightarrow> k' < k"
  shows "snd (map_index d k ms) = ms @ [(k, d)]"
proof -
  have "map_find k ms = None" using assms by (force simp: map_find_None_iff)
  moreover have "map_put k d ms = ms @ [(k, d)]" using assms by (rule map_put_last)
  ultimately show ?thesis by (simp add: map_index_def)
qed

text \<open>
  A key is followed by what tells the loop where it is: the first one enters the object, the others
  leave the states as they are.
\<close>

definition enters :: "(dom parser \<Rightarrow> dom parser) \<Rightarrow> bool list \<Rightarrow> dom parser \<Rightarrow> bool" where
  "enters enter st p \<longleftrightarrow>
     (\<forall>q. (p_states q = p_states p \<longrightarrow> p_states (enter q) = False # st) \<and> p_sax (enter q) = p_sax q \<and>
          p_skip (enter q) = p_skip q \<and> p_lexer (enter q) = p_lexer q)"

text \<open>A key: the entry is made, and the value is expected there.\<close>

lemma key_step:
  assumes "placed st d0 e put" "lx_at (p_lexer p) (ws @ tk @ ws' @ CHR '':'' # r)" "spaces ws" "literal k tk" "spaces ws'"
    and "dom_ref_stack (p_sax p) = e # dom_ref_stack d0" "dom_root (p_sax p) = put (JObject ms)"
    and "\<And>k'. k' \<in> set (std_keys ms) \<Longrightarrow> k' < k" "\<not> p_skip p" "enters enter st p"
  shows "\<exists>q. parse_key strtod json_sax_dom_parser enter (get_token strtod p) = Inr (Continue (get_token strtod q)) \<and>
           lx_came (p_lexer q) r \<and> p_states q = False # st \<and> \<not> p_skip q \<and>
           dom_ref_stack (p_sax q) = e # dom_ref_stack d0 \<and>
           placed (False # st) (p_sax q) (e @ [AtKey k]) (\<lambda>v. put (JObject (ms @ [(k, v)])))"
proof -
  from scan_spaced_literal[OF assms(2-4), of strtod] obtain lx where
    scan: "scan strtod (p_lexer p) = (value_string, lx)" "lx_came lx (ws' @ CHR '':'' # r)" "lx_token_buffer lx = k" by blast
  let ?d = "(p_sax p)\<lparr>dom_root := put (JObject (ms @ [(k, JNull)])), dom_object_element := Some (e @ [AtKey k])\<rparr>"
  let ?p1 = "(get_token strtod p)\<lparr>p_sax := ?d\<rparr>"
  from scan_spaced_punctuation[of lx ws' "CHR '':''" r name_separator strtod] scan(2) tokenD[OF scan(1)] assms(5) obtain lx' where
    colon: "scan strtod (p_lexer ?p1) = (name_separator, lx')" "lx_came lx' r" by (auto simp: lx_came_def)
  from assms(1) have "get_at e (put (JObject ms)) = Some (JObject ms)" "\<And>w. put_at e w (put (JObject ms)) = put w"
    by (simp_all add: placed_def)
  moreover have "snd (map_index JNull k ms) = ms @ [(k, JNull)]" using assms(8) by (rule map_index_last)
  ultimately have "dom_key k (p_sax p) = Inr (True, ?d)"
    using assms(6,7) by (simp add: dom_key_def)
  then have "parse_key strtod json_sax_dom_parser enter (get_token strtod p) =
      Inr (Continue (get_token strtod (enter (get_token strtod ?p1))))"
    using tokenD[OF scan(1)] tokenD[OF colon(1)] scan(3)
    by (simp add: parse_key_def sax_emit_def json_sax_dom_parser_def Let_def)
  moreover have "placed (False # st) ?d (e @ [AtKey k]) (\<lambda>v. put (JObject (map_put k v (ms @ [(k, JNull)]))))"
    by (rule placed_member[OF assms(1)]) (use assms(6) in \<open>simp_all add: map_find_def\<close>)
  moreover have "map_put k v (ms @ [(k, JNull)]) = ms @ [(k, v)]" for v
    using map_put_put[of k v JNull ms] map_put_last[of ms k] assms(8) by metis
  ultimately show ?thesis
    using assms(6,9,10) tokenD[OF colon(1)] colon(2)
    by (intro exI[of _ "enter (get_token strtod ?p1)"]) (simp add: enters_def)
qed

text \<open>A member: key and value.\<close>

lemma member_step:
  assumes "reads strtod v t" "number_stop r"
    and "placed st d0 e put" "lx_at (p_lexer p) (ws @ tk @ ws' @ CHR '':'' # t @ r)" "spaces ws" "literal k tk" "spaces ws'"
    and "dom_ref_stack (p_sax p) = e # dom_ref_stack d0" "dom_root (p_sax p) = put (JObject ms)"
    and "\<And>k'. k' \<in> set (std_keys ms) \<Longrightarrow> k' < k" "\<not> p_skip p" "enters enter st p"
  obtains q0 q where "parse_key strtod json_sax_dom_parser enter (get_token strtod p) = Inr (Continue q0)"
    "dom_loop strtod q0 = dom_loop strtod (q\<lparr>p_skip := True\<rparr>)" "lx_came (p_lexer q) r" "p_states q = False # st"
    "dom_root (p_sax q) = put (JObject (ms @ [(k, v)]))" "dom_ref_stack (p_sax q) = e # dom_ref_stack d0"
proof -
  from key_step[OF assms(3-12), of strtod] obtain q0 where
    q0: "parse_key strtod json_sax_dom_parser enter (get_token strtod p) = Inr (Continue (get_token strtod q0))"
    "lx_at (p_lexer q0) (t @ r)" "p_states q0 = False # st" "\<not> p_skip q0" "dom_ref_stack (p_sax q0) = e # dom_ref_stack d0"
    "placed (False # st) (p_sax q0) (e @ [AtKey k]) (\<lambda>v. put (JObject (ms @ [(k, v)])))" by (auto simp: lx_came_def)
  from q0(3,6) have "placed (p_states q0) (p_sax q0) (e @ [AtKey k]) (\<lambda>v. put (JObject (ms @ [(k, v)])))" by simp
  from readsD[OF assms(1) q0(4,2) assms(2) this] q0(3,5) obtain q where
    "dom_loop strtod (get_token strtod q0) = dom_loop strtod (q\<lparr>p_skip := True\<rparr>)" "lx_came (p_lexer q) r"
    "p_states q = False # st" "dom_root (p_sax q) = put (JObject (ms @ [(k, v)]))"
    "dom_ref_stack (p_sax q) = e # dom_ref_stack d0" by metis
  from that[OF q0(1) this] show ?thesis .
qed

lemma std_map_below: "std_map (ms @ (k, v) # m) \<Longrightarrow> k' \<in> set (std_keys ms) \<Longrightarrow> k' < k"
  by (induction ms) auto

text \<open>The members of an object, up to its end, are added behind those that are there.\<close>

definition reads_members :: "(string \<Rightarrow> 64 word) \<Rightarrow> (string \<times> json) list \<Rightarrow> string \<Rightarrow> bool" where
  "reads_members strtod m t \<longleftrightarrow>
     (\<forall>st d0 e put p ws r ms enter.
        placed st d0 e put \<longrightarrow> \<not> p_skip p \<longrightarrow> lx_at (p_lexer p) (t @ ws @ CHR ''}'' # r) \<longrightarrow> spaces ws \<longrightarrow>
        enters enter st p \<longrightarrow> dom_ref_stack (p_sax p) = e # dom_ref_stack d0 \<longrightarrow>
        dom_root (p_sax p) = put (JObject ms) \<longrightarrow> std_map (ms @ m) \<longrightarrow>
        p_last_token (get_token strtod p) = value_string \<and>
        (\<exists>q0 q. parse_key strtod json_sax_dom_parser enter (get_token strtod p) = Inr (Continue q0) \<and>
           dom_loop strtod q0 = dom_loop strtod (q\<lparr>p_skip := True\<rparr>) \<and>
           lx_came (p_lexer q) r \<and> p_states q = st \<and>
           dom_root (p_sax q) = put (JObject (ms @ m)) \<and> dom_ref_stack (p_sax q) = dom_ref_stack d0))"

lemma key_token:
  assumes "lx_at (p_lexer p) (ws @ tk @ r)" "spaces ws" "literal k tk"
  shows "p_last_token (get_token strtod p) = value_string"
  using scan_spaced_literal[OF assms, of strtod] by (auto simp: last_token_scan)

lemma reads_last_member:
  assumes "spaces ws1" "literal k tk" "spaces ws2" "reads strtod v t"
  shows "reads_members strtod [(k, v)] (ws1 @ tk @ ws2 @ '':'' @ t)"
  unfolding reads_members_def
proof (intro allI impI)
  fix st d0 e "put" ws r ms enter and p :: "dom parser"
  assume p: "placed st d0 e put" "\<not> p_skip p" "lx_at (p_lexer p) ((ws1 @ tk @ ws2 @ '':'' @ t) @ ws @ CHR ''}'' # r)"
    "spaces ws" "enters enter st p" "dom_ref_stack (p_sax p) = e # dom_ref_stack d0" "dom_root (p_sax p) = put (JObject ms)"
    "std_map (ms @ [(k, v)])"
  have below: "\<And>k'. k' \<in> set (std_keys ms) \<Longrightarrow> k' < k" using std_map_below[OF p(8)] .
  have at: "lx_at (p_lexer p) (ws1 @ tk @ ws2 @ CHR '':'' # t @ ws @ CHR ''}'' # r)" "number_stop (ws @ CHR ''}'' # r)"
    using p(3,4) by simp_all
  from member_step[OF assms(4) at(2) p(1) at(1) assms(1-3) p(6,7) below p(2,5)] obtain q0 q where
    q: "parse_key strtod json_sax_dom_parser enter (get_token strtod p) = Inr (Continue q0)"
    "dom_loop strtod q0 = dom_loop strtod (q\<lparr>p_skip := True\<rparr>)" "lx_came (p_lexer q) (ws @ CHR ''}'' # r)"
    "p_states q = False # st" "dom_root (p_sax q) = put (JObject (ms @ [(k, v)]))" "dom_ref_stack (p_sax q) = e # dom_ref_stack d0"
    by blast
  from container_close[OF q(3) p(4) q(6) _ q(4), of strtod] q(1,2,5) key_token[OF at(1) assms(1,2), of strtod]
  show "p_last_token (get_token strtod p) = value_string \<and>
      (\<exists>q0 q. parse_key strtod json_sax_dom_parser enter (get_token strtod p) = Inr (Continue q0) \<and>
           dom_loop strtod q0 = dom_loop strtod (q\<lparr>p_skip := True\<rparr>) \<and> lx_came (p_lexer q) r \<and> p_states q = st \<and>
           dom_root (p_sax q) = put (JObject (ms @ [(k, v)])) \<and> dom_ref_stack (p_sax q) = dom_ref_stack d0)" by auto
qed

lemma reads_more_members:
  assumes "spaces ws1" "literal k tk" "spaces ws2" "reads strtod v t" "spaces ws3" "reads_members strtod m t'"
  shows "reads_members strtod ((k, v) # m) (ws1 @ tk @ ws2 @ '':'' @ t @ ws3 @ '','' @ t')"
  unfolding reads_members_def
proof (intro allI impI)
  fix st d0 e "put" ws r ms enter and p :: "dom parser"
  let ?rest = "t' @ ws @ CHR ''}'' # r"
  assume p: "placed st d0 e put" "\<not> p_skip p"
    "lx_at (p_lexer p) ((ws1 @ tk @ ws2 @ '':'' @ t @ ws3 @ '','' @ t') @ ws @ CHR ''}'' # r)"
    "spaces ws" "enters enter st p" "dom_ref_stack (p_sax p) = e # dom_ref_stack d0" "dom_root (p_sax p) = put (JObject ms)"
    "std_map (ms @ (k, v) # m)"
  have below: "\<And>k'. k' \<in> set (std_keys ms) \<Longrightarrow> k' < k" using std_map_below[OF p(8)] .
  have at: "lx_at (p_lexer p) (ws1 @ tk @ ws2 @ CHR '':'' # t @ ws3 @ CHR '','' # ?rest)" "number_stop (ws3 @ CHR '','' # ?rest)"
    using p(3) assms(5) by simp_all
  from member_step[OF assms(4) at(2) p(1) at(1) assms(1-3) p(6,7) below p(2,5)] obtain q0 q where
    q: "parse_key strtod json_sax_dom_parser enter (get_token strtod p) = Inr (Continue q0)"
    "dom_loop strtod q0 = dom_loop strtod (q\<lparr>p_skip := True\<rparr>)" "lx_came (p_lexer q) (ws3 @ CHR '','' # ?rest)"
    "p_states q = False # st" "dom_root (p_sax q) = put (JObject (ms @ [(k, v)]))" "dom_ref_stack (p_sax q) = e # dom_ref_stack d0"
    by blast
  let ?q = "get_token strtod (q\<lparr>p_skip := False\<rparr>)"
  from scan_spaced_punctuation[OF _ assms(5), of "p_lexer q" "CHR '',''" ?rest value_separator strtod] q(3)
  obtain lx where scan: "scan strtod (p_lexer (q\<lparr>p_skip := False\<rparr>)) = (value_separator, lx)" "lx_came lx ?rest"
    by (auto simp: lx_came_def)
  have q': "\<not> p_skip ?q" "lx_at (p_lexer ?q) ?rest" "enters (\<lambda>p. p) st ?q"
    "dom_ref_stack (p_sax ?q) = e # dom_ref_stack d0" "dom_root (p_sax ?q) = put (JObject (ms @ [(k, v)]))"
    using tokenD[OF scan(1)] scan(2) q(4-6) by (simp_all add: lx_came_def enters_def)
  have "std_map ((ms @ [(k, v)]) @ m)" using p(8) by simp
  from assms(6)[unfolded reads_members_def, rule_format, OF p(1) q'(1,2) p(4) q'(3,4,5) this] obtain q1 q2 where
    m: "parse_key strtod json_sax_dom_parser (\<lambda>p. p) (get_token strtod ?q) = Inr (Continue q1)"
    "dom_loop strtod q1 = dom_loop strtod (q2\<lparr>p_skip := True\<rparr>)" "lx_came (p_lexer q2) r" "p_states q2 = st"
    "dom_root (p_sax q2) = put (JObject ((ms @ [(k, v)]) @ m))" "dom_ref_stack (p_sax q2) = dom_ref_stack d0" by blast
  have "parse_iteration strtod json_sax_dom_parser (q\<lparr>p_skip := True\<rparr>) = Inr (Continue q1)"
    using tokenD[OF scan(1)] q(4) m(1) by (simp add: parse_iteration_def parse_state_def Let_def)
  from loop_continue[OF this] q(1,2) m key_token[OF at(1) assms(1,2), of strtod]
  show "p_last_token (get_token strtod p) = value_string \<and>
      (\<exists>q0 q. parse_key strtod json_sax_dom_parser enter (get_token strtod p) = Inr (Continue q0) \<and>
           dom_loop strtod q0 = dom_loop strtod (q\<lparr>p_skip := True\<rparr>) \<and> lx_came (p_lexer q) r \<and> p_states q = st \<and>
           dom_root (p_sax q) = put (JObject (ms @ (k, v) # m)) \<and> dom_ref_stack (p_sax q) = dom_ref_stack d0)" by auto
qed

lemma object_start:
  assumes "lx_at (p_lexer p) (CHR ''{'' # t)" "placed (p_states p) (p_sax p) e put"
  defines "d \<equiv> (p_sax p)\<lparr>dom_root := put (JObject []), dom_ref_stack := e # dom_ref_stack (p_sax p)\<rparr>"
  obtains p1 where "lx_at (p_lexer p1) t" "p_sax p1 = d" "p_states p1 = p_states p" "p_skip p1 = p_skip p"
    "parse_value strtod json_sax_dom_parser (get_token strtod p) =
      (if p_last_token (get_token strtod p1) = end_object
       then sax_emit json_sax_dom_parser SaxEndObject (get_token strtod p1) (\<lambda>p3. Inr (Fall p3))
       else parse_key strtod json_sax_dom_parser (\<lambda>p3. p3\<lparr>p_states := False # p_states p3\<rparr>) (get_token strtod p1))"
proof -
  from assms(1) scan_punctuation[of "p_lexer p" "CHR ''{''" t begin_object strtod] obtain lx where
    scan: "scan strtod (p_lexer p) = (begin_object, lx)" "lx_came lx t" by auto
  let ?p1 = "(get_token strtod p)\<lparr>p_sax := d\<rparr>"
  have "parse_value strtod json_sax_dom_parser (get_token strtod p) =
      (if p_last_token (get_token strtod ?p1) = end_object
       then sax_emit json_sax_dom_parser SaxEndObject (get_token strtod ?p1) (\<lambda>p3. Inr (Fall p3))
       else parse_key strtod json_sax_dom_parser (\<lambda>p3. p3\<lparr>p_states := False # p_states p3\<rparr>) (get_token strtod ?p1))"
    using tokenD(1)[OF scan(1)] dom_start_step[OF assms(2), of "get_token strtod p" SaxStartObject "JObject []"]
    by (simp add: parse_value_def Let_def d_def)
  with tokenD[OF scan(1)] scan(2) that[of ?p1] show ?thesis by (simp add: lx_came_def)
qed

lemma reads_no_members:
  assumes "spaces ws"
  shows "reads strtod (JObject []) (CHR ''{'' # ws @ ''}'')"
  unfolding reads_def
proof (intro conjI opens_bracket allI impI)
  fix p :: "dom parser" and e "put" r
  assume p: "\<not> p_skip p" "lx_at (p_lexer p) ((CHR ''{'' # ws @ ''}'') @ r)" "number_stop r"
    "placed (p_states p) (p_sax p) e put"
  from p(2) have "lx_at (p_lexer p) (CHR ''{'' # ws @ CHR ''}'' # r)" by simp
  from object_start[OF this p(4), of strtod] obtain p1 where p1: "lx_at (p_lexer p1) (ws @ CHR ''}'' # r)"
    "p_sax p1 = (p_sax p)\<lparr>dom_root := put (JObject []), dom_ref_stack := e # dom_ref_stack (p_sax p)\<rparr>"
    "p_states p1 = p_states p" "p_skip p1 = p_skip p"
    "parse_value strtod json_sax_dom_parser (get_token strtod p) =
      (if p_last_token (get_token strtod p1) = end_object
       then sax_emit json_sax_dom_parser SaxEndObject (get_token strtod p1) (\<lambda>p3. Inr (Fall p3))
       else parse_key strtod json_sax_dom_parser (\<lambda>p3. p3\<lparr>p_states := False # p_states p3\<rparr>) (get_token strtod p1))" .
  from scan_spaced_punctuation[OF p1(1) assms, of end_object strtod] obtain lx where
    close: "scan strtod (p_lexer p1) = (end_object, lx)" "lx_came lx r" by auto
  let ?q = "(get_token strtod p1)\<lparr>p_sax := (p_sax p1)\<lparr>dom_ref_stack := dom_ref_stack (p_sax p)\<rparr>\<rparr>"
  have "parse_value strtod json_sax_dom_parser (get_token strtod p) = Inr (Fall ?q)"
    using p1(5) tokenD[OF close(1)] dom_end_step[OF refl, of "get_token strtod p1" e "dom_ref_stack (p_sax p)" SaxEndObject] p1(2)
    by simp
  from loop_fall[OF this] p(1) tokenD[OF close(1)] close(2) p1(2-4)
  show "\<exists>q. dom_loop strtod (get_token strtod p) = dom_loop strtod (q\<lparr>p_skip := True\<rparr>) \<and>
             lx_came (p_lexer q) r \<and> p_states q = p_states p \<and>
             dom_root (p_sax q) = put (JObject []) \<and> dom_ref_stack (p_sax q) = dom_ref_stack (p_sax p)"
    by (intro exI[of _ ?q]) simp
qed

lemma reads_object:
  assumes "reads_members strtod m t" "std_map m" "spaces ws"
  shows "reads strtod (JObject m) (CHR ''{'' # t @ ws @ ''}'')"
  unfolding reads_def
proof (intro conjI opens_bracket allI impI)
  fix p :: "dom parser" and e "put" r
  assume p: "\<not> p_skip p" "lx_at (p_lexer p) ((CHR ''{'' # t @ ws @ ''}'') @ r)" "number_stop r"
    "placed (p_states p) (p_sax p) e put"
  from p(2) have "lx_at (p_lexer p) (CHR ''{'' # t @ ws @ CHR ''}'' # r)" by simp
  from object_start[OF this p(4), of strtod] obtain p1 where p1: "lx_at (p_lexer p1) (t @ ws @ CHR ''}'' # r)"
    "p_sax p1 = (p_sax p)\<lparr>dom_root := put (JObject []), dom_ref_stack := e # dom_ref_stack (p_sax p)\<rparr>"
    "p_states p1 = p_states p" "p_skip p1 = p_skip p"
    "parse_value strtod json_sax_dom_parser (get_token strtod p) =
      (if p_last_token (get_token strtod p1) = end_object
       then sax_emit json_sax_dom_parser SaxEndObject (get_token strtod p1) (\<lambda>p3. Inr (Fall p3))
       else parse_key strtod json_sax_dom_parser (\<lambda>p3. p3\<lparr>p_states := False # p_states p3\<rparr>) (get_token strtod p1))" .
  have "enters (\<lambda>p3. p3\<lparr>p_states := False # p_states p3\<rparr>) (p_states p) p1" using p1(3) by (simp add: enters_def)
  from assms(1)[unfolded reads_members_def, rule_format, OF p(4) _ p1(1) assms(3) this, of "[]"] p1(2,4) p(1) assms(2)
  obtain q0 q where q: "p_last_token (get_token strtod p1) = value_string"
    "parse_key strtod json_sax_dom_parser (\<lambda>p3. p3\<lparr>p_states := False # p_states p3\<rparr>) (get_token strtod p1) = Inr (Continue q0)"
    "dom_loop strtod q0 = dom_loop strtod (q\<lparr>p_skip := True\<rparr>)" "lx_came (p_lexer q) r" "p_states q = p_states p"
    "dom_root (p_sax q) = put (JObject m)" "dom_ref_stack (p_sax q) = dom_ref_stack (p_sax p)" by auto
  have "parse_iteration strtod json_sax_dom_parser (get_token strtod p) = Inr (Continue q0)"
    using p1(5) q(1,2) p(1) by (simp add: parse_iteration_def)
  from loop_continue[OF this] q(3-)
  show "\<exists>q. dom_loop strtod (get_token strtod p) = dom_loop strtod (q\<lparr>p_skip := True\<rparr>) \<and>
             lx_came (p_lexer q) r \<and> p_states q = p_states p \<and>
             dom_root (p_sax q) = put (JObject m) \<and> dom_ref_stack (p_sax q) = dom_ref_stack (p_sax p)"
    by auto
qed

section \<open>All texts\<close>

lemma texts_read:
  "json_texts j t \<Longrightarrow> json_faithful strtod j \<Longrightarrow> reads strtod j t"
  "elements_texts xs t \<Longrightarrow> \<forall>x \<in> set xs. json_faithful strtod x \<Longrightarrow> opens strtod t \<and> reads_elements strtod xs t"
  "members_texts m t \<Longrightarrow> \<forall>(k, v) \<in> set m. json_faithful strtod v \<Longrightarrow> reads_members strtod m t"
proof (induction rule: json_texts_elements_texts_members_texts.inducts)
  case (text_elements x t ws xs t')
  then have "reads strtod x t" "reads_elements strtod xs t'" by simp_all
  moreover have "opens strtod (t @ ws @ '','' @ t')"
    by (rule opens_append) (use \<open>reads strtod x t\<close> text_elements(2) in \<open>simp_all add: reads_def\<close>)
  ultimately show ?case using reads_more_elements text_elements(2) by blast
next
  case (text_members ws k tk ws' v t ws'' m t')
  then show ?case by (intro reads_more_members) auto
qed (auto intro: reads_spaces reads_atom reads_string reads_no_elements reads_array reads_no_members reads_object
      reads_last_element reads_last_member[simplified] dest: reads_opens)

end
