(* ===== verification/Json_Layout.thy ===== *)
theory Json_Layout
  imports Json_Reading
begin

text \<open>
  The texts of the serialiser are texts of the grammar, for every indentation by white space and for
  both spellings of string literals; so the parser reads them back. With \<open>ensure_ascii\<close> they consist
  of ASCII characters only.
\<close>

section \<open>The texts of the serialiser\<close>

lemma elements_texts_space: "spaces ws \<Longrightarrow> elements_texts xs t \<Longrightarrow> elements_texts xs (ws @ t)"
proof -
  assume ws: "spaces ws"
  show "elements_texts xs t \<Longrightarrow> elements_texts xs (ws @ t)"
    by (erule elements_texts.cases)
      (use ws in \<open>auto intro: text_element text_space text_elements[OF text_space, simplified]\<close>)
qed

lemma members_texts_space: "spaces ws \<Longrightarrow> members_texts m t \<Longrightarrow> members_texts m (ws @ t)"
proof -
  assume ws: "spaces ws"
  have both: "spaces (ws @ ws1)" if "spaces ws1" for ws1 using ws that by simp
  show "members_texts m t \<Longrightarrow> members_texts m (ws @ t)"
    by (erule members_texts.cases)
      (use text_member[OF both] text_members[OF both] in \<open>auto simp: append.assoc\<close>)
qed

definition lay_readable :: "layout \<Rightarrow> bool" where
  "lay_readable L \<longleftrightarrow> (lay_pretty L \<longrightarrow> is_json_space (lay_char L)) \<and> (\<forall>s. utf8_valid s \<longrightarrow> literal s (lay_quote L s))"

lemma lay_spaces:
  "lay_readable L \<Longrightarrow> spaces (indentation L n)" "spaces (line_break L)"
  by (auto simp: lay_readable_def indentation_def indent_text_def line_break_def is_json_space_def list_all_iff)

lemma layout_atom: "json_atom j \<Longrightarrow> layout_text L j n = json_text j"
  by (cases j) auto

lemma atom_is_text: "json_atom j \<Longrightarrow> json_texts j (layout_text L j n)"
  by (simp add: layout_atom text_atom)

lemma layout_is_text:
  "lay_readable L \<Longrightarrow> dumpable j \<Longrightarrow> json_texts j (layout_text L j n)"
  "lay_readable L \<Longrightarrow> \<forall>(k, v) \<in> set m. utf8_valid k \<and> dumpable v \<Longrightarrow> m \<noteq> [] \<Longrightarrow> members_texts m (layout_members L m n)"
  "lay_readable L \<Longrightarrow> \<forall>x \<in> set xs. dumpable x \<Longrightarrow> xs \<noteq> [] \<Longrightarrow> elements_texts xs (layout_elements L xs n)"
proof (induction L j n and L m n and L xs n rule: layout_text_layout_members_layout_elements.induct)
  case (1 L m n)
  show ?case
  proof (cases "m = []")
    case True
    with text_no_members[of "[]"] show ?thesis by simp
  next
    case False
    with "1.IH" "1.prems" have "members_texts m (line_break L @ layout_members L m (deeper L n))"
      by (intro members_texts_space lay_spaces) auto
    from text_object[OF this, of "line_break L @ indentation L n"] lay_spaces[of L] "1.prems"(1) False
    show ?thesis by simp
  qed
next
  case (2 L xs n)
  show ?case
  proof (cases "xs = []")
    case True
    with text_no_elements[of "[]"] show ?thesis by simp
  next
    case False
    with "2.IH" "2.prems" have "elements_texts xs (line_break L @ layout_elements L xs (deeper L n))"
      by (intro elements_texts_space lay_spaces) auto
    from text_array[OF this, of "line_break L @ indentation L n"] lay_spaces[of L] "2.prems"(1) False
    show ?thesis by simp
  qed
next
  case (3 L s n)
  then show ?case by (auto simp: lay_readable_def intro: text_string)
next
  case (10 L k v m n)
  let ?gap = "if lay_pretty L then '' '' else []"
  have key: "spaces (indentation L n)" "literal k (lay_quote L k)" "spaces ([] :: string)" "spaces ?gap"
    using "10.prems" lay_spaces(1)[of L] by (auto simp: lay_readable_def is_json_space_def)
  have v: "json_texts v (?gap @ layout_text L v n)"
    using "10.IH"(1) "10.prems" key(4) by (intro text_space) auto
  show ?case
  proof (cases "m = []")
    case True
    with text_member[OF key(1-3) v] show ?thesis by (simp split: if_splits)
  next
    case False
    with "10.IH"(2) "10.prems" have m: "members_texts m (line_break L @ layout_members L m n)"
      by (intro members_texts_space lay_spaces) auto
    from text_members[OF key(1-3) v key(3) m] False show ?thesis by (simp split: if_splits)
  qed
next
  case (12 L x xs n)
  have x: "json_texts x (indentation L n @ layout_text L x n)"
    using "12.IH"(1) "12.prems" lay_spaces(1) by (intro text_space) auto
  show ?case
  proof (cases "xs = []")
    case True
    with text_element[OF x] show ?thesis by simp
  next
    case False
    with "12.IH"(2) "12.prems" have xs: "elements_texts xs (line_break L @ layout_elements L xs n)"
      by (intro elements_texts_space lay_spaces) auto
    from text_elements[OF x _ xs, of "[]"] False show ?thesis by simp
  qed
qed (auto intro!: atom_is_text simp del: layout_text.simps)

section \<open>Round trip\<close>

lemma fold_emplace_values:
  "(k, v) \<in> set (fold (\<lambda>(k, v). map_emplace k v) kvs m) \<Longrightarrow> (k, v) \<in> set kvs \<union> set m"
proof (induction kvs arbitrary: m)
  case (Cons p kvs)
  obtain k' v' where "p = (k', v')" by (cases p)
  with Cons.IH[of "map_emplace k' v' m"] Cons.prems show ?case
    by (auto simp: map_emplace_def dest!: map_put_values split: option.splits)
qed simp

text \<open>Objects made from a braced list of pairs.\<close>

lemma init_canon:
  assumes "\<forall>(k, v) \<in> set kvs. json_canon v"
  shows "json_canon (json_init (map (\<lambda>(k, v). kv k v) kvs))"
  using assms fold_emplace_std[of "[]" kvs] fold_emplace_values[of _ _ kvs "[]"]
  by (fastforce simp: json_init_pairs)

lemma init_dumpable:
  assumes "\<forall>(k, v) \<in> set kvs. utf8_valid k \<and> dumpable v"
  shows "dumpable (json_init (map (\<lambda>(k, v). kv k v) kvs))"
  using assms fold_emplace_values[of _ _ kvs "[]"] by (fastforce simp: json_init_pairs)

lemma canon_inits:
  "json_canon v \<Longrightarrow> json_canon (json_init [kv k v])"
  "json_canon v \<Longrightarrow> json_canon v' \<Longrightarrow> json_canon (json_init [kv k v, kv k' v'])"
  "json_canon v \<Longrightarrow> json_canon v' \<Longrightarrow> json_canon v'' \<Longrightarrow> json_canon (json_init [kv k v, kv k' v', kv k'' v''])"
  using init_canon[of "[(k, v)]"] init_canon[of "[(k, v), (k', v')]"] init_canon[of "[(k, v), (k', v'), (k'', v'')]"]
  by simp_all

lemma dumpable_inits:
  "utf8_valid k \<Longrightarrow> dumpable v \<Longrightarrow> dumpable (json_init [kv k v])"
  "utf8_valid k \<Longrightarrow> utf8_valid k' \<Longrightarrow> dumpable v \<Longrightarrow> dumpable v' \<Longrightarrow> dumpable (json_init [kv k v, kv k' v'])"
  "utf8_valid k \<Longrightarrow> utf8_valid k' \<Longrightarrow> utf8_valid k'' \<Longrightarrow> dumpable v \<Longrightarrow> dumpable v' \<Longrightarrow> dumpable v'' \<Longrightarrow>
     dumpable (json_init [kv k v, kv k' v', kv k'' v''])"
  using init_dumpable[of "[(k, v)]"] init_dumpable[of "[(k, v), (k', v')]"]
    init_dumpable[of "[(k, v), (k', v'), (k'', v'')]"]
  by simp_all

lemma put_vector_canon: "(\<And>x. json_canon (f x)) \<Longrightarrow> json_canon (put_vector f xs)"
  by (simp add: put_vector_def)

lemma placed_root: "placed [] dom_init [] (\<lambda>v. v)"
  by (simp add: placed_def handle_value_def dom_init_def)

lemma parse_texts:
  assumes "json_texts j t" "json_faithful strtod j"
  shows "json_parse strtod True t = Inr j"
proof -
  let ?p = "\<lparr>p_lexer = lexer_init t, p_last_token = uninitialized, p_states = [],
              p_skip = False, p_sax = dom_init\<rparr>"
  have "lx_at (p_lexer ?p) (t @ [])" by (simp add: lx_at_def lexer_init_def)
  from readsD[OF texts_read(1)[OF assms] _ this, of "[]" "\<lambda>v. v"] placed_root obtain q where
    q: "dom_loop strtod (get_token strtod ?p) = dom_loop strtod (q\<lparr>p_skip := True\<rparr>)" "lx_came (p_lexer q) []"
    "p_states q = []" "dom_root (p_sax q) = j" by auto
  have "dom_loop strtod (q\<lparr>p_skip := True\<rparr>) = Inr (True, q\<lparr>p_skip := False\<rparr>)"
    using q(3) by (simp add: sax_parse_internal.simps parse_iteration_def parse_state_def)
  with q scan_eof[OF q(2), of strtod] show ?thesis
    by (auto simp: json_parse_def parser_init_def last_token_scan)
qed

lemma output_readable: "is_json_space fill \<Longrightarrow> lay_readable (output_layout width fill)"
  by (simp add: lay_readable_def output_layout_def quoted_literal)

lemma dump_readable: "is_json_space ichar \<Longrightarrow> lay_readable (dump_layout indent ichar ea h)"
  using string_text_literal[of h _ ea] by (auto simp: lay_readable_def dump_layout_def) (metis repaired_valid)

lemma parse_text:
  assumes "dumpable j" "json_faithful strtod j"
  shows "json_parse strtod True (json_text j) = Inr j"
proof -
  have "lay_readable (output_layout 0 (CHR '' ''))" by (rule output_readable) (simp add: is_json_space_def)
  from parse_texts[OF layout_is_text(1)[OF this assms(1)] assms(2), of 0] show ?thesis
    by (simp add: compact_text output_layout_def)
qed

lemma canon_parse_text: "dumpable j \<Longrightarrow> json_canon j \<Longrightarrow> json_parse strtod True (json_text j) = Inr j"
  by (rule parse_text[OF _ canon_faithful])

text \<open>\<^verbatim>\<open>strtod\<close> rounds to nearest at a double: the texts of the numbers closer to it than to its neighbours give it.\<close>

definition rounds_nearest :: "(string \<Rightarrow> 64 word) \<Rightarrow> 64 word \<Rightarrow> bool" where
  "rounds_nearest strtod w \<longleftrightarrow>
     (\<forall>ip fp ex. float_parts ip fp ex \<longrightarrow> rounds_to (magnitude w) (text_value (float_string ip fp ex)) \<longrightarrow>
        strtod (sign_text w @ float_string ip fp ex) = w)"

lemma rounds_nearest_back: "isfinite w \<Longrightarrow> rounds_nearest strtod w \<Longrightarrow> strtod (double_text w) = w"
  using double_text_eq[of w] by (auto simp: rounds_nearest_def)

section \<open>ASCII\<close>

lemma ascii_simps [simp]:
  "ascii []" "ascii (c # s) \<longleftrightarrow> byte_of c < 0x80 \<and> ascii s" "ascii (s @ t) \<longleftrightarrow> ascii s \<and> ascii t"
  by (simp_all add: ascii_def)

lemma ascii_concat: "(\<And>x. x \<in> set xs \<Longrightarrow> ascii (f x)) \<Longrightarrow> ascii (concat (map f xs))"
  by (induction xs) simp_all

lemma ascii_replicate: "byte_of c < 0x80 \<Longrightarrow> ascii (replicate n c)"
  by (simp add: ascii_def list_all_iff)

lemma ascii_digits: "list_all dec_digit s \<Longrightarrow> ascii s"
  by (induction s) (auto simp: dec_digit_def ascii_def)

lemma hex_digit_ascii: "n < 16 \<Longrightarrow> byte_of (hex_digit n) < 0x80"
  by (simp add: hex_digit_def)

lemma ascii_unicode: "ascii (escape_unicode w)"
  by (simp add: escape_unicode_def hex4_def Let_def hex_digit_ascii)

lemma ascii_escape_char: "byte_of c < 0x80 \<Longrightarrow> ascii (escape_char c)"
  by (simp add: escape_char_def ascii_unicode)

lemma ascii_ascii_escape: "ascii (ascii_escape cp)"
proof (cases "cp < 0x7F")
  case True
  then have "unat cp < 0x7F" by (simp add: word_less_nat_alt)
  then have "byte_of (char_of (unat cp) :: char) < 0x80" by simp
  with True show ?thesis unfolding ascii_escape_def by (simp add: ascii_escape_char)
next
  case False
  then show ?thesis by (simp add: ascii_escape_def ascii_unicode)
qed

lemma ascii_escaped: "ascii (escaped True s)"
  unfolding escaped_def
  by (rule ascii_concat) (auto simp: item_text_def unit_text_def ascii_ascii_escape split: option.split)

lemma ascii_to_string: "ascii (to_string i)"
  using ascii_digits[OF digits_all] by (simp add: to_string_def)

lemma ascii_float: "float_parts ip fp ex \<Longrightarrow> ascii (float_string ip fp ex)"
proof -
  have "ascii (map digit ds)" if "decimals ds" for ds
    using that by (intro ascii_digits) (auto simp: list_all_iff digit_dec)
  then show "float_parts ip fp ex \<Longrightarrow> ascii (float_string ip fp ex)"
    by (auto simp: float_parts_def float_string_def split: option.splits)
qed

lemma ascii_double: "isfinite w \<Longrightarrow> ascii (double_text w)"
  using double_text_eq[of w] by (auto simp: ascii_float)

lemma ascii_layout:
  assumes "\<And>s. ascii (lay_quote L s)" "lay_pretty L \<Longrightarrow> byte_of (lay_char L) < 0x80"
  shows "ascii (layout_text L j n)" "ascii (layout_members L m n)" "ascii (layout_elements L xs n)"
proof -
  have space: "ascii (line_break L)" "ascii (indentation L k)" for k
    using assms(2) by (auto simp: line_break_def indentation_def indent_text_def ascii_replicate)
  show "ascii (layout_text L j n)" "ascii (layout_members L m n)" "ascii (layout_elements L xs n)"
    using assms(1) space
    by (induction L j n and L m n and L xs n rule: layout_text_layout_members_layout_elements.induct)
      (auto simp: ascii_to_string ascii_double)
qed

section \<open>Properties\<close>

lemma round_trip_text:
  assumes "lay_readable L" "dumpable j" "json_canonical (\<lambda>w. isfinite w \<and> rounds_nearest strtod w) j"
  shows "json_accept strtod (layout_text L j n) = Inr True \<and> json_read strtod (layout_text L j n) = Inr j"
proof -
  have "json_faithful strtod j" using assms(3) by (rule json_canonical_mono) (simp add: rounds_nearest_back)
  with assms(1,2) have parse: "json_parse strtod True (layout_text L j n) = Inr j"
    by (intro parse_texts layout_is_text)
  from strict_parse_read[OF this] parse show ?thesis by (simp add: accept_iff_parse)
qed

text \<open>
  C9. JSON text round trip: a value whose strings are UTF-8, whose objects are maps, whose integers
  are negative where they are of the signed kind (the least one excepted) and whose doubles are finite
  is written to a stream without an exception, compact or indented by up to 1024 characters of white
  space for each level; the text is accepted, and reading it gives the same value, bit for
  bit, if \<^verbatim>\<open>strtod\<close> rounds to nearest. So the serialiser with its buffers, escapes and the Grisu2
  printing of doubles, the lexer, the parser and the DOM handler fit together, for values nested to
  any depth.
\<close>

theorem json_round_trip:
  assumes "dumpable j" "json_canonical (\<lambda>w. isfinite w \<and> rounds_nearest strtod w) j"
    and "width \<le> 1024" "is_json_space fill"
  shows "\<exists>s. json_output width fill junk j = Inr s \<and> json_accept strtod s = Inr True \<and> json_read strtod s = Inr j"
  using json_output_eq(1)[OF assms(3,1)] round_trip_text[OF output_readable[OF assms(4)] assms(1,2)] by blast

text \<open>A function that rounds to nearest at 1.5, and a value with this double.\<close>

definition half_strtod :: "string \<Rightarrow> 64 word" where
  "half_strtod s = (if rounds_to 0x3FF8000000000000 (text_value s) then 0x3FF8000000000000 else 0)"

lemma half_rounds: "rounds_nearest half_strtod 0x3FF8000000000000"
  by (simp add: rounds_nearest_def half_strtod_def)

theorem json_round_trip_witness:
  "\<exists>s. json_output 4 (CHR '' '') 0 (JObject [(''a'', JArray [JNull, JFloat 0x3FF8000000000000, JUnsigned 7]), (''b'', JString ''x'')]) = Inr s \<and>
     json_accept half_strtod s = Inr True \<and>
     json_read half_strtod s = Inr (JObject [(''a'', JArray [JNull, JFloat 0x3FF8000000000000, JUnsigned 7]), (''b'', JString ''x'')])"
  by (rule json_round_trip) (simp_all add: ascii_utf8 ascii_def half_rounds isfinite_def is_json_space_def)

text \<open>
  C10. The member \<^verbatim>\<open>dump\<close> with \<open>ensure_ascii\<close>, under every error handler: the result consists of ASCII
  characters only, and reading it gives the value back. So the code points from \<open>0x7F\<close> on, which are
  decoded from UTF-8 and written as one escape or as a surrogate pair, are put together again by the
  lexer and encoded as the same bytes.
\<close>

theorem ascii_dump_round_trip:
  assumes "dumpable j" "json_canonical (\<lambda>w. isfinite w \<and> rounds_nearest strtod w) j"
    and "indent \<le> 1024" "is_json_space indent_char"
  shows "\<exists>s. json_dump indent indent_char True h junk j = Inr s \<and> ascii s \<and>
           json_accept strtod s = Inr True \<and> json_read strtod s = Inr j"
proof -
  let ?L = "dump_layout indent indent_char True h"
  have "dumpable_by (writable h) j"
    using assms(1) by (induction j) (auto simp: writable_def)
  from json_dump_eq(1)[OF assms(3) this] have "json_dump indent indent_char True h junk j = Inr (layout_text ?L j 0)" .
  moreover have "ascii (layout_text ?L j 0)"
    by (rule ascii_layout) (use assms(4) in \<open>auto simp: dump_layout_def string_text_def ascii_escaped is_json_space_def\<close>)
  ultimately show ?thesis using round_trip_text[OF dump_readable[OF assms(4)] assms(1,2)] by blast
qed

text \<open>The euro sign, in three bytes, and a symbol outside the basic plane, in four.\<close>

theorem ascii_dump_round_trip_witness:
  "\<exists>s. json_dump 2 (CHR 0x09) True strict 0
       (JArray [JString [CHR 0xE2, CHR 0x82, CHR 0xAC], JString [CHR 0xF0, CHR 0x9D, CHR 0x84, CHR 0x9E]]) = Inr s \<and> ascii s \<and>
     json_accept (\<lambda>_. 0) s = Inr True \<and>
     json_read (\<lambda>_. 0) s =
       Inr (JArray [JString [CHR 0xE2, CHR 0x82, CHR 0xAC], JString [CHR 0xF0, CHR 0x9D, CHR 0x84, CHR 0x9E]])"
proof (rule ascii_dump_round_trip)
  have "utf8_valid [CHR 0xE2, CHR 0x82, CHR 0xAC]" "utf8_valid [CHR 0xF0, CHR 0x9D, CHR 0x84, CHR 0x9E]"
    by (simp_all add: utf8_valid_def UTF8_ACCEPT_def UTF8_REJECT_def utf8_from_accept utf8_from_states utf8_lead_def utf8_follow_def)
  then show "dumpable (JArray [JString [CHR 0xE2, CHR 0x82, CHR 0xAC], JString [CHR 0xF0, CHR 0x9D, CHR 0x84, CHR 0x9E]])" by simp
qed (simp_all add: is_json_space_def)

text \<open>
  C39. Indentation by more than 1024 characters: \<^verbatim>\<open>indent_string\<close> is doubled only once, so a step of 1026
  characters or more makes the serialiser read behind its end at the first element, whatever the
  options are.
\<close>

theorem long_indent_is_undefined:
  assumes "1025 < indent" "indent < 2 ^ 31" "xs \<noteq> []"
  shows "\<exists>w. json_dump indent indent_char ensure_ascii h junk (JArray xs) = Inl (w, Undefined ''indent_string'')"
  using assms by (rule indent_overrun)

theorem long_indent_is_undefined_witness:
  "\<exists>w. json_dump 2000 (CHR '' '') False strict 0 (JArray [JNull]) = Inl (w, Undefined ''indent_string'')"
  by (rule long_indent_is_undefined) simp_all

end
