(* ===== verification/Json_Types.thy ===== *)
theory Json_Types
  imports Json_Layout
begin

text \<open>
  What the parser returns is well formed, whatever the text: strings and keys are UTF-8, the entries
  of an object are sorted by key without duplicates, doubles are finite. The lexer keeps its token
  buffer in UTF-8, also where escapes are turned into bytes; the locale \<open>sax_keeps\<close> carries an
  invariant of a handler through the loop of the parser.
\<close>

unbundle bit_operations_syntax

section \<open>Strings\<close>

lemma utf8_run_append:
  "utf8_run st a = st' \<Longrightarrow> st' \<noteq> 1 \<Longrightarrow> utf8_run st (a @ b) = utf8_run st' b"
  by (induction a arbitrary: st) (auto simp: UTF8_REJECT_def Let_def split: if_splits)

lemma utf8_append: "utf8_valid a \<Longrightarrow> utf8_valid b \<Longrightarrow> utf8_valid (a @ b)"
  using utf8_run_append[of 0 a 0 b] by (simp add: utf8_valid_def UTF8_ACCEPT_def)

lemma utf8_ascii: "byte_of c < 0x80 \<Longrightarrow> utf8_valid [c]"
  by (rule ascii_utf8) (simp add: ascii_def)

text \<open>A lead byte and bytes in the ranges of its state.\<close>

lemma utf8_run_ranges:
  "utf8_open st \<Longrightarrow> list_all2 in_range (utf8_ranges st) ds \<Longrightarrow> utf8_run st ds = 0"
proof (induction ds arbitrary: st)
  case Nil
  then show ?case by (auto simp: utf8_open_def)
next
  case (Cons d ds)
  from Cons.prems(2)[unfolded list_all2_Cons2] obtain lo hi rs where
    rs: "utf8_ranges st = (lo, hi) # rs" "lo \<le> byte_of d" "byte_of d \<le> hi" "list_all2 in_range rs ds"
    by (auto simp: in_range_def simp del: utf8_ranges.simps)
  let ?n = "utf8_follow st (byte_of d)"
  have n: "?n \<noteq> 1" using rs by (simp add: utf8_follow_def)
  have step: "utf8_run st (d # ds) = utf8_run ?n ds"
    using n utf8_open_next[OF Cons.prems(1) byte_less] by (simp add: UTF8_REJECT_def)
  from utf8_follow_ranges[OF Cons.prems(1) n] rs(1) have
    next_ok: "if rs = [] then ?n = 0 else utf8_open ?n \<and> utf8_ranges ?n = rs" by auto
  show ?case
  proof (cases "rs = []")
    case True
    with next_ok rs(4) step show ?thesis by simp
  next
    case False
    with next_ok rs(4) Cons.IH[of ?n] step show ?thesis by simp
  qed
qed

lemma utf8_code_point:
  assumes "utf8_open (utf8_lead (byte_of c))" "list_all2 in_range (utf8_ranges (utf8_lead (byte_of c))) ds"
  shows "utf8_valid (c # ds)"
proof -
  have "utf8_next 0 (byte_of c) = utf8_lead (byte_of c)" by (rule utf8_from_accept) (rule byte_less)
  moreover have "utf8_lead (byte_of c) \<noteq> 1" using assms(1) by (auto simp: utf8_open_def)
  ultimately show ?thesis
    using utf8_run_ranges[OF assms] by (simp add: utf8_valid_def UTF8_ACCEPT_def UTF8_REJECT_def)
qed

section \<open>The bytes of a code point\<close>

lemma byte_or:
  assumes "unat (w :: uint32) < n" "(hi, n) \<in> {(0x80, 64), (0xC0, 32), (0xE0, 16), (0xF0, 8)}"
  shows "unat (of_nat hi OR w) = hi + unat w"
proof -
  have "list_all (\<lambda>x. (0x80 :: nat) OR x = 0x80 + x) [0..<64]" "list_all (\<lambda>x. (0xC0 :: nat) OR x = 0xC0 + x) [0..<32]"
    "list_all (\<lambda>x. (0xE0 :: nat) OR x = 0xE0 + x) [0..<16]" "list_all (\<lambda>x. (0xF0 :: nat) OR x = 0xF0 + x) [0..<8]"
    by code_simp+
  with assms show ?thesis
    by (auto simp: list_all_iff unsigned_or_eq)
qed

lemma low_bits: "unat ((w :: uint32) AND 0x3F) = unat w mod 64"
  unfolding and_63 unsigned_take_bit_eq by (simp add: take_bit_eq_mod)

lemma high_bits: "unat (drop_bit k (w :: uint32)) = unat w div 2 ^ k"
  unfolding unat_drop_bit_eq by (rule drop_bit_eq_div)

lemma continuation_byte: "unat (0x80 OR ((w :: uint32) AND 0x3F)) = 0x80 + unat w mod 64"
  using byte_or[of "w AND 0x3F" 64 "0x80"] by (simp add: low_bits)

lemma lead_bytes:
  "unat w < 32 \<Longrightarrow> unat (0xC0 OR (w :: uint32)) = 0xC0 + unat w"
  "unat w < 16 \<Longrightarrow> unat (0xE0 OR w) = 0xE0 + unat w"
  "unat w < 8 \<Longrightarrow> unat (0xF0 OR w) = 0xF0 + unat w"
  using byte_or[of w 32 "0xC0"] byte_or[of w 16 "0xE0"] byte_or[of w 8 "0xF0"] by simp_all

text \<open>The bytes that \<open>add_codepoint\<close> appends, for a code point \<open>n\<close>.\<close>

definition utf8_bytes :: "nat \<Rightarrow> nat list" where
  "utf8_bytes n =
     (if n < 0x80 then [n]
      else if n \<le> 0x7FF then [0xC0 + n div 64, 0x80 + n mod 64]
      else if n \<le> 0xFFFF then [0xE0 + n div 4096, 0x80 + n div 64 mod 64, 0x80 + n mod 64]
      else [0xF0 + n div 262144, 0x80 + n div 4096 mod 64, 0x80 + n div 64 mod 64, 0x80 + n mod 64])"

lemma add_codepoint_buffer:
  assumes "unat cp \<le> 0x10FFFF"
  shows "lx_token_buffer (add_codepoint cp lx) = lx_token_buffer lx @ map char_of (utf8_bytes (unat cp))"
proof -
  have cmp: "cp < 0x80 \<longleftrightarrow> unat cp < 0x80" "cp \<le> 0x7FF \<longleftrightarrow> unat cp \<le> 0x7FF" "cp \<le> 0xFFFF \<longleftrightarrow> unat cp \<le> 0xFFFF"
    by (simp_all add: word_less_nat_alt word_le_nat_alt)
  show ?thesis
    using assms
    by (auto simp: add_codepoint_def lx_add_int_def utf8_bytes_def cmp continuation_byte lead_bytes high_bits)
qed

text \<open>They are UTF-8 unless the code point is a surrogate.\<close>

lemma sixty_fours:
  "(n :: nat) = 64 * (n div 64) + n mod 64" "n div 64 = 64 * (n div 4096) + n div 64 mod 64"
  "n div 4096 = 64 * (n div 262144) + n div 4096 mod 64"
  using div_mult_mod_eq[of n 64] div_mult_mod_eq[of "n div 64" 64] div_mult_mod_eq[of "n div 4096" 64]
  by (simp_all add: div_mult2_eq[symmetric])

lemma utf8_bytes_valid:
  assumes "n \<le> 0x10FFFF" "\<not> (0xD800 \<le> n \<and> n \<le> 0xDFFF)"
  shows "utf8_valid (map char_of (utf8_bytes n))"
proof -
  consider "n < 0x80" | "0x80 \<le> n" "n \<le> 0x7FF" | "0x7FF < n" "n \<le> 0xFFFF" | "0xFFFF < n" by linarith
  then show ?thesis
  proof cases
    case 1
    then show ?thesis by (simp add: utf8_bytes_def utf8_ascii)
  next
    case 2
    have "n div 64 < 32" "2 \<le> n div 64" using 2 by simp_all
    then show ?thesis
      using 2 by (simp add: utf8_bytes_def) (rule utf8_code_point; simp add: utf8_lead_def utf8_open_def in_range_def)
  next
    case 3
    define k x y where "k = n div 4096" "x = n div 64 mod 64" "y = n mod 64"
    have n: "n = 4096 * k + 64 * x + y" "x < 64" "y < 64"
      unfolding k_x_y_def using sixty_fours[of n] by (linarith, simp_all)
    with 3 assms(2) have "k < 16" "k = 0 \<Longrightarrow> 32 \<le> x" "k = 13 \<Longrightarrow> x < 32" by linarith+
    then have "utf8_valid (map char_of [0xE0 + k, 0x80 + x, 0x80 + y])"
      using n(2,3) by simp (rule utf8_code_point; auto simp: utf8_lead_def utf8_open_def in_range_def)
    with 3 show ?thesis by (simp add: utf8_bytes_def k_x_y_def)
  next
    case 4
    define k x y z where "k = n div 262144" "x = n div 4096 mod 64" "y = n div 64 mod 64" "z = n mod 64"
    have n: "n = 262144 * k + 4096 * x + 64 * y + z" "x < 64" "y < 64" "z < 64"
      unfolding k_x_y_z_def using sixty_fours[of n] by (linarith, simp_all)
    with 4 assms(1) have "k < 5" "k = 0 \<Longrightarrow> 16 \<le> x" "k = 4 \<Longrightarrow> x < 16" by linarith+
    then have "utf8_valid (map char_of [0xF0 + k, 0x80 + x, 0x80 + y, 0x80 + z])"
      using n(2-4) by simp (rule utf8_code_point; auto simp: utf8_lead_def utf8_open_def in_range_def)
    with 4 show ?thesis by (simp add: utf8_bytes_def k_x_y_z_def)
  qed
qed

section \<open>The token buffer\<close>

text \<open>A part of the lexer that appends UTF-8 to the buffer unless it fails.\<close>

definition appends :: "lexer \<Rightarrow> token_type option \<times> lexer \<Rightarrow> bool" where
  "appends lx r \<longleftrightarrow>
     (fst r = None \<or> fst r = Some value_string \<longrightarrow> (\<exists>s. lx_token_buffer (snd r) = lx_token_buffer lx @ s \<and> utf8_valid s))"

lemma appends_simps [simp]:
  "appends lx (Some parse_error, lx')" "appends (lx_get lx) r = appends lx r"
  "appends lx (Some value_string, lx_get lx)"
  by (simp_all add: appends_def utf8_valid_def)

lemma appends_ascii: "byte_of c < 0x80 \<Longrightarrow> appends lx (None, lx_add c (lx_get lx))"
  by (auto simp: appends_def utf8_ascii)

lemma hex_value_bound: "hex_value cur = Some v \<Longrightarrow> unat v < 16"
proof (cases cur)
  case (Some c)
  have sub: "unat (of_nat n - of_nat k :: uint32) = n - k" if "k \<le> n" "n < 256" for n k
  proof -
    have "of_nat n - of_nat k = (of_nat (n - k) :: uint32)" using that(1) by (rule of_nat_diff[symmetric])
    with that(2) show ?thesis by (simp add: unat_of_nat del: of_nat_diff)
  qed
  obtain b where b: "byte_of c = b" "b < 256" using byte_less[of c] by blast
  assume "hex_value cur = Some v"
  then show ?thesis
    using sub[of "0x30" b] sub[of "0x37" b] sub[of "0x57" b] b(2)
    unfolding hex_value_def Some option.case b(1) Let_def by (simp split: if_splits)
qed (simp add: hex_value_def)

lemma get_codepoint_bound:
  assumes "get_codepoint lx = (Some cp, lx')"
  shows "unat cp < 0x10000" and "lx_token_buffer lx' = lx_token_buffer lx"
proof -
  from assms obtain a b c d where
    v: "hex_value (lx_current (lx_get lx)) = Some a" "hex_value (lx_current (lx_get (lx_get lx))) = Some b"
    "hex_value (lx_current (lx_get (lx_get (lx_get lx)))) = Some c"
    "hex_value (lx_current (lx_get (lx_get (lx_get (lx_get lx))))) = Some d"
    and cp: "cp = push_bit 12 a + push_bit 8 b + push_bit 4 c + d" "lx' = lx_get (lx_get (lx_get (lx_get lx)))"
    by (auto simp: get_codepoint_def Let_def split: option.splits)
  from v have "unat a < 16" "unat b < 16" "unat c < 16" "unat d < 16" by (auto dest: hex_value_bound)
  then show "unat cp < 0x10000"
    unfolding cp(1) by (simp add: push_bit_eq_mult unat_word_ariths)
  show "lx_token_buffer lx' = lx_token_buffer lx" by (simp add: cp(2))
qed

lemma surrogate_pair:
  assumes "0xD800 \<le> (cp1 :: uint32)" "cp1 \<le> 0xDBFF" "0xDC00 \<le> cp2" "cp2 \<le> 0xDFFF"
  shows "unat (push_bit 10 cp1 + cp2 - 0x35FDC00) = 1024 * (unat cp1 - 0xD800) + (unat cp2 - 0xDC00) + 0x10000"
proof -
  have b: "0xD800 \<le> unat cp1" "unat cp1 \<le> 0xDBFF" "0xDC00 \<le> unat cp2" "unat cp2 \<le> 0xDFFF"
    using assms by (simp_all add: word_le_nat_alt)
  then have sum: "unat (push_bit 10 cp1 + cp2) = 1024 * unat cp1 + unat cp2"
    by (simp add: push_bit_eq_mult unat_word_ariths)
  with b have "0x35FDC00 \<le> push_bit 10 cp1 + cp2" by (simp add: word_le_nat_alt)
  then have "unat (push_bit 10 cp1 + cp2 - 0x35FDC00) = 1024 * unat cp1 + unat cp2 - 0x35FDC00"
    using sum by (simp add: unat_sub)
  with b show ?thesis by simp
qed

lemma appends_codepoint:
  assumes "unat cp \<le> 0x10FFFF" "\<not> (0xD800 \<le> unat cp \<and> unat cp \<le> 0xDFFF)" "lx_token_buffer lx' = lx_token_buffer lx"
  shows "appends lx (None, add_codepoint cp lx')"
  using add_codepoint_buffer[OF assms(1)] utf8_bytes_valid[OF assms(1,2)] assms(3) by (simp add: appends_def)

lemma appends_unicode: "appends lx (scan_unicode lx)"
proof -
  obtain r lx1 where cp: "get_codepoint lx = (r, lx1)" by force
  show ?thesis
  proof (cases r)
    case None
    with cp show ?thesis by (simp add: scan_unicode_def)
  next
    case (Some cp1)
    with cp get_codepoint_bound[of lx cp1 lx1] have b1: "unat cp1 < 0x10000" "lx_token_buffer lx1 = lx_token_buffer lx"
      by auto
    have single: "appends lx (None, add_codepoint cp1 lx1)" if "\<not> (0xD800 \<le> cp1 \<and> cp1 \<le> 0xDBFF)" "\<not> (0xDC00 \<le> cp1 \<and> cp1 \<le> 0xDFFF)"
      by (rule appends_codepoint) (use b1 that in \<open>auto simp: word_le_nat_alt\<close>)
    have pair: "appends lx (None, add_codepoint (push_bit 10 cp1 + cp2 - 0x35FDC00) lx4)"
      if "get_codepoint (lx_get (lx_get lx1)) = (Some cp2, lx4)" "0xD800 \<le> cp1" "cp1 \<le> 0xDBFF" "0xDC00 \<le> cp2" "cp2 \<le> 0xDFFF"
      for cp2 lx4
    proof -
      have "unat cp1 \<le> 0xDBFF" "unat cp2 \<le> 0xDFFF" using that by (simp_all add: word_le_nat_alt)
      then show ?thesis
        using surrogate_pair[OF that(2-5)] get_codepoint_bound(2)[OF that(1)] b1(2) by (intro appends_codepoint) simp_all
    qed
    from single pair show ?thesis
      by (auto simp: scan_unicode_def cp Some Let_def split: option.split prod.split)
  qed
qed

lemma appends_escape: "appends lx (scan_escape lx)"
  using appends_unicode[of "lx_get lx"]
  by (simp add: scan_escape_def Let_def appends_ascii split: option.split)

lemma bytes_in_ranges_buffer:
  "bytes_in_ranges ranges lx = (True, lx') \<Longrightarrow>
     \<exists>ds. lx_token_buffer lx' = lx_token_buffer lx @ ds \<and> list_all2 in_range ranges ds"
proof (induction ranges lx rule: bytes_in_ranges.induct)
  case (2 lo hi ranges lx)
  from "2.prems" obtain c where c: "lx_current (lx_get lx) = Some c" "lo \<le> byte_of c" "byte_of c \<le> hi"
    "bytes_in_ranges ranges (lx_add c (lx_get lx)) = (True, lx')"
    by (auto simp: Let_def split: option.splits if_splits)
  from "2.IH"[OF refl c(1) _ c(4)] c(2,3) obtain ds where
    "lx_token_buffer lx' = lx_token_buffer (lx_add c (lx_get lx)) @ ds" "list_all2 in_range ranges ds" by auto
  then show ?case using c(2,3) by (intro exI[of _ "c # ds"]) (simp add: in_range_def[of "(lo, hi)" c])
qed simp

lemma appends_in_range:
  assumes "utf8_open (utf8_lead (byte_of c))" "ranges = utf8_ranges (utf8_lead (byte_of c))"
  shows "appends lx (next_byte_in_range c ranges lx)"
proof -
  obtain ok lx1 where r: "bytes_in_ranges ranges (lx_add c lx) = (ok, lx1)" by force
  with bytes_in_ranges_buffer[of ranges "lx_add c lx" lx1] utf8_code_point[OF assms(1)] assms(2) show ?thesis
    by (auto simp: next_byte_in_range_def appends_def simp del: utf8_ranges.simps)
qed

lemma appends_body: "appends lx (scan_string_body lx)"
proof (cases "lx_current (lx_get lx)")
  case None
  then show ?thesis by (simp add: scan_string_body_def Let_def)
next
  case (Some c)
  have "appends lx (scan_multibyte c (lx_get lx))"
    using appends_in_range[of c _ "lx_get lx"]
    by (auto simp: scan_multibyte_def Let_def utf8_lead_def utf8_open_def)
  with Some appends_escape[of "lx_get lx"] show ?thesis
    by (auto simp: scan_string_body_def Let_def is_ascii_byte_def intro: appends_ascii)
qed

lemma scan_string_loop_utf8:
  "scan_string_loop lx = (value_string, lx') \<Longrightarrow> utf8_valid (lx_token_buffer lx) \<Longrightarrow> utf8_valid (lx_token_buffer lx')"
proof (induction lx rule: scan_string_loop.induct)
  case (1 lx)
  obtain r lx1 where body: "scan_string_body lx = (r, lx1)" by force
  from appends_body[of lx] body "1.prems"(2) have lx1: "r = None \<or> r = Some value_string \<Longrightarrow> utf8_valid (lx_token_buffer lx1)"
    by (auto simp: appends_def intro: utf8_append)
  show ?case
  proof (cases r)
    case None
    with "1.IH"[OF body[symmetric] None] "1.prems"(1) body lx1 show ?thesis by (simp add: scan_string_loop.simps[of lx])
  next
    case (Some t)
    with "1.prems"(1) body lx1 show ?thesis by (simp add: scan_string_loop.simps[of lx])
  qed
qed

lemma scan_literal_token: "scan_literal cs t lx = (t', lx') \<Longrightarrow> t' = t \<or> t' = parse_error"
  by (induction cs t lx rule: scan_literal.induct) (auto simp: Let_def split: if_splits)

lemma scan_number_token: "fst (scan_number strtod c lx) \<in> {value_unsigned, value_integer, value_float, parse_error}"
proof -
  have "fst (scan_number_done strtod t lx) \<in> {value_unsigned, value_integer, value_float}" for t lx
    unfolding scan_number_done_def Let_def
    by (cases "strtoull (lx_token_buffer (lx_unget lx))"; cases "strtoll (lx_token_buffer (lx_unget lx))") simp_all
  then show ?thesis unfolding scan_number_def Let_def by (auto split: prod.split option.split)
qed

lemma scan_string_utf8: "scan_string lx = (value_string, lx') \<Longrightarrow> utf8_valid (lx_token_buffer lx')"
  unfolding scan_string_def by (erule scan_string_loop_utf8) (simp add: utf8_valid_def)

lemma scan_current_utf8:
  assumes "scan_current strtod lx = (value_string, lx')"
  shows "utf8_valid (lx_token_buffer lx')"
proof (cases "lx_current lx = Some (CHR 0x22)")
  case True
  with assms scan_string_utf8[of lx lx'] show ?thesis by (simp add: scan_current_simps)
next
  case False
  have "fst (scan_number strtod c lx) \<noteq> value_string" for c using scan_number_token[of strtod c lx] by auto
  moreover have "fst (scan_literal cs t lx) \<noteq> value_string" if "t \<noteq> value_string" for cs t
    using scan_literal_token[of cs t lx] that by (cases "scan_literal cs t lx") auto
  ultimately have "fst (scan_current strtod lx) \<noteq> value_string"
    using False unfolding scan_current_def by (simp split: option.split del: scan_literal.simps)
  with assms show ?thesis by simp
qed

lemma scan_utf8: "scan strtod lx = (value_string, lx') \<Longrightarrow> utf8_valid (lx_token_buffer lx')"
  by (auto simp: scan_def split: prod.splits bool.splits intro: scan_current_utf8)

section \<open>Invariants of a handler\<close>

fun event_ok :: "sax_event \<Rightarrow> bool" where
  "event_ok (SaxFloat w) = isfinite w"
| "event_ok (SaxString s) = utf8_valid s"
| "event_ok (SaxKey k) = utf8_valid k"
| "event_ok _ = True"

definition token_ok :: "'s parser \<Rightarrow> bool" where
  "token_ok p \<longleftrightarrow> (p_last_token p = value_string \<longrightarrow> utf8_valid (lx_token_buffer (p_lexer p)))"

lemma token_ok_get [simp]: "token_ok (get_token strtod p)"
  by (cases "scan strtod (p_lexer p)") (auto simp: token_ok_def get_token_def scan_utf8)

lemma token_ok_update [simp]:
  "token_ok (p\<lparr>p_states := st\<rparr>) = token_ok p" "token_ok (p\<lparr>p_sax := s\<rparr>) = token_ok p"
  by (simp_all add: token_ok_def)

locale sax_keeps =
  fixes h :: "'s sax"
    and I :: "'s \<Rightarrow> bool"
  assumes event: "event_ok ev \<Longrightarrow> I s \<Longrightarrow> sax_on h ev s = Inr (b, s') \<Longrightarrow> I s'"
    and error: "I s \<Longrightarrow> sax_parse_error h e s = Inr (b, s') \<Longrightarrow> I s'"
begin

definition good :: "'s parser flow res \<Rightarrow> bool" where
  "good r \<longleftrightarrow>
     (case r of
        Inr (Fall q) \<Rightarrow> I (p_sax q)
      | Inr (Continue q) \<Rightarrow> I (p_sax q) \<and> (p_skip q \<or> token_ok q)
      | Inr (Return b q) \<Rightarrow> I (p_sax q)
      | Inl e \<Rightarrow> True)"

lemma good_simps [simp]:
  "good (Inr (Fall q)) \<longleftrightarrow> I (p_sax q)" "good (Inr (Return b q)) \<longleftrightarrow> I (p_sax q)"
  "good (Inr (Continue q)) \<longleftrightarrow> I (p_sax q) \<and> (p_skip q \<or> token_ok q)"
  by (simp_all add: good_def)

lemma good_emit:
  assumes "event_ok ev" "I (p_sax p)" "\<And>s. I s \<Longrightarrow> good (k (p\<lparr>p_sax := s\<rparr>))"
  shows "good (sax_emit h ev p k)"
proof (cases "sax_on h ev (p_sax p)")
  case (Inr r)
  obtain b s where r: "r = (b, s)" by (cases r)
  with event[OF assms(1,2)] Inr have "I s" by blast
  with assms(3)[of s] r Inr show ?thesis by (simp add: sax_emit_def good_def Let_def)
qed (simp add: sax_emit_def good_def)

lemma good_fail: "I (p_sax p) \<Longrightarrow> good (sax_fail h e p)"
  using error[of "p_sax p" e] by (cases "sax_parse_error h e (p_sax p)") (auto simp: sax_fail_def good_def)

lemma good_atom: "event_ok ev \<Longrightarrow> I (p_sax p) \<Longrightarrow> good (sax_emit h ev p (\<lambda>p1. Inr (Fall p1)))"
  by (rule good_emit) simp_all

lemma good_key:
  assumes "I (p_sax p)" "token_ok p" "\<And>q. p_sax (enter q) = p_sax q"
  shows "good (parse_key strtod h enter p)"
proof (cases "p_last_token p = value_string")
  case True
  have "good (sax_emit h (SaxKey (lx_token_buffer (p_lexer p))) p (\<lambda>p1.
           let p2 = get_token strtod p1
           in if p_last_token p2 \<noteq> name_separator then sax_fail h JsonParseError p2
              else Inr (Continue (get_token strtod (enter p2)))))"
    by (rule good_emit) (use assms True in \<open>simp_all add: token_ok_def[of p] Let_def good_fail\<close>)
  with True show ?thesis by (simp add: parse_key_def)
qed (simp add: parse_key_def good_fail assms(1))

lemma good_value:
  assumes "I (p_sax p)" "token_ok p"
  shows "good (parse_value strtod h p)"
proof (cases "p_last_token p")
  case begin_object
  then show ?thesis
    unfolding parse_value_def by simp (rule good_emit; simp add: assms Let_def good_atom good_key)
next
  case begin_array
  then show ?thesis
    unfolding parse_value_def by simp (rule good_emit; simp add: assms Let_def good_atom)
qed (use assms in \<open>simp_all add: parse_value_def Let_def good_atom good_fail token_ok_def[of p]\<close>)

lemma good_close: "ev \<in> {SaxEndArray, SaxEndObject} \<Longrightarrow> I (p_sax p) \<Longrightarrow> good (parse_close h ev p)"
  unfolding parse_close_def by (rule good_emit) auto

lemma good_state: "I (p_sax p) \<Longrightarrow> good (parse_state strtod h p)"
  by (auto simp: parse_state_def Let_def good_fail intro: good_close good_key split: list.split bool.split)

lemma good_iteration:
  assumes "I (p_sax p)" "p_skip p \<or> token_ok p"
  shows "good (parse_iteration strtod h p)"
proof (cases "p_skip p")
  case True
  with assms(1) show ?thesis by (simp add: parse_iteration_def good_state)
next
  case False
  with assms have "good (parse_value strtod h p)" by (simp add: good_value)
  with False show ?thesis
  proof (cases "parse_value strtod h p")
    case (Inr fl)
    with False \<open>good (parse_value strtod h p)\<close> show ?thesis
      by (cases fl) (simp_all add: parse_iteration_def good_state)
  qed (simp add: parse_iteration_def good_def)
qed

lemma keeps:
  assumes "sax_parse_internal strtod h p = Inr (b, q)" "I (p_sax p)" "p_skip p \<or> token_ok p"
  shows "I (p_sax q)"
  using assms
proof (induction "parse_measure p" arbitrary: p rule: less_induct)
  case less
  note unf = sax_parse_internal.simps[of strtod h p] and it = good_iteration[OF less.prems(2,3), of strtod]
  from less.prems(1) obtain fl where fl: "parse_iteration strtod h p = Inr fl"
    by (cases "parse_iteration strtod h p") (auto simp: unf)
  show ?case
  proof (cases fl)
    case (Continue p')
    with fl it have p': "parse_iteration strtod h p = Inr (Continue p')" "I (p_sax p')" "p_skip p' \<or> token_ok p'"
      by simp_all
    from less.hyps[OF parse_iteration_shrinks[OF p'(1)] _ p'(2,3)] less.prems(1) p'(1) show ?thesis by (simp add: unf)
  qed (use fl it less.prems(1) unf in simp_all)
qed

end

section \<open>Values\<close>

fun json_typed :: "json \<Rightarrow> bool" where
  "json_typed (JObject m) \<longleftrightarrow> std_map m \<and> (\<forall>(k, v) \<in> set m. utf8_valid k \<and> json_typed v)"
| "json_typed (JArray xs) \<longleftrightarrow> (\<forall>x \<in> set xs. json_typed x)"
| "json_typed (JString s) \<longleftrightarrow> utf8_valid s"
| "json_typed (JFloat w) \<longleftrightarrow> isfinite w"
| "json_typed _ \<longleftrightarrow> True"

lemma typed_get_at: "get_at p j = Some w \<Longrightarrow> json_typed j \<Longrightarrow> json_typed w"
  by (induction p j rule: get_at.induct)
    (auto split: if_splits option.splits dest: map_find_SomeD)

lemma typed_put_at: "json_typed j \<Longrightarrow> json_typed v \<Longrightarrow> json_typed (put_at p v j)"
proof (induction p v j rule: put_at.induct)
  case (2 i p v xs)
  then show ?case by (auto dest!: set_update_subset_insert[THEN subsetD])
next
  case (3 k p v m)
  show ?case
  proof (cases "map_find k m")
    case (Some w)
    with 3 have "json_typed (put_at p v w)" "utf8_valid k" by (auto dest: map_find_SomeD)
    with 3 Some show ?thesis by (auto dest!: map_put_values)
  qed (use 3 in simp)
qed auto

lemma handle_value_typed:
  assumes "handle_value v d = Inr (e, d')" "json_typed (dom_root d)" "json_typed v"
  shows "json_typed (dom_root d')"
proof -
  have elems: "json_typed x" if "get_at p (dom_root d) = Some (JArray xs)" "x \<in> set xs" for p xs x
    using typed_get_at[OF that(1) assms(2)] that(2) by simp
  show ?thesis
    using assms
    by (auto simp: handle_value_def intro!: typed_put_at split: list.splits option.splits json.splits if_splits)
      (use elems in blast)+
qed

lemma dom_key_typed:
  assumes "dom_key k d = Inr (b, d')" "json_typed (dom_root d)" "utf8_valid k"
  shows "json_typed (dom_root d')"
proof -
  from assms(1) obtain p ps m where m: "get_at p (dom_root d) = Some (JObject m)"
    "dom_root d' = put_at p (JObject (snd (map_index JNull k m))) (dom_root d)"
    by (auto simp: dom_key_def split: list.splits option.splits json.splits)
  from typed_get_at[OF m(1) assms(2)] assms(3) have "json_typed (JObject (snd (map_index JNull k m)))"
    by (auto simp: map_index_def dest!: map_put_values split: option.splits)
  with m(2) assms(2) show ?thesis by (simp add: typed_put_at del: json_typed.simps)
qed

interpretation typed: sax_keeps json_sax_dom_parser "\<lambda>d. json_typed (dom_root d)"
proof unfold_locales
  have atom: "json_typed (dom_root d')"
    if "dom_value v d = Inr (b, d')" "json_typed (dom_root d)" "json_typed v" for v d b d'
    using that handle_value_typed by (auto simp: dom_value_def std_simps)
  have start: "json_typed (dom_root d')"
    if "dom_start v d = Inr (b, d')" "json_typed (dom_root d)" "json_typed v" for v d b d'
    using that handle_value_typed by (fastforce simp: dom_start_def std_simps)
  have stop: "json_typed (dom_root d')" if "dom_end d = Inr (b, d')" "json_typed (dom_root d)" for d b d'
    using that by (auto simp: dom_end_def split: list.splits)
  show "json_typed (dom_root d')"
    if "event_ok ev" "json_typed (dom_root d)" "sax_on json_sax_dom_parser ev d = Inr (b, d')" for ev d b d'
    using that by (cases ev) (auto simp: json_sax_dom_parser_def elim: atom start stop dom_key_typed)
  show "json_typed (dom_root d')"
    if "json_typed (dom_root d)" "sax_parse_error json_sax_dom_parser e d = Inr (b, d')" for d e b d'
    using that by (simp add: json_sax_dom_parser_def)
qed

lemma parse_typed:
  assumes "json_parse strtod whole text = Inr j"
  shows "json_typed j"
proof -
  from assms obtain b p where
    p: "sax_parse_internal strtod json_sax_dom_parser (parser_init strtod text dom_init) = Inr (b, p)" "j = dom_root (p_sax p)"
    by (auto simp: json_parse_def std_simps split: if_splits)
  from typed.keeps[OF p(1)] p(2) show ?thesis by (simp add: parser_init_def dom_init_def)
qed

text \<open>Typed values without the least integer can be written again.\<close>

fun no_least :: "json \<Rightarrow> bool" where
  "no_least (JObject m) \<longleftrightarrow> (\<forall>(k, v) \<in> set m. no_least v)"
| "no_least (JArray xs) \<longleftrightarrow> (\<forall>x \<in> set xs. no_least x)"
| "no_least (JInteger w) \<longleftrightarrow> sint w \<noteq> - (2 ^ 63)"
| "no_least _ \<longleftrightarrow> True"

lemma typed_dumpable: "json_typed j \<Longrightarrow> no_least j \<Longrightarrow> dumpable j"
  by (induction j rule: json_typed.induct) fastforce+

section \<open>Properties\<close>

text \<open>
  C12. Whatever text the parser accepts, the value it returns is well formed: the entries of every
  object are sorted by key and have no duplicates, every string and key is UTF-8 (also where the text
  wrote it with escapes), and every double is finite. Such a value can be written again, unless it
  contains the least 64-bit integer.
\<close>

theorem parsed_values_are_typed:
  assumes "json_parse strtod whole text = Inr j"
  shows "json_typed j \<and> (no_least j \<longrightarrow> json_write junk j = Inr (json_text j))"
  using parse_typed[OF assms] typed_dumpable[of j] json_write_eq(1)[of j] by blast

theorem parsed_values_are_typed_witness:
  "\<exists>j. json_parse (\<lambda>_. 0) True (quoted ''ab'') = Inr j \<and> json_typed j"
proof -
  have "json_parse (\<lambda>_. 0) True (json_text (JString ''ab'')) = Inr (JString ''ab'')"
    by (rule parse_text) (simp_all add: ascii_utf8 ascii_def)
  with parsed_values_are_typed[OF this] show ?thesis by auto
qed

end
