(* ===== verification/Manifests.thy ===== *)
theory Manifests
  imports Json_Types
begin

text \<open>
  \<^verbatim>\<open>common/other/include/manifests.hpp\<close> and \<^verbatim>\<open>common/other/src/manifests.cpp\<close>: the manifest structures,
  the command-line text of a startup option, and the conversions to and from JSON. The conversions
  are inverse to each other for every structure, and a JSON value without one of the keys is
  rejected with the library's exception.
\<close>

section \<open>Data\<close>

record MachineInstanceMode =
  functionGroup :: string
  mim_mode :: string

datatype StartupOptionKindEnum =
  commandLineLongForm | commandLineShortForm | commandLineSimpleForm

record StartupOption =
  optionKind :: StartupOptionKindEnum
  optionName :: string
  optionArg :: string

record ProcessInfo =
  pi_applicationName :: string
  pi_processName :: string
  pi_startOptions :: "StartupOption list"

record ModeDepStartupConfig =
  modes :: "MachineInstanceMode list"
  startupOptions :: "StartupOption list"

record Process =
  proc_name :: string
  modeDependentStartupConf :: "ModeDepStartupConfig list"

record ApplicationManifestInternal =
  am_manifestId :: string
  processes :: "Process list"

record ApplicationManifest =
  am_manifest :: ApplicationManifestInternal

record Mode =
  mode_mode :: string

record ModeDeclarationGroup =
  functionGroupName :: string
  modeDeclarations :: "Mode list"

record MachineManifestInternal =
  mm_manifestId :: string
  modeDeclarationGroups :: "ModeDeclarationGroup list"

record MachineManifest =
  mm_manifest :: MachineManifestInternal

section \<open>Startup options\<close>

definition makeCommandLineOption :: "StartupOption \<Rightarrow> string" where
  "makeCommandLineOption opt =
     (let res = optionName opt
      in case optionKind opt of
           commandLineShortForm \<Rightarrow>
             ''-'' @ res @ (if optionArg opt = [] then [] else '' '' @ optionArg opt)
         | commandLineLongForm \<Rightarrow>
             ''--'' @ res @ (if optionArg opt = [] then [] else ''='' @ optionArg opt)
         | commandLineSimpleForm \<Rightarrow> res)"

section \<open>Serialisation\<close>

definition kindTable :: "(StartupOptionKindEnum \<times> json) list" where
  "kindTable =
     [(commandLineSimpleForm, JString ''commandLineSimpleForm''),
      (commandLineShortForm, JString ''commandLineShortForm''),
      (commandLineLongForm, JString ''commandLineLongForm'')]"

definition to_json_MachineInstanceMode :: "MachineInstanceMode \<Rightarrow> json" where
  "to_json_MachineInstanceMode m =
     json_init [kv ''Function_group'' (JString (functionGroup m)),
                kv ''Mode'' (JString (mim_mode m))]"

definition to_json_StartupOption :: "StartupOption \<Rightarrow> json" where
  "to_json_StartupOption opt =
     json_init [kv ''Option_kind'' (enum_to_json kindTable (optionKind opt)),
                kv ''Option_name'' (JString (optionName opt)),
                kv ''Option_arg'' (JString (optionArg opt))]"

definition to_json_ModeDepStartupConfig :: "ModeDepStartupConfig \<Rightarrow> json" where
  "to_json_ModeDepStartupConfig c =
     json_init [kv ''Startup_options'' (put_vector to_json_StartupOption (startupOptions c)),
                kv ''Mode_in_machine_instance_refs'' (put_vector to_json_MachineInstanceMode (modes c))]"

definition to_json_Process :: "Process \<Rightarrow> json" where
  "to_json_Process p =
     json_init [kv ''Process_name'' (JString (proc_name p)),
                kv ''Mode_dependent_startup_configs''
                  (put_vector to_json_ModeDepStartupConfig (modeDependentStartupConf p))]"

definition to_json_ApplicationManifestInternal :: "ApplicationManifestInternal \<Rightarrow> json" where
  "to_json_ApplicationManifestInternal m =
     json_init [kv ''Application_manifest_id'' (JString (am_manifestId m)),
                kv ''Process'' (put_vector to_json_Process (processes m))]"

definition to_json_ApplicationManifest :: "ApplicationManifest \<Rightarrow> json" where
  "to_json_ApplicationManifest m =
     json_init [kv ''Application_manifest'' (to_json_ApplicationManifestInternal (am_manifest m))]"

definition to_json_Mode :: "Mode \<Rightarrow> json" where
  "to_json_Mode m = json_init [kv ''Mode'' (JString (mode_mode m))]"

definition to_json_ModeDeclarationGroup :: "ModeDeclarationGroup \<Rightarrow> json" where
  "to_json_ModeDeclarationGroup g =
     json_init [kv ''Function_group_name'' (JString (functionGroupName g)),
                kv ''Mode_declarations'' (put_vector to_json_Mode (modeDeclarations g))]"

definition to_json_MachineManifestInternal :: "MachineManifestInternal \<Rightarrow> json" where
  "to_json_MachineManifestInternal m =
     json_init [kv ''Machine_manifest_id'' (JString (mm_manifestId m)),
                kv ''Mode_declaration_group''
                  (put_vector to_json_ModeDeclarationGroup (modeDeclarationGroups m))]"

definition to_json_MachineManifest :: "MachineManifest \<Rightarrow> json" where
  "to_json_MachineManifest m =
     json_init [kv ''Machine_manifest'' (to_json_MachineManifestInternal (mm_manifest m))]"

section \<open>Deserialisation\<close>

text \<open>\<^verbatim>\<open>jsonObject.at(key).get_to(field)\<close>\<close>

definition at_get :: "json \<Rightarrow> string \<Rightarrow> (json \<Rightarrow> 'a res) \<Rightarrow> 'a res" where
  "at_get j key get = rbind (json_at j key) get"

definition from_json_MachineInstanceMode :: "json \<Rightarrow> MachineInstanceMode res" where
  "from_json_MachineInstanceMode j =
     rbind (at_get j ''Function_group'' get_string) (\<lambda>g.
     rbind (at_get j ''Mode'' get_string) (\<lambda>m.
     Inr \<lparr>functionGroup = g, mim_mode = m\<rparr>))"

definition from_json_StartupOption :: "json \<Rightarrow> StartupOption res" where
  "from_json_StartupOption j =
     rbind (at_get j ''Option_kind'' (\<lambda>v. Inr (enum_from_json kindTable v))) (\<lambda>k.
     rbind (at_get j ''Option_name'' get_string) (\<lambda>n.
     rbind (at_get j ''Option_arg'' get_string) (\<lambda>a.
     Inr \<lparr>optionKind = k, optionName = n, optionArg = a\<rparr>)))"

definition from_json_ModeDepStartupConfig :: "json \<Rightarrow> ModeDepStartupConfig res" where
  "from_json_ModeDepStartupConfig j =
     rbind (at_get j ''Mode_in_machine_instance_refs'' (get_vector from_json_MachineInstanceMode)) (\<lambda>ms.
     rbind (at_get j ''Startup_options'' (get_vector from_json_StartupOption)) (\<lambda>os.
     Inr \<lparr>modes = ms, startupOptions = os\<rparr>))"

definition from_json_Process :: "json \<Rightarrow> Process res" where
  "from_json_Process j =
     rbind (at_get j ''Process_name'' get_string) (\<lambda>n.
     rbind (at_get j ''Mode_dependent_startup_configs''
              (get_vector from_json_ModeDepStartupConfig)) (\<lambda>cs.
     Inr \<lparr>proc_name = n, modeDependentStartupConf = cs\<rparr>))"

definition from_json_ApplicationManifestInternal :: "json \<Rightarrow> ApplicationManifestInternal res" where
  "from_json_ApplicationManifestInternal j =
     rbind (at_get j ''Application_manifest_id'' get_string) (\<lambda>i.
     rbind (at_get j ''Process'' (get_vector from_json_Process)) (\<lambda>ps.
     Inr \<lparr>am_manifestId = i, processes = ps\<rparr>))"

definition from_json_ApplicationManifest :: "json \<Rightarrow> ApplicationManifest res" where
  "from_json_ApplicationManifest j =
     rbind (at_get j ''Application_manifest'' from_json_ApplicationManifestInternal) (\<lambda>m.
     Inr \<lparr>am_manifest = m\<rparr>)"

definition from_json_Mode :: "json \<Rightarrow> Mode res" where
  "from_json_Mode j = rbind (at_get j ''Mode'' get_string) (\<lambda>m. Inr \<lparr>mode_mode = m\<rparr>)"

definition from_json_ModeDeclarationGroup :: "json \<Rightarrow> ModeDeclarationGroup res" where
  "from_json_ModeDeclarationGroup j =
     rbind (at_get j ''Function_group_name'' get_string) (\<lambda>n.
     rbind (at_get j ''Mode_declarations'' (get_vector from_json_Mode)) (\<lambda>ms.
     Inr \<lparr>functionGroupName = n, modeDeclarations = ms\<rparr>))"

definition from_json_MachineManifestInternal :: "json \<Rightarrow> MachineManifestInternal res" where
  "from_json_MachineManifestInternal j =
     rbind (at_get j ''Machine_manifest_id'' get_string) (\<lambda>i.
     rbind (at_get j ''Mode_declaration_group'' (get_vector from_json_ModeDeclarationGroup)) (\<lambda>gs.
     Inr \<lparr>mm_manifestId = i, modeDeclarationGroups = gs\<rparr>))"

definition from_json_MachineManifest :: "json \<Rightarrow> MachineManifest res" where
  "from_json_MachineManifest j =
     rbind (at_get j ''Machine_manifest'' from_json_MachineManifestInternal) (\<lambda>m.
     Inr \<lparr>mm_manifest = m\<rparr>)"

section \<open>Serialisable types as an interface\<close>

text \<open>
  The contract of a pair of \<^verbatim>\<open>to_json\<close>/\<^verbatim>\<open>from_json\<close> functions, and what it gives for a vector of
  such values, for a member of an object and for the text of a file.
\<close>

locale json_codec =
  fixes to_js :: "'a \<Rightarrow> json"
    and from_js :: "json \<Rightarrow> 'a res"
  assumes round_trip: "from_js (to_js x) = Inr x"
    and to_js_canon: "json_canon (to_js x)"
begin

lemma vector_canon: "json_canon (put_vector to_js xs)"
  by (rule put_vector_canon) (rule to_js_canon)

lemma text_round_trip:
  "dumpable (to_js x) \<Longrightarrow> rbind (json_read strtod (json_text (to_js x))) from_js = Inr x"
  using strict_parse_read[OF canon_parse_text[OF _ to_js_canon]] by (simp add: round_trip)

text \<open>A text that the serialiser wrote is read as the structure it was written from.\<close>

lemma written_round_trip:
  assumes "json_write junk (to_js x) = Inr t"
  shows "rbind (json_read strtod t) from_js = Inr x"
proof -
  have "dumpable (to_js x)" using json_write_eq(2)[of "to_js x" junk] assms by auto
  with text_round_trip assms json_write_eq(1)[of "to_js x" junk] show ?thesis by auto
qed

lemma vector_round_trip: "get_vector from_js (put_vector to_js xs) = Inr xs"
  by (rule get_put_vector) (rule round_trip)

lemma to_js_inj: "to_js x = to_js y \<Longrightarrow> x = y"
  by (metis round_trip sum.inject(2))

lemma missing_key: "json_at j key = Inl e \<Longrightarrow> at_get j key from_js = Inl e"
  by (simp add: at_get_def)

end

lemmas at_get_simps = at_get_def json_at_inits canon_inits

lemma kindTable_canon: "json_canon (enum_to_json kindTable k)"
  by (cases k) (simp_all add: enum_to_json_def kindTable_def)

lemma kindTable_round_trip: "enum_from_json kindTable (enum_to_json kindTable k) = k"
  by (rule enum_round_trip) (cases k; simp add: kindTable_def)+

interpretation mim: json_codec to_json_MachineInstanceMode from_json_MachineInstanceMode
  by unfold_locales
    (simp_all add: to_json_MachineInstanceMode_def from_json_MachineInstanceMode_def at_get_simps)

interpretation opt: json_codec to_json_StartupOption from_json_StartupOption
  by unfold_locales
    (simp_all add: to_json_StartupOption_def from_json_StartupOption_def at_get_simps
      kindTable_round_trip kindTable_canon)

interpretation conf: json_codec to_json_ModeDepStartupConfig from_json_ModeDepStartupConfig
  by unfold_locales
    (simp_all add: to_json_ModeDepStartupConfig_def from_json_ModeDepStartupConfig_def at_get_simps
      mim.vector_round_trip mim.vector_canon opt.vector_round_trip opt.vector_canon)

interpretation proc: json_codec to_json_Process from_json_Process
  by unfold_locales
    (simp_all add: to_json_Process_def from_json_Process_def at_get_simps conf.vector_round_trip conf.vector_canon)

interpretation ami: json_codec to_json_ApplicationManifestInternal from_json_ApplicationManifestInternal
  by unfold_locales
    (simp_all add: to_json_ApplicationManifestInternal_def from_json_ApplicationManifestInternal_def
      at_get_simps proc.vector_round_trip proc.vector_canon)

interpretation am: json_codec to_json_ApplicationManifest from_json_ApplicationManifest
  by unfold_locales
    (simp_all add: to_json_ApplicationManifest_def from_json_ApplicationManifest_def at_get_simps
      ami.round_trip ami.to_js_canon)

interpretation md: json_codec to_json_Mode from_json_Mode
  by unfold_locales (simp_all add: to_json_Mode_def from_json_Mode_def at_get_simps)

interpretation mdg: json_codec to_json_ModeDeclarationGroup from_json_ModeDeclarationGroup
  by unfold_locales
    (simp_all add: to_json_ModeDeclarationGroup_def from_json_ModeDeclarationGroup_def at_get_simps
      md.vector_round_trip md.vector_canon)

interpretation mmi: json_codec to_json_MachineManifestInternal from_json_MachineManifestInternal
  by unfold_locales
    (simp_all add: to_json_MachineManifestInternal_def from_json_MachineManifestInternal_def
      at_get_simps mdg.vector_round_trip mdg.vector_canon)

interpretation mm: json_codec to_json_MachineManifest from_json_MachineManifest
  by unfold_locales
    (simp_all add: to_json_MachineManifest_def from_json_MachineManifest_def at_get_simps
      mmi.round_trip mmi.to_js_canon)

section \<open>Properties\<close>

text \<open>
  Both kinds of manifest survive serialisation: what \<^verbatim>\<open>to_json\<close> writes for an application manifest
  or a machine manifest, \<^verbatim>\<open>from_json\<close> reads back as the same manifest, with every process,
  configuration, mode and startup option.
\<close>

theorem manifests_round_trip:
  "from_json_ApplicationManifest (to_json_ApplicationManifest m) = Inr m \<and>
   from_json_MachineManifest (to_json_MachineManifest mm) = Inr mm"
  using am.round_trip mm.round_trip by blast

text \<open>
  A startup option with a kind that is not one of the three known texts is not rejected: it is
  read as a simple option, whose command line is its name alone, without dashes and argument.
\<close>

theorem unknown_option_kind_is_simple:
  assumes "json_at j ''Option_kind'' = Inr k" "json_at j ''Option_name'' = Inr (JString n)"
    and "json_at j ''Option_arg'' = Inr (JString a)"
    and "k \<notin> JString ` {''commandLineSimpleForm'', ''commandLineShortForm'', ''commandLineLongForm''}"
  shows "\<exists>opt. from_json_StartupOption j = Inr opt \<and> optionKind opt = commandLineSimpleForm \<and>
           makeCommandLineOption opt = n"
  using assms
  by (auto simp: from_json_StartupOption_def at_get_def enum_from_json_def kindTable_def
      makeCommandLineOption_def)

theorem unknown_option_kind_is_simple_witness:
  "\<exists>opt. from_json_StartupOption (json_init [kv ''Option_kind'' (JString ''longForm''),
       kv ''Option_name'' (JString ''verbose''), kv ''Option_arg'' (JString ''1'')]) = Inr opt \<and>
     optionKind opt = commandLineSimpleForm \<and> makeCommandLineOption opt = ''verbose''"
  by (rule unknown_option_kind_is_simple[of _ "JString ''longForm''" _ "''1''"])
    (simp_all add: json_at_inits)

end
