(* ===== verification/Manifest_Reader.thy ===== *)
theory Manifest_Reader
  imports Manifests Common
begin

text \<open>
  \<^verbatim>\<open>common/other/src/manifest_reader.cpp\<close>: the table from machine states to the services allowed in
  them, and the machine states of the machine manifest. The file system is a parameter: \<open>readdir\<close>
  lists a directory (\<open>Inl\<close> with the text of \<^verbatim>\<open>strerror\<close> when \<^verbatim>\<open>opendir\<close> fails), \<open>fs\<close> gives a file's
  content (\<open>None\<close> when it cannot be opened). Files are parsed by \<open>json_read\<close>; \<open>strtod\<close> is the
  function of the C library.
\<close>

type_synonym allowed_map = "(string \<times> string list) list"

record ManifestReaderConf =
  pathToApplicationsFolder :: string
  machineManifestFilePath :: string

definition default_conf :: ManifestReaderConf where
  "default_conf =
     \<lparr>pathToApplicationsFolder = ''./bin/applications'',
      machineManifestFilePath = ''../applications/ExecutionManager/machine_manifest.json''\<rparr>"

definition machineStateFunctionGroup :: string where
  "machineStateFunctionGroup = ''MachineState''"

text \<open>A stream on a file that cannot be opened is empty.\<close>

definition getJsonData ::
    "(string \<Rightarrow> string option) \<Rightarrow> (string \<Rightarrow> 64 word) \<Rightarrow> string \<Rightarrow> json res" where
  "getJsonData fs strtod manifestPath =
     json_read strtod (case fs manifestPath of None \<Rightarrow> [] | Some content \<Rightarrow> content)"

definition getListOfApplications ::
    "ManifestReaderConf \<Rightarrow> (string \<Rightarrow> string + string list) \<Rightarrow> string list res" where
  "getListOfApplications conf readdir =
     (case readdir (pathToApplicationsFolder conf) of
        Inl err \<Rightarrow>
          Inl (RuntimeError (''Error opening directory: '' @ pathToApplicationsFolder conf @ '' '' @ err))
      | Inr names \<Rightarrow>
          Inr (foldl (\<lambda>fileNames n. if n \<noteq> ''.'' \<and> n \<noteq> ''..'' then set_insert n fileNames else fileNames)
                 [] names))"

text \<open>The body of the innermost loop: \<^verbatim>\<open>res[mode.mode].insert(...)\<close>.\<close>

definition addMode :: "string \<Rightarrow> allowed_map \<Rightarrow> MachineInstanceMode \<Rightarrow> allowed_map" where
  "addMode service res m =
     (if functionGroup m = machineStateFunctionGroup
      then let (procs, res') = map_index [] (mim_mode m) res
           in map_put (mim_mode m) (set_insert service procs) res'
      else res)"

definition addConf :: "string \<Rightarrow> allowed_map \<Rightarrow> ModeDepStartupConfig \<Rightarrow> allowed_map" where
  "addConf service res conf = foldl (addMode service) res (modes conf)"

definition addProcess :: "string \<Rightarrow> allowed_map \<Rightarrow> Process \<Rightarrow> allowed_map" where
  "addProcess manifestId res p =
     foldl (addConf (getServiceName manifestId (proc_name p))) res (modeDependentStartupConf p)"

definition addManifest :: "allowed_map \<Rightarrow> ApplicationManifest \<Rightarrow> allowed_map" where
  "addManifest res m =
     foldl (addProcess (am_manifestId (am_manifest m))) res (processes (am_manifest m))"

fun loadManifests ::
    "(string \<Rightarrow> ApplicationManifest res) \<Rightarrow> string list \<Rightarrow> allowed_map \<Rightarrow> allowed_map res" where
  "loadManifests load [] res = Inr res"
| "loadManifests load (file # files) res =
     rbind (load file) (\<lambda>m. loadManifests load files (addManifest res m))"

definition loadApplication ::
    "ManifestReaderConf \<Rightarrow> (string \<Rightarrow> string option) \<Rightarrow> (string \<Rightarrow> 64 word) \<Rightarrow> string
       \<Rightarrow> ApplicationManifest res" where
  "loadApplication conf fs strtod file =
     rbind (getJsonData fs strtod (pathToApplicationsFolder conf @ ''/'' @ file @ ''/manifest.json''))
       from_json_ApplicationManifest"

definition getStatesSupportedByApplication ::
    "ManifestReaderConf \<Rightarrow> (string \<Rightarrow> string + string list) \<Rightarrow> (string \<Rightarrow> string option)
       \<Rightarrow> (string \<Rightarrow> 64 word) \<Rightarrow> allowed_map res" where
  "getStatesSupportedByApplication conf readdir fs strtod =
     rbind (getListOfApplications conf readdir) (\<lambda>applicationNames.
       loadManifests (loadApplication conf fs strtod) applicationNames [])"

definition getMachineStates ::
    "ManifestReaderConf \<Rightarrow> (string \<Rightarrow> string option) \<Rightarrow> (string \<Rightarrow> 64 word) \<Rightarrow> string list res" where
  "getMachineStates conf fs strtod =
     rbind (getJsonData fs strtod (machineManifestFilePath conf)) (\<lambda>manifestData.
     rbind (from_json_MachineManifest manifestData) (\<lambda>manifest.
       case find (\<lambda>g. functionGroupName g = machineStateFunctionGroup)
              (modeDeclarationGroups (mm_manifest manifest)) of
         None \<Rightarrow> Inr []
       | Some g \<Rightarrow> Inr (map mode_mode (modeDeclarations g))))"

section \<open>What the table contains\<close>

text \<open>The services the table allows in a state (none when the state has no entry).\<close>

definition allowed :: "allowed_map \<Rightarrow> string \<Rightarrow> string set" where
  "allowed res st = (case map_find st res of None \<Rightarrow> {} | Some procs \<Rightarrow> set procs)"

definition wf_allowed :: "allowed_map \<Rightarrow> bool" where
  "wf_allowed res \<longleftrightarrow> std_map res \<and> (\<forall>(st, procs) \<in> set res. std_sorted procs)"

text \<open>The declarative reading of a manifest: which (state, service) pairs it declares.\<close>

definition declares :: "ApplicationManifest \<Rightarrow> string \<Rightarrow> string \<Rightarrow> bool" where
  "declares m st service \<longleftrightarrow>
     (\<exists>p \<in> set (processes (am_manifest m)).
        service = getServiceName (am_manifestId (am_manifest m)) (proc_name p) \<and>
        (\<exists>c \<in> set (modeDependentStartupConf p). \<exists>md \<in> set (modes c).
           functionGroup md = machineStateFunctionGroup \<and> mim_mode md = st))"

lemma wf_allowed_empty [simp]: "wf_allowed []"
  by (simp add: wf_allowed_def)

lemma wf_allowed_find: "wf_allowed res \<Longrightarrow> map_find st res = Some procs \<Longrightarrow> std_sorted procs"
  by (auto simp: wf_allowed_def dest: map_find_SomeD)

lemma wf_allowed_put: "wf_allowed res \<Longrightarrow> std_sorted procs \<Longrightarrow> wf_allowed (map_put st procs res)"
  by (auto simp: wf_allowed_def dest!: map_put_values)

lemma wf_allowed_index: "wf_allowed res \<Longrightarrow> wf_allowed (snd (map_index [] st res))"
  by (auto simp: map_index_def wf_allowed_put split: option.split)

lemma wf_allowed_keep: "wf_allowed res \<Longrightarrow> wf_allowed (map_keep p res)"
  by (auto simp: wf_allowed_def) (auto simp: map_keep_def)

lemma wf_allowed_std: "wf_allowed res \<Longrightarrow> std_map res"
  by (simp add: wf_allowed_def)

lemma addMode_allowed:
  assumes "wf_allowed res"
  shows "allowed (addMode service res m) st =
           allowed res st \<union>
           (if functionGroup m = machineStateFunctionGroup \<and> mim_mode m = st then {service} else {})"
  using wf_allowed_std[OF assms]
  by (auto simp: addMode_def allowed_def map_index_def map_find_put split: option.splits if_splits)

lemma addMode_wf: "wf_allowed res \<Longrightarrow> wf_allowed (addMode service res m)"
  using wf_allowed_find[of res "mim_mode m"]
  by (auto simp: addMode_def map_index_def wf_allowed_put split: option.split)

text \<open>A loop whose body adds to the table keeps it well formed and adds what its steps add.\<close>

lemma foldl_allowed:
  assumes "\<And>res x. wf_allowed res \<Longrightarrow> wf_allowed (f res x)"
    and "\<And>res x. wf_allowed res \<Longrightarrow> allowed (f res x) st = allowed res st \<union> g x"
    and "wf_allowed res"
  shows "wf_allowed (foldl f res xs) \<and> allowed (foldl f res xs) st = allowed res st \<union> (\<Union>x\<in>set xs. g x)"
  using assms(3)
proof (induction xs arbitrary: res)
  case Nil
  then show ?case by simp
next
  case (Cons x xs)
  from Cons.IH[OF assms(1)[OF Cons.prems]] assms(2)[OF Cons.prems] show ?case
    by auto
qed

lemma addConf_spec:
  "wf_allowed res \<Longrightarrow> wf_allowed (addConf service res c) \<and>
     allowed (addConf service res c) st = allowed res st \<union>
       (\<Union>m\<in>set (modes c). if functionGroup m = machineStateFunctionGroup \<and> mim_mode m = st
                            then {service} else {})"
  unfolding addConf_def by (rule foldl_allowed) (simp_all add: addMode_wf addMode_allowed)

lemma addProcess_spec:
  "wf_allowed res \<Longrightarrow> wf_allowed (addProcess i res p) \<and>
     allowed (addProcess i res p) st = allowed res st \<union>
       (\<Union>c\<in>set (modeDependentStartupConf p). \<Union>m\<in>set (modes c).
          if functionGroup m = machineStateFunctionGroup \<and> mim_mode m = st
          then {getServiceName i (proc_name p)} else {})"
  unfolding addProcess_def by (rule foldl_allowed) (simp_all add: addConf_spec)

lemma addManifest_spec:
  assumes "wf_allowed res"
  shows "wf_allowed (addManifest res m) \<and>
         allowed (addManifest res m) st = allowed res st \<union> {service. declares m st service}"
proof -
  let ?i = "am_manifestId (am_manifest m)"
  have "wf_allowed (addManifest res m) \<and> allowed (addManifest res m) st = allowed res st \<union>
      (\<Union>p\<in>set (processes (am_manifest m)). \<Union>c\<in>set (modeDependentStartupConf p). \<Union>md\<in>set (modes c).
          if functionGroup md = machineStateFunctionGroup \<and> mim_mode md = st
          then {getServiceName ?i (proc_name p)} else {})"
    unfolding addManifest_def by (rule foldl_allowed) (simp_all add: addProcess_spec assms)
  then show ?thesis
    by (auto simp: declares_def split: if_splits)
qed

lemma loadManifests_spec:
  "loadManifests load files res = Inr out \<Longrightarrow> wf_allowed res \<Longrightarrow>
     wf_allowed out \<and>
     allowed out st = allowed res st \<union>
       {service. \<exists>file \<in> set files. \<exists>m. load file = Inr m \<and> declares m st service}"
proof (induction load files res rule: loadManifests.induct)
  case (1 load res)
  then show ?case by simp
next
  case (2 load f files res)
  from 2(2) obtain m where m: "load f = Inr m"
    and rest: "loadManifests load files (addManifest res m) = Inr out"
    by (auto simp: std_simps)
  from addManifest_spec[OF 2(3), of m st] have am: "wf_allowed (addManifest res m)"
    "allowed (addManifest res m) st = allowed res st \<union> {service. declares m st service}"
    by blast+
  from 2(1)[OF rest am(1)] am(2) m show ?case by auto
qed

lemma loadManifests_total_iff:
  "(\<exists>tab. loadManifests load files res = Inr tab) \<longleftrightarrow> (\<forall>file\<in>set files. \<exists>m. load file = Inr m)"
proof (induction load files res rule: loadManifests.induct)
  case (1 load res)
  then show ?case by simp
next
  case (2 load f files res)
  then show ?case by (cases "load f") auto
qed

lemma getListOfApplications_spec:
  assumes "readdir (pathToApplicationsFolder conf) = Inr names"
  shows "\<exists>apps. getListOfApplications conf readdir = Inr apps \<and> std_sorted apps \<and>
           set apps = set names - {''.'', ''..''}"
proof -
  let ?f = "\<lambda>fileNames n. if n \<noteq> ''.'' \<and> n \<noteq> ''..'' then set_insert n fileNames else fileNames"
  have "std_sorted acc \<Longrightarrow> std_sorted (foldl ?f acc names) \<and>
      set (foldl ?f acc names) = set acc \<union> (set names - {''.'', ''..''})" for acc
    by (induction names arbitrary: acc) (auto split: if_splits)
  from this[of "[]"] assms show ?thesis
    by (simp add: getListOfApplications_def)
qed

section \<open>Strings of a manifest\<close>

text \<open>A structure that is converted from a parsed value has only strings in UTF-8.\<close>

lemma typed_at: "json_typed j \<Longrightarrow> json_at j k = Inr v \<Longrightarrow> json_typed v"
  by (cases j) (auto split: option.splits dest: map_find_SomeD)

lemma at_get_InrE:
  assumes "at_get j k get = Inr x" "json_typed j"
  obtains v where "json_typed v" "get v = Inr x"
  using assms(1) typed_at[OF assms(2)] by (auto simp: at_get_def std_simps)

lemma typed_vector:
  assumes "json_typed j" "get_vector get j = Inr xs" "\<And>v x. json_typed v \<Longrightarrow> get v = Inr x \<Longrightarrow> P x"
  shows "\<forall>x \<in> set xs. P x"
proof -
  from assms(2) obtain js where j: "j = JArray js" "rmap get js = Inr xs" by (cases j) auto
  with assms(1) have "\<forall>v \<in> set js. json_typed v" by simp
  with j(2) assms(3) show ?thesis
    by (induction js arbitrary: xs) (auto simp: std_simps)
qed

lemma typed_at_vector:
  assumes "at_get j k (get_vector get) = Inr xs" "json_typed j" "\<And>v x. json_typed v \<Longrightarrow> get v = Inr x \<Longrightarrow> P x"
  shows "\<forall>x \<in> set xs. P x"
proof -
  from assms(1,2) obtain v where "json_typed v" "get_vector get v = Inr xs" by (rule at_get_InrE)
  then show ?thesis using assms(3) by (rule typed_vector)
qed

lemma typed_string: "json_typed j \<Longrightarrow> get_string j = Inr s \<Longrightarrow> utf8_valid s"
  by (cases j) auto

lemma Mode_utf8:
  assumes "json_typed j" "from_json_Mode j = Inr m"
  shows "utf8_valid (mode_mode m)"
proof -
  from assms(2) have "at_get j ''Mode'' get_string = Inr (mode_mode m)"
    by (auto simp: from_json_Mode_def std_simps)
  from this assms(1) obtain v where "json_typed v" "get_string v = Inr (mode_mode m)" by (rule at_get_InrE)
  then show ?thesis by (rule typed_string)
qed

lemma ModeDeclarationGroup_utf8:
  assumes "json_typed j" "from_json_ModeDeclarationGroup j = Inr g"
  shows "\<forall>md \<in> set (modeDeclarations g). utf8_valid (mode_mode md)"
proof -
  from assms(2) have "at_get j ''Mode_declarations'' (get_vector from_json_Mode) = Inr (modeDeclarations g)"
    by (auto simp: from_json_ModeDeclarationGroup_def std_simps)
  from this assms(1) Mode_utf8 show ?thesis by (rule typed_at_vector)
qed

lemma MachineManifestInternal_utf8:
  assumes "json_typed j" "from_json_MachineManifestInternal j = Inr m"
  shows "\<forall>g \<in> set (modeDeclarationGroups m). \<forall>md \<in> set (modeDeclarations g). utf8_valid (mode_mode md)"
proof -
  from assms(2) have "at_get j ''Mode_declaration_group'' (get_vector from_json_ModeDeclarationGroup) =
      Inr (modeDeclarationGroups m)"
    by (auto simp: from_json_MachineManifestInternal_def std_simps)
  from this assms(1) ModeDeclarationGroup_utf8 show ?thesis by (rule typed_at_vector)
qed

lemma MachineManifest_utf8:
  assumes "json_typed j" "from_json_MachineManifest j = Inr m"
  shows "\<forall>g \<in> set (modeDeclarationGroups (mm_manifest m)). \<forall>md \<in> set (modeDeclarations g). utf8_valid (mode_mode md)"
proof -
  from assms(2) have "at_get j ''Machine_manifest'' from_json_MachineManifestInternal = Inr (mm_manifest m)"
    by (auto simp: from_json_MachineManifest_def std_simps)
  from this assms(1) obtain v where "json_typed v" "from_json_MachineManifestInternal v = Inr (mm_manifest m)"
    by (rule at_get_InrE)
  then show ?thesis by (rule MachineManifestInternal_utf8)
qed

lemma machine_states_utf8:
  assumes "getMachineStates conf fs strtod = Inr states" "st \<in> set states"
  shows "utf8_valid st"
proof -
  from assms(1) obtain j m where j: "getJsonData fs strtod (machineManifestFilePath conf) = Inr j"
    "from_json_MachineManifest j = Inr m"
    and g: "states = [] \<or> (\<exists>g. find (\<lambda>g. functionGroupName g = machineStateFunctionGroup)
              (modeDeclarationGroups (mm_manifest m)) = Some g \<and> states = map mode_mode (modeDeclarations g))"
    by (auto simp: getMachineStates_def std_simps split: option.splits)
  from j(1) have "json_typed j" unfolding getJsonData_def json_read_def by (rule parse_typed)
  note utf8 = MachineManifest_utf8[OF this j(2)]
  from g assms(2) obtain g where g: "find (\<lambda>g. functionGroupName g = machineStateFunctionGroup)
      (modeDeclarationGroups (mm_manifest m)) = Some g" "st \<in> mode_mode ` set (modeDeclarations g)" by auto
  from g(1) have "g \<in> set (modeDeclarationGroups (mm_manifest m))" by (metis find_Some_iff nth_mem)
  with utf8 g(2) show ?thesis by auto
qed

section \<open>Properties\<close>

text \<open>A one-application installation for the concrete runs.\<close>

definition sample_manifest :: ApplicationManifest where
  "sample_manifest =
     \<lparr>am_manifest = \<lparr>am_manifestId = ''App'',
        processes = [\<lparr>proc_name = ''proc1'',
          modeDependentStartupConf =
            [\<lparr>modes = [\<lparr>functionGroup = ''MachineState'', mim_mode = ''Running''\<rparr>,
                       \<lparr>functionGroup = ''Other'', mim_mode = ''Living''\<rparr>],
              startupOptions = []\<rparr>]\<rparr>]\<rparr>\<rparr>"

definition sample_machine :: MachineManifest where
  "sample_machine =
     \<lparr>mm_manifest = \<lparr>mm_manifestId = ''Machine'',
        modeDeclarationGroups =
          [\<lparr>functionGroupName = ''Other'', modeDeclarations = [\<lparr>mode_mode = ''X''\<rparr>]\<rparr>,
           \<lparr>functionGroupName = ''MachineState'',
             modeDeclarations = [\<lparr>mode_mode = ''Running''\<rparr>, \<lparr>mode_mode = ''Suspend''\<rparr>]\<rparr>]\<rparr>\<rparr>"

definition sample_readdir :: "string \<Rightarrow> string + string list" where
  "sample_readdir d = Inr [''.'', ''..'', ''App'']"

text \<open>Two files, with the texts of the two manifests.\<close>

definition sample_strtod :: "string \<Rightarrow> 64 word" where
  "sample_strtod _ = 0"

definition sample_fs :: "string \<Rightarrow> string option" where
  "sample_fs f =
     (if f = machineManifestFilePath default_conf
      then Some (json_text (to_json_MachineManifest sample_machine))
      else if f = ''./bin/applications/App/manifest.json''
      then Some (json_text (to_json_ApplicationManifest sample_manifest)) else None)"

lemmas sample_text_simps = sample_machine_def sample_manifest_def to_json_MachineManifest_def
  to_json_MachineManifestInternal_def to_json_ModeDeclarationGroup_def to_json_Mode_def
  to_json_ApplicationManifest_def to_json_ApplicationManifestInternal_def to_json_Process_def
  to_json_ModeDepStartupConfig_def to_json_MachineInstanceMode_def put_vector_def

lemma sample_dumpable:
  "dumpable (to_json_MachineManifest sample_machine)" "dumpable (to_json_ApplicationManifest sample_manifest)"
  by (simp_all add: sample_text_simps dumpable_inits ascii_utf8 ascii_def)

lemma sample_load: "loadApplication default_conf sample_fs sample_strtod ''App'' = Inr sample_manifest"
  using am.text_round_trip[OF sample_dumpable(2)]
  by (simp add: loadApplication_def getJsonData_def sample_fs_def default_conf_def)

lemma sample_machine_read:
  "sample_fs (machineManifestFilePath default_conf) = Some (json_text (to_json_MachineManifest sample_machine))"
  "rbind (json_read sample_strtod (json_text (to_json_MachineManifest sample_machine)))
     from_json_MachineManifest = Inr sample_machine"
  using mm.text_round_trip[OF sample_dumpable(1)] by (simp_all add: sample_fs_def)

lemma sample_machine_states: "getMachineStates default_conf sample_fs sample_strtod = Inr [''Running'', ''Suspend'']"
  using sample_machine_read
  by (auto simp: getMachineStates_def getJsonData_def machineStateFunctionGroup_def sample_machine_def std_simps)

lemma sample_table:
  "getStatesSupportedByApplication default_conf sample_readdir sample_fs sample_strtod =
     Inr [(''Running'', [''App_proc1''])]"
proof -
  have "getListOfApplications default_conf sample_readdir = Inr [''App'']" by code_simp
  moreover have "addManifest [] sample_manifest = [(''Running'', [''App_proc1''])]" by code_simp
  ultimately show ?thesis by (simp add: getStatesSupportedByApplication_def sample_load)
qed

text \<open>
  The table of allowed services is exactly what the installed manifests declare: every directory
  entry but "." and ".." is an application.
\<close>

lemma table_declares:
  assumes "getStatesSupportedByApplication conf readdir fs strtod = Inr tab"
    and "readdir (pathToApplicationsFolder conf) = Inr names"
  shows "wf_allowed tab \<and> allowed tab st = {service. \<exists>file m. file \<in> set names - {''.'', ''..''} \<and>
           loadApplication conf fs strtod file = Inr m \<and> declares m st service}"
proof -
  from getListOfApplications_spec[where readdir = readdir, OF assms(2)] obtain apps where
    apps: "getListOfApplications conf readdir = Inr apps" "set apps = set names - {''.'', ''..''}"
    by blast
  from assms(1) apps(1) have "loadManifests (loadApplication conf fs strtod) apps [] = Inr tab"
    by (simp add: getStatesSupportedByApplication_def)
  from loadManifests_spec[OF this wf_allowed_empty, of st] apps(2) show ?thesis
    by (auto simp: allowed_def map_find_def)
qed

text \<open>
  Reading the manifests succeeds if and only if the applications directory can be opened and
  the manifest of every application in it can be read, parsed and converted; a single bad manifest
  makes the whole reading throw.
\<close>

lemma table_built_iff:
  "(\<exists>tab. getStatesSupportedByApplication conf readdir fs strtod = Inr tab) \<longleftrightarrow>
   (\<exists>names. readdir (pathToApplicationsFolder conf) = Inr names \<and>
      (\<forall>file. file \<in> set names - {''.'', ''..''} \<longrightarrow>
         (\<exists>m. loadApplication conf fs strtod file = Inr m)))"
proof (cases "readdir (pathToApplicationsFolder conf)")
  case (Inl e)
  then show ?thesis
    by (simp add: getStatesSupportedByApplication_def getListOfApplications_def)
next
  case (Inr names)
  from getListOfApplications_spec[where readdir = readdir, OF Inr] obtain apps where
    apps: "getListOfApplications conf readdir = Inr apps" "set apps = set names - {''.'', ''..''}"
    by blast
  have "(\<exists>tab. loadManifests (loadApplication conf fs strtod) apps [] = Inr tab) \<longleftrightarrow>
      (\<forall>file\<in>set apps. \<exists>m. loadApplication conf fs strtod file = Inr m)"
    by (rule loadManifests_total_iff)
  with Inr apps show ?thesis
    unfolding Ball_def by (simp add: getStatesSupportedByApplication_def)
qed

text \<open>
  The machine states are the modes of the first mode-declaration group named MachineState of
  the machine manifest, in their order, and there are none when the manifest has no such group.
  (The file holds a text that the parser and the conversion accept.)
\<close>

theorem getMachineStates_first_group:
  assumes "fs (machineManifestFilePath conf) = Some txt"
    and "rbind (json_read strtod txt) from_json_MachineManifest = Inr m"
  shows "(\<forall>before g after.
            modeDeclarationGroups (mm_manifest m) = before @ g # after \<longrightarrow>
            functionGroupName g = ''MachineState'' \<longrightarrow>
            (\<forall>g' \<in> set before. functionGroupName g' \<noteq> ''MachineState'') \<longrightarrow>
            getMachineStates conf fs strtod = Inr (map mode_mode (modeDeclarations g))) \<and>
         ((\<forall>g \<in> set (modeDeclarationGroups (mm_manifest m)). functionGroupName g \<noteq> ''MachineState'') \<longrightarrow>
            getMachineStates conf fs strtod = Inr [])"
proof -
  let ?P = "\<lambda>g. functionGroupName g = ''MachineState''"
  have eq: "getMachineStates conf fs strtod =
      (case find ?P (modeDeclarationGroups (mm_manifest m)) of
         None \<Rightarrow> Inr [] | Some g \<Rightarrow> Inr (map mode_mode (modeDeclarations g)))"
    using assms by (auto simp: getMachineStates_def getJsonData_def machineStateFunctionGroup_def std_simps)
  have found: "?P g \<Longrightarrow> \<forall>g' \<in> set before. \<not> ?P g' \<Longrightarrow> find ?P (before @ g # after) = Some g" for before g after
    by (induction before) auto
  have absent: "\<forall>g \<in> set gs. \<not> ?P g \<Longrightarrow> find ?P gs = None" for gs
    by (induction gs) auto
  show ?thesis
    unfolding eq by (intro conjI allI impI) (simp_all only: found absent option.case)
qed

theorem getMachineStates_first_group_witness:
  "getMachineStates default_conf sample_fs sample_strtod = Inr [''Running'', ''Suspend'']"
proof -
  let ?gs = "modeDeclarationGroups (mm_manifest sample_machine)"
  have "?gs = [?gs ! 0] @ ?gs ! 1 # []" "functionGroupName (?gs ! 1) = ''MachineState''"
    "\<forall>g' \<in> set [?gs ! 0]. functionGroupName g' \<noteq> ''MachineState''"
    by (simp_all add: sample_machine_def)
  with getMachineStates_first_group[where fs = sample_fs, OF sample_machine_read]
  have "getMachineStates default_conf sample_fs sample_strtod =
      Inr (map mode_mode (modeDeclarations (?gs ! 1)))" by blast
  then show ?thesis by (simp add: sample_machine_def)
qed

text \<open>
  C30. A manifest file that was written with the library's serialiser is read back as the manifest it
  was written from: the application manifest in the directory of the application, the machine
  manifest at its configured path. Whatever the strings hold, if the writing succeeded (that is, if
  they are UTF-8) the reader restores every field.
\<close>

theorem written_manifests_are_read:
  assumes "json_write junk (to_json_ApplicationManifest m) = Inr atext"
    and "json_write junk (to_json_MachineManifest mm) = Inr mtext"
    and "fs (pathToApplicationsFolder conf @ ''/'' @ file @ ''/manifest.json'') = Some atext"
    and "fs (machineManifestFilePath conf) = Some mtext"
  shows "loadApplication conf fs strtod file = Inr m \<and>
         rbind (getJsonData fs strtod (machineManifestFilePath conf)) from_json_MachineManifest = Inr mm"
  using am.written_round_trip[OF assms(1)] mm.written_round_trip[OF assms(2)] assms(3,4)
  by (simp add: loadApplication_def getJsonData_def)

theorem written_manifests_are_read_witness:
  "loadApplication default_conf sample_fs sample_strtod ''App'' = Inr sample_manifest"
  using written_manifests_are_read[of 0 sample_manifest _ sample_machine _ sample_fs default_conf "''App''" sample_strtod,
      OF json_write_eq(1)[OF sample_dumpable(2)] json_write_eq(1)[OF sample_dumpable(1)]]
  by (simp add: sample_fs_def default_conf_def)

end
