(* ===== verification/Protocol.thy ===== *)
theory Protocol
  imports Common
begin

text \<open>
  The enumerations of the Cap'n Proto interfaces under \<^verbatim>\<open>gen/\<close> that the execution manager, the
  machine state manager and the applications exchange. An enumerator's number is its wire value;
  a result field that a server does not set keeps the value 0.
\<close>

datatype StateError = K_SUCCESS | K_INVALID_STATE | K_INVALID_REQUEST | K_TIMEOUT

datatype ComponentClientReturnType =
  CC_SUCCESS | CC_GENERAL_ERROR | CC_PENDING | CC_INVALID | CC_UNCHANGED

datatype StateUpdateMode = K_POLL | K_EVENT

datatype ApplicationState = K_INITIALIZING | K_RUNNING | K_SHUTTINGDOWN | SUSPEND

text \<open>The value that an unset field of that type has on the wire.\<close>

definition StateError_default :: StateError where
  "StateError_default = K_SUCCESS"

fun ApplicationState_value :: "ApplicationState \<Rightarrow> 16 word" where
  "ApplicationState_value K_INITIALIZING = 0"
| "ApplicationState_value K_RUNNING = 1"
| "ApplicationState_value K_SHUTTINGDOWN = 2"
| "ApplicationState_value SUSPEND = 3"

end
