(* ===== verification/Exec_Manager.thy ===== *)
theory Exec_Manager
  imports Manifest_Reader Protocol
begin

text \<open>
  \<^verbatim>\<open>applications/ExecutionManager/src/execution_manager.cpp\<close>: the state of class
  \<open>ExecutionManager\<close> and each of its methods. Calls to the application handler and to the RPC
  client are recorded in order in \<open>em_calls\<close>. Two threads use the object: the worker thread that
  runs \<open>setMachineState\<close> and the RPC thread that runs the other public methods. \<open>setMachineState\<close>
  is given twice: as a function that reads like the source and lets RPC calls in between the
  iterations of its waiting loop, and as a machine of single statements (\<open>worker_step\<close>) that RPC
  calls may interrupt anywhere.
\<close>

section \<open>State\<close>

datatype em_call =
    StartProcess string
  | KillProcess string
  | Confirm StateError
  | SetComponentState string string

record em =
  m_activeProcesses :: "string list"
  m_readyToTransitToNextState :: bool
  m_componentConfirmsReceived :: bool
  m_allowedProcessesForState :: allowed_map
  m_currentState :: string
  m_pendingState :: string
  m_currentComponentState :: string
  m_machineManifestStates :: "string list"
  m_registeredComponents :: "string list"
  m_componentPendingConfirms :: "string list"
  m_componentStateUpdateSbscrs :: "string list"
  em_calls :: "em_call list"

text \<open>\<^verbatim>\<open>enum class AppState : uint16_t\<close>\<close>

definition kInitializing :: "16 word" where "kInitializing = 0"
definition kRunning :: "16 word" where "kRunning = 1"
definition kShuttingDown :: "16 word" where "kShuttingDown = 2"

definition applicationStateNames :: "string list" where
  "applicationStateNames = [AA_STATE_INIT, AA_STATE_RUNNING, AA_STATE_SHUTDOWN, AA_STATE_SUSPEND]"

section \<open>Construction\<close>

definition filterStates :: "em \<Rightarrow> em" where
  "filterStates s =
     s\<lparr>m_allowedProcessesForState :=
        map_keep (\<lambda>st. st \<in> set (m_machineManifestStates s)) (m_allowedProcessesForState s)\<rparr>"

definition ExecutionManager_init :: "allowed_map \<Rightarrow> string list \<Rightarrow> em" where
  "ExecutionManager_init statesSupported machineStates =
     filterStates
       \<lparr>m_activeProcesses = [],
        m_readyToTransitToNextState = False,
        m_componentConfirmsReceived = False,
        m_allowedProcessesForState = statesSupported,
        m_currentState = [],
        m_pendingState = [],
        m_currentComponentState = [],
        m_machineManifestStates = machineStates,
        m_registeredComponents = [],
        m_componentPendingConfirms = [],
        m_componentStateUpdateSbscrs = [],
        em_calls = []\<rparr>"

section \<open>Methods the worker thread runs\<close>

definition em_emit :: "em_call \<Rightarrow> em \<Rightarrow> em" where
  "em_emit c s = s\<lparr>em_calls := em_calls s @ [c]\<rparr>"

definition confirmState :: "StateError \<Rightarrow> em \<Rightarrow> em" where
  "confirmState status s = em_emit (Confirm status) s"

definition startApplication :: "string \<Rightarrow> em \<Rightarrow> em" where
  "startApplication process s = em_emit (StartProcess process) s"

text \<open>The applications that \<open>startApplicationsForState\<close> collects.\<close>

definition appsToBeStarted :: "em \<Rightarrow> string list" where
  "appsToBeStarted s =
     (case map_find (m_pendingState s) (m_allowedProcessesForState s) of
        None \<Rightarrow> []
      | Some apps \<Rightarrow> filter (\<lambda>app. app \<notin> set (m_activeProcesses s)) apps)"

text \<open>
  The polling task: six rounds; \<open>alive i app\<close> is what \<open>isActiveProcess\<close> answers for \<open>app\<close> in
  round \<open>i\<close>.
\<close>

definition timesToPollApps :: nat where
  "timesToPollApps = 6"

definition pollRound :: "(string \<Rightarrow> bool) \<Rightarrow> string list \<Rightarrow> bool" where
  "pollRound isActive apps = list_ex (\<lambda>app. isActive app \<and> str_contains app ''msm'') apps"

definition isMsmAlive :: "(nat \<Rightarrow> string \<Rightarrow> bool) \<Rightarrow> string list \<Rightarrow> bool" where
  "isMsmAlive alive apps = list_ex (\<lambda>i. pollRound (alive i) apps) [0..<timesToPollApps]"

definition startApplicationsForState :: "(nat \<Rightarrow> string \<Rightarrow> bool) \<Rightarrow> em \<Rightarrow> bool \<times> em" where
  "startApplicationsForState alive s =
     (let apps = appsToBeStarted s;
          s' = fold startApplication apps s
      in if m_pendingState s = MACHINE_STATE_STARTUP then (isMsmAlive alive apps, s')
         else (True, s'))"

definition processToBeKilled :: "string \<Rightarrow> string list \<Rightarrow> bool" where
  "processToBeKilled app allowedApps = (find (\<lambda>listItem. app = listItem) allowedApps = None)"

definition killApplication :: "string \<Rightarrow> em \<Rightarrow> em" where
  "killApplication app s =
     (em_emit (KillProcess app) s)
       \<lparr>m_componentStateUpdateSbscrs := filter (\<lambda>c. c \<noteq> app) (m_componentStateUpdateSbscrs s)\<rparr>"

definition killProcessesForState :: "em \<Rightarrow> em" where
  "killProcessesForState s =
     (let allowedApps = map_find (m_pendingState s) (m_allowedProcessesForState s)
      in fold (\<lambda>app s'. case allowedApps of
                  None \<Rightarrow> killApplication app s'
                | Some apps \<Rightarrow> if processToBeKilled app apps then killApplication app s' else s')
           (m_activeProcesses s) s)"

text \<open>\<^verbatim>\<open>m_allowedProcessesForState[m_pendingState]\<close> creates a missing entry.\<close>

definition isConfirmAvailable :: "em \<Rightarrow> bool \<times> em" where
  "isConfirmAvailable s =
     (let (procs, m) = map_index [] (m_pendingState s) (m_allowedProcessesForState s);
          result = (m_activeProcesses s = procs)
      in (result, s\<lparr>m_allowedProcessesForState := m, m_readyToTransitToNextState := result\<rparr>))"

definition changeComponentsState :: "em \<Rightarrow> em" where
  "changeComponentsState s =
     (let st = (if m_pendingState s = MACHINE_STATE_SUSPEND then COMPONENT_STATE_OFF
                else COMPONENT_STATE_ON);
          s1 = s\<lparr>m_currentComponentState := st,
                 m_componentPendingConfirms :=
                   fold set_insert (m_registeredComponents s) (m_componentPendingConfirms s)\<rparr>
      in fold (\<lambda>subscriber. em_emit (SetComponentState st subscriber))
           (m_componentStateUpdateSbscrs s1) s1)"

section \<open>Methods the RPC thread runs\<close>

text \<open>The log line indexes \<open>applicationStateNames\<close> with the state.\<close>

definition reportApplicationState :: "string \<Rightarrow> 16 word \<Rightarrow> em \<Rightarrow> em res" where
  "reportApplicationState appName state s =
     (if unat state \<ge> length applicationStateNames
      then Inl (Undefined ''applicationStateNames[state]'')
      else Inr (if state = kShuttingDown
                then s\<lparr>m_activeProcesses := set_erase appName (m_activeProcesses s)\<rparr>
                else if state = kRunning
                then s\<lparr>m_activeProcesses := set_insert appName (m_activeProcesses s)\<rparr>
                else s))"

definition getMachineState :: "em \<Rightarrow> string" where
  "getMachineState s = m_currentState s"

definition registerComponent :: "string \<Rightarrow> StateUpdateMode \<Rightarrow> em \<Rightarrow> em" where
  "registerComponent component updateMode s =
     (let s1 = s\<lparr>m_registeredComponents := set_insert component (m_registeredComponents s)\<rparr>
      in if updateMode = K_EVENT
         then s1\<lparr>m_componentStateUpdateSbscrs := m_componentStateUpdateSbscrs s1 @ [component]\<rparr>
         else s1)"

text \<open>The reference parameter \<open>state\<close> is written only on success.\<close>

definition getComponentState ::
    "string \<Rightarrow> string \<Rightarrow> em \<Rightarrow> ComponentClientReturnType \<times> string" where
  "getComponentState component state s =
     (if component \<in> set (m_registeredComponents s)
      then (CC_SUCCESS, m_currentComponentState s) else (CC_GENERAL_ERROR, state))"

definition confirmComponentState ::
    "string \<Rightarrow> string \<Rightarrow> ComponentClientReturnType \<Rightarrow> em \<Rightarrow> em" where
  "confirmComponentState component state status s =
     (if m_componentPendingConfirms s = [] then s\<lparr>m_componentConfirmsReceived := True\<rparr>
      else if status = CC_GENERAL_ERROR \<or> status = CC_INVALID then s
      else let s1 = s\<lparr>m_componentPendingConfirms :=
                        set_erase component (m_componentPendingConfirms s)\<rparr>
           in s1\<lparr>m_componentConfirmsReceived := (m_componentPendingConfirms s1 = [])\<rparr>)"

section \<open>setMachineState\<close>

text \<open>The RPC calls that can arrive while the worker waits, with the states of the interface.\<close>

datatype em_rpc =
    Report string ApplicationState
  | Register string StateUpdateMode
  | ConfirmComponent string string ComponentClientReturnType

fun apply_rpc :: "em_rpc \<Rightarrow> em \<Rightarrow> em" where
  "apply_rpc (Report app st) s =
     (case reportApplicationState app (ApplicationState_value st) s of Inl _ \<Rightarrow> s | Inr s' \<Rightarrow> s')"
| "apply_rpc (Register c mode) s = registerComponent c mode s"
| "apply_rpc (ConfirmComponent c st status) s = confirmComponentState c st status s"

text \<open>Lines 232 to 248: the flags are reset and the requested state is checked.\<close>

definition checkRequest :: "string \<Rightarrow> em \<Rightarrow> StateError option \<times> em" where
  "checkRequest state s =
     (let s1 = s\<lparr>m_readyToTransitToNextState := False, m_componentConfirmsReceived := False\<rparr>
      in if state \<notin> set (m_machineManifestStates s1) then (Some K_INVALID_STATE, s1)
         else if state = m_currentState s1 then (Some K_INVALID_STATE, s1)
         else (None, s1\<lparr>m_pendingState := state\<rparr>))"

text \<open>The two waiting loops (lines 270 to 286): the condition and one iteration.\<close>

definition waitsForComponents :: "em \<Rightarrow> bool" where
  "waitsForComponents s \<longleftrightarrow>
     m_pendingState s = MACHINE_STATE_SUSPEND \<or> m_pendingState s = MACHINE_STATE_RUNNING"

definition waiting :: "em \<Rightarrow> bool" where
  "waiting s \<longleftrightarrow>
     (if waitsForComponents s
      then \<not> m_readyToTransitToNextState s \<and> \<not> m_componentConfirmsReceived s
      else \<not> m_readyToTransitToNextState s)"

definition waitReady :: "em \<Rightarrow> em" where
  "waitReady s = (let (r, s') = isConfirmAvailable s in s'\<lparr>m_readyToTransitToNextState := r\<rparr>)"

definition waitConfirms :: "em \<Rightarrow> em" where
  "waitConfirms s = s\<lparr>m_componentConfirmsReceived := (m_componentPendingConfirms s = [])\<rparr>"

definition waitBody :: "em \<Rightarrow> em" where
  "waitBody s = (if waitsForComponents s then waitConfirms (waitReady s) else waitReady s)"

text \<open>
  \<open>env\<close> lists, for each iteration, the RPC calls that arrive before the condition is tested again.
  \<open>None\<close>: the worker still waits when the list is exhausted.
\<close>

fun waitLoop :: "em_rpc list list \<Rightarrow> em \<Rightarrow> em option" where
  "waitLoop [] s = (if waiting s then None else Some s)"
| "waitLoop (rpcs # env) s =
     (if waiting s then waitLoop env (fold apply_rpc rpcs (waitBody s)) else Some s)"

definition setMachineState ::
    "(nat \<Rightarrow> string \<Rightarrow> bool) \<Rightarrow> em_rpc list list \<Rightarrow> string \<Rightarrow> em \<Rightarrow> (StateError \<times> em) option" where
  "setMachineState alive env state s =
     (case checkRequest state s of
        (Some err, s1) \<Rightarrow> Some (err, s1)
      | (None, s1) \<Rightarrow>
          (let s2 = killProcessesForState s1;
               (started, s3) = startApplicationsForState alive s2
           in if \<not> started then Some (K_INVALID_REQUEST, s3)
              else let s4 = changeComponentsState s3;
                       s5 = snd (isConfirmAvailable s4)
                   in case waitLoop env s5 of
                        None \<Rightarrow> None
                      | Some s6 \<Rightarrow>
                          (let s7 = confirmState K_SUCCESS s6
                           in Some (K_SUCCESS, s7\<lparr>m_currentState := m_pendingState s7\<rparr>))))"

section \<open>The worker thread, statement by statement\<close>

datatype wpc =
    WCheck string
  | WKill
  | WStart
  | WPoll "string list" nat
  | WChange
  | WProbe
  | WTest
  | WReady
  | WConfirms
  | WConfirm
  | WCommit
  | WDone StateError

fun worker_step :: "(nat \<Rightarrow> string \<Rightarrow> bool) \<Rightarrow> wpc \<times> em \<Rightarrow> wpc \<times> em" where
  "worker_step alive (WCheck state, s) =
     (case checkRequest state s of (Some err, s1) \<Rightarrow> (WDone err, s1) | (None, s1) \<Rightarrow> (WKill, s1))"
| "worker_step alive (WKill, s) = (WStart, killProcessesForState s)"
| "worker_step alive (WStart, s) =
     (let apps = appsToBeStarted s
      in (if m_pendingState s = MACHINE_STATE_STARTUP then WPoll apps 0 else WChange,
          fold startApplication apps s))"
| "worker_step alive (WPoll apps i, s) =
     (if i < timesToPollApps
      then (if pollRound (alive i) apps then (WChange, s) else (WPoll apps (Suc i), s))
      else (WDone K_INVALID_REQUEST, s))"
| "worker_step alive (WChange, s) = (WProbe, changeComponentsState s)"
| "worker_step alive (WProbe, s) = (WTest, snd (isConfirmAvailable s))"
| "worker_step alive (WTest, s) = (if waiting s then WReady else WConfirm, s)"
| "worker_step alive (WReady, s) =
     (if waitsForComponents s then WConfirms else WTest, waitReady s)"
| "worker_step alive (WConfirms, s) = (WTest, waitConfirms s)"
| "worker_step alive (WConfirm, s) = (WCommit, confirmState K_SUCCESS s)"
| "worker_step alive (WCommit, s) = (WDone K_SUCCESS, s\<lparr>m_currentState := m_pendingState s\<rparr>)"
| "worker_step alive (WDone r, s) = (WDone r, s)"

end
