(* ===== verification/Em_Operations.thy ===== *)
theory Em_Operations
  imports Exec_Manager
begin

text \<open>
  What each method of the execution manager does to the state (closed forms of its loops), the
  invariant of the object, and that every method keeps it. Two locales carry the shared part: an
  operation that keeps the invariant, and an RPC operation, which in addition leaves alone what
  belongs to the worker thread.
\<close>

section \<open>Closed forms of the loops\<close>

text \<open>The running services that the pending state does not allow, in the order they are killed.\<close>

definition toBeKilled :: "em \<Rightarrow> string list" where
  "toBeKilled s =
     filter (\<lambda>app. app \<notin> allowed (m_allowedProcessesForState s) (m_pendingState s))
       (m_activeProcesses s)"

lemma fold_startApplication:
  "fold startApplication apps s = s\<lparr>em_calls := em_calls s @ map StartProcess apps\<rparr>"
  by (induction apps arbitrary: s) (simp_all add: startApplication_def em_emit_def)

lemma fold_emit:
  "fold (\<lambda>x. em_emit (f x)) xs s = s\<lparr>em_calls := em_calls s @ map f xs\<rparr>"
  by (induction xs arbitrary: s) (simp_all add: em_emit_def)

lemma processToBeKilled_iff: "processToBeKilled app apps \<longleftrightarrow> app \<notin> set apps"
  by (auto simp: processToBeKilled_def find_None_iff)

lemma fold_kill:
  "fold (\<lambda>app s'. if p app then killApplication app s' else s') apps s =
     s\<lparr>em_calls := em_calls s @ map KillProcess (filter p apps),
       m_componentStateUpdateSbscrs :=
         filter (\<lambda>c. c \<notin> set (filter p apps)) (m_componentStateUpdateSbscrs s)\<rparr>"
proof (induction apps arbitrary: s)
  case Nil
  then show ?case by simp
next
  case (Cons a apps)
  have "filter (\<lambda>c. c \<notin> set (filter p apps)) (filter (\<lambda>c. c \<noteq> a) xs) =
      filter (\<lambda>c. c \<noteq> a \<and> c \<notin> set (filter p apps)) xs" for xs
    by (simp add: conj_commute)
  then show ?case
    by (simp add: Cons.IH killApplication_def em_emit_def)
qed

lemma killProcessesForState_eq:
  "killProcessesForState s =
     s\<lparr>em_calls := em_calls s @ map KillProcess (toBeKilled s),
       m_componentStateUpdateSbscrs :=
         filter (\<lambda>c. c \<notin> set (toBeKilled s)) (m_componentStateUpdateSbscrs s)\<rparr>"
proof -
  let ?p = "\<lambda>app. app \<notin> allowed (m_allowedProcessesForState s) (m_pendingState s)"
  have "killProcessesForState s =
      fold (\<lambda>app s'. if ?p app then killApplication app s' else s') (m_activeProcesses s) s"
    by (simp add: killProcessesForState_def allowed_def processToBeKilled_iff
        cong: if_cong split: option.split)
  then show ?thesis
    by (simp add: fold_kill toBeKilled_def)
qed

lemma set_appsToBeStarted:
  "set (appsToBeStarted s) =
     allowed (m_allowedProcessesForState s) (m_pendingState s) - set (m_activeProcesses s)"
  by (auto simp: appsToBeStarted_def allowed_def split: option.split)

lemma startApplicationsForState_eq:
  "startApplicationsForState alive s =
     (m_pendingState s = MACHINE_STATE_STARTUP \<longrightarrow> isMsmAlive alive (appsToBeStarted s),
      s\<lparr>em_calls := em_calls s @ map StartProcess (appsToBeStarted s)\<rparr>)"
  by (simp add: startApplicationsForState_def Let_def fold_startApplication)

definition componentStateFor :: "string \<Rightarrow> string" where
  "componentStateFor st = (if st = MACHINE_STATE_SUSPEND then COMPONENT_STATE_OFF else COMPONENT_STATE_ON)"

lemma changeComponentsState_eq:
  "changeComponentsState s =
     s\<lparr>m_currentComponentState := componentStateFor (m_pendingState s),
       m_componentPendingConfirms :=
         fold set_insert (m_registeredComponents s) (m_componentPendingConfirms s),
       em_calls := em_calls s @
         map (SetComponentState (componentStateFor (m_pendingState s)))
           (m_componentStateUpdateSbscrs s)\<rparr>"
  by (simp add: changeComponentsState_def Let_def fold_emit componentStateFor_def)

lemma set_fold_set_insert [simp]: "set (fold set_insert xs acc) = set xs \<union> set acc"
  by (induction xs arbitrary: acc) auto

lemma std_sorted_fold_set_insert [simp]: "std_sorted acc \<Longrightarrow> std_sorted (fold set_insert xs acc)"
  by (induction xs arbitrary: acc) auto

text \<open>The comparison of the two sets decides whether the running services are the allowed ones.\<close>

lemma isConfirmAvailable_eq:
  "isConfirmAvailable s =
     (let r = (m_activeProcesses s =
                 (case map_find (m_pendingState s) (m_allowedProcessesForState s) of
                    None \<Rightarrow> [] | Some procs \<Rightarrow> procs))
      in (r, s\<lparr>m_allowedProcessesForState :=
                 snd (map_index [] (m_pendingState s) (m_allowedProcessesForState s)),
               m_readyToTransitToNextState := r\<rparr>))"
  by (simp add: isConfirmAvailable_def Let_def map_index_def split: option.split)

lemma waitReady_eq: "waitReady s = snd (isConfirmAvailable s)"
  by (simp add: waitReady_def isConfirmAvailable_eq Let_def)

lemmas em_op_eqs =
  killProcessesForState_eq startApplicationsForState_eq fold_startApplication
  changeComponentsState_eq isConfirmAvailable_eq waitReady_eq

section \<open>The invariant of the object\<close>

definition em_inv :: "em \<Rightarrow> bool" where
  "em_inv s \<longleftrightarrow>
     std_sorted (m_activeProcesses s) \<and>
     std_sorted (m_registeredComponents s) \<and>
     std_sorted (m_componentPendingConfirms s) \<and>
     wf_allowed (m_allowedProcessesForState s) \<and>
     set (std_keys (m_allowedProcessesForState s)) \<subseteq> set (m_machineManifestStates s) \<and>
     set (m_componentPendingConfirms s) \<subseteq> set (m_registeredComponents s) \<and>
     set (m_componentStateUpdateSbscrs s) \<subseteq> set (m_registeredComponents s) \<and>
     m_currentState s \<in> insert [] (set (m_machineManifestStates s)) \<and>
     m_pendingState s \<in> insert [] (set (m_machineManifestStates s)) \<and>
     m_currentComponentState s \<in> {[], COMPONENT_STATE_ON, COMPONENT_STATE_OFF}"

text \<open>An operation of the object: it keeps the invariant and the machine manifest.\<close>

locale em_operation =
  fixes opr :: "'o \<Rightarrow> em \<Rightarrow> em"
  assumes keeps_inv: "em_inv s \<Longrightarrow> em_inv (opr x s)"
    and keeps_manifest: "m_machineManifestStates (opr x s) = m_machineManifestStates s"
begin

lemma sequence_keeps_inv: "em_inv s \<Longrightarrow> em_inv (fold opr xs s)"
  by (induction xs arbitrary: s) (simp_all add: keeps_inv)

lemma sequence_keeps_manifest: "m_machineManifestStates (fold opr xs s) = m_machineManifestStates s"
  by (induction xs arbitrary: s) (simp_all add: keeps_manifest)

end

text \<open>
  An operation of the RPC thread: it does not touch the machine state, the pending state, the
  table of allowed services or the ready flag, and makes no outgoing call.
\<close>

locale em_rpc_operation = em_operation +
  assumes keeps_current: "m_currentState (opr x s) = m_currentState s"
    and keeps_pending: "m_pendingState (opr x s) = m_pendingState s"
    and keeps_allowed: "m_allowedProcessesForState (opr x s) = m_allowedProcessesForState s"
    and keeps_ready: "m_readyToTransitToNextState (opr x s) = m_readyToTransitToNextState s"
    and keeps_calls: "em_calls (opr x s) = em_calls s"
    and keeps_component_state: "m_currentComponentState (opr x s) = m_currentComponentState s"
begin

lemma sequence_frame:
  "m_currentState (fold opr xs s) = m_currentState s"
  "m_pendingState (fold opr xs s) = m_pendingState s"
  "m_allowedProcessesForState (fold opr xs s) = m_allowedProcessesForState s"
  "m_readyToTransitToNextState (fold opr xs s) = m_readyToTransitToNextState s"
  "em_calls (fold opr xs s) = em_calls s"
  "m_currentComponentState (fold opr xs s) = m_currentComponentState s"
  by (induction xs arbitrary: s)
    (simp_all add: keeps_current keeps_pending keeps_allowed keeps_ready keeps_calls
      keeps_component_state)

end

section \<open>The RPC methods are RPC operations\<close>

text \<open>A state of the interface never leaves the table of names.\<close>

lemma reportApplicationState_defined:
  "reportApplicationState app (ApplicationState_value st) s =
     Inr (case st of
            K_SHUTTINGDOWN \<Rightarrow> s\<lparr>m_activeProcesses := set_erase app (m_activeProcesses s)\<rparr>
          | K_RUNNING \<Rightarrow> s\<lparr>m_activeProcesses := set_insert app (m_activeProcesses s)\<rparr>
          | _ \<Rightarrow> s)"
  by (cases st)
    (simp_all add: reportApplicationState_def applicationStateNames_def kShuttingDown_def
      kRunning_def)

lemma apply_rpc_Report [simp]:
  "apply_rpc (Report app st) s =
     (case st of
        K_SHUTTINGDOWN \<Rightarrow> s\<lparr>m_activeProcesses := set_erase app (m_activeProcesses s)\<rparr>
      | K_RUNNING \<Rightarrow> s\<lparr>m_activeProcesses := set_insert app (m_activeProcesses s)\<rparr>
      | _ \<Rightarrow> s)"
  by (simp add: reportApplicationState_defined)

declare apply_rpc.simps(1) [simp del]

lemmas rpc_defs = registerComponent_def confirmComponentState_def Let_def

interpretation rpc: em_rpc_operation apply_rpc
proof unfold_locales
  fix r :: em_rpc and s :: em
  show "em_inv s \<Longrightarrow> em_inv (apply_rpc r s)"
    by (cases r) (auto simp: em_inv_def rpc_defs split: ApplicationState.split)
  show "m_machineManifestStates (apply_rpc r s) = m_machineManifestStates s"
    by (cases r) (auto simp: rpc_defs split: ApplicationState.split)
  show "m_currentState (apply_rpc r s) = m_currentState s"
    by (cases r) (auto simp: rpc_defs split: ApplicationState.split)
  show "m_pendingState (apply_rpc r s) = m_pendingState s"
    by (cases r) (auto simp: rpc_defs split: ApplicationState.split)
  show "m_allowedProcessesForState (apply_rpc r s) = m_allowedProcessesForState s"
    by (cases r) (auto simp: rpc_defs split: ApplicationState.split)
  show "m_readyToTransitToNextState (apply_rpc r s) = m_readyToTransitToNextState s"
    by (cases r) (auto simp: rpc_defs split: ApplicationState.split)
  show "em_calls (apply_rpc r s) = em_calls s"
    by (cases r) (auto simp: rpc_defs split: ApplicationState.split)
  show "m_currentComponentState (apply_rpc r s) = m_currentComponentState s"
    by (cases r) (auto simp: rpc_defs split: ApplicationState.split)
qed

section \<open>The worker's methods keep the invariant\<close>

lemma init_inv:
  assumes "wf_allowed statesSupported"
  shows "em_inv (ExecutionManager_init statesSupported machineStates)"
  using assms
  by (auto simp: em_inv_def ExecutionManager_init_def filterStates_def wf_allowed_keep
      map_keep_keys simp del: set_map)

interpretation kill: em_operation "\<lambda>_::unit. killProcessesForState"
  by unfold_locales (auto simp: em_inv_def killProcessesForState_eq)

interpretation start: em_operation startApplication
  by unfold_locales (auto simp: em_inv_def startApplication_def em_emit_def)

interpretation change: em_operation "\<lambda>_::unit. changeComponentsState"
  by unfold_locales (auto simp: em_inv_def changeComponentsState_eq componentStateFor_def)

interpretation confirms: em_operation "\<lambda>_::unit. waitConfirms"
  by unfold_locales (auto simp: em_inv_def waitConfirms_def)

interpretation conf_state: em_operation confirmState
  by unfold_locales (auto simp: em_inv_def confirmState_def em_emit_def)

lemma isConfirmAvailable_inv:
  assumes "em_inv s" "m_pendingState s \<in> set (m_machineManifestStates s)"
  shows "em_inv (snd (isConfirmAvailable s))"
  using assms map_index_keys[of "[]" "m_pendingState s" "m_allowedProcessesForState s"]
  by (auto simp: em_inv_def isConfirmAvailable_eq Let_def wf_allowed_index simp del: set_map)

lemma isConfirmAvailable_frame [simp]:
  "m_pendingState (snd (isConfirmAvailable s)) = m_pendingState s"
  "m_currentState (snd (isConfirmAvailable s)) = m_currentState s"
  "m_machineManifestStates (snd (isConfirmAvailable s)) = m_machineManifestStates s"
  "m_activeProcesses (snd (isConfirmAvailable s)) = m_activeProcesses s"
  "m_componentPendingConfirms (snd (isConfirmAvailable s)) = m_componentPendingConfirms s"
  "m_componentConfirmsReceived (snd (isConfirmAvailable s)) = m_componentConfirmsReceived s"
  "m_registeredComponents (snd (isConfirmAvailable s)) = m_registeredComponents s"
  "em_calls (snd (isConfirmAvailable s)) = em_calls s"
  "m_readyToTransitToNextState (snd (isConfirmAvailable s)) = fst (isConfirmAvailable s)"
  by (simp_all add: isConfirmAvailable_eq Let_def)

text \<open>Creating the missing entry does not change which services are allowed.\<close>

lemma isConfirmAvailable_allowed:
  "em_inv s \<Longrightarrow>
     allowed (m_allowedProcessesForState (snd (isConfirmAvailable s))) st =
     allowed (m_allowedProcessesForState s) st"
  by (auto simp: em_inv_def wf_allowed_def isConfirmAvailable_eq Let_def allowed_def map_index_find
      split: option.split)

lemma isConfirmAvailable_iff:
  assumes "em_inv s"
  shows "fst (isConfirmAvailable s) \<longleftrightarrow>
           set (m_activeProcesses s) = allowed (m_allowedProcessesForState s) (m_pendingState s)"
proof -
  from assms have active: "std_sorted (m_activeProcesses s)" and wf: "wf_allowed (m_allowedProcessesForState s)"
    by (simp_all add: em_inv_def)
  show ?thesis
  proof (cases "map_find (m_pendingState s) (m_allowedProcessesForState s)")
    case None
    then show ?thesis by (simp add: isConfirmAvailable_eq Let_def allowed_def)
  next
    case (Some procs)
    with wf have "std_sorted procs" by (rule wf_allowed_find)
    with active Some show ?thesis
      by (simp add: isConfirmAvailable_eq Let_def allowed_def std_sorted_eq_iff)
  qed
qed

lemma checkRequest_inv: "em_inv s \<Longrightarrow> em_inv (snd (checkRequest st s))"
  by (auto simp: em_inv_def checkRequest_def Let_def)

end
