(* ===== verification/Em_Transitions.thy ===== *)
theory Em_Transitions
  imports Em_Operations
begin

text \<open>
  Properties of \<open>setMachineState\<close>: when it returns and with what, which calls it makes, what holds
  of the running services when it confirms, and that it is a behaviour of the statement-level
  worker.
\<close>

section \<open>The waiting loop\<close>

text \<open>The services that run after a list of RPC calls depend on nothing else in the state.\<close>

definition activeAfter :: "em_rpc list \<Rightarrow> em \<Rightarrow> string list" where
  "activeAfter rpcs s = m_activeProcesses (fold apply_rpc rpcs s)"

lemma apply_rpc_active_cong:
  "m_activeProcesses s = m_activeProcesses t \<Longrightarrow>
     m_activeProcesses (apply_rpc r s) = m_activeProcesses (apply_rpc r t)"
  by (cases r) (auto simp: rpc_defs split: ApplicationState.split)

lemma activeAfter_cong:
  "m_activeProcesses s = m_activeProcesses t \<Longrightarrow> activeAfter rpcs s = activeAfter rpcs t"
proof (induction rpcs arbitrary: s t)
  case Nil
  then show ?case by (simp add: activeAfter_def)
next
  case (Cons r rpcs)
  from Cons.IH[OF apply_rpc_active_cong[OF Cons.prems, of r]] show ?case
    by (simp add: activeAfter_def)
qed

lemma activeAfter_append: "activeAfter (xs @ ys) s = activeAfter ys (fold apply_rpc xs s)"
  by (simp add: activeAfter_def)

lemma waitBody_frame [simp]:
  "m_pendingState (waitBody s) = m_pendingState s"
  "m_currentState (waitBody s) = m_currentState s"
  "m_machineManifestStates (waitBody s) = m_machineManifestStates s"
  "m_activeProcesses (waitBody s) = m_activeProcesses s"
  "m_componentPendingConfirms (waitBody s) = m_componentPendingConfirms s"
  "em_calls (waitBody s) = em_calls s"
  "m_readyToTransitToNextState (waitBody s) = fst (isConfirmAvailable s)"
  by (simp_all add: waitBody_def waitConfirms_def waitReady_eq)

lemma waitBody_allowed:
  "em_inv s \<Longrightarrow> allowed (m_allowedProcessesForState (waitBody s)) st =
     allowed (m_allowedProcessesForState s) st"
  using isConfirmAvailable_allowed by (simp add: waitBody_def waitConfirms_def waitReady_eq)

lemma waitBody_inv:
  assumes "em_inv s" "m_pendingState s \<in> set (m_machineManifestStates s)"
  shows "em_inv (waitBody s)"
  using isConfirmAvailable_inv[OF assms] confirms.keeps_inv
  by (simp add: waitBody_def waitReady_eq)

lemma waitLoop_keeps:
  assumes "waitLoop env s = Some s'"
  shows "\<not> waiting s'"
    and "m_pendingState s' = m_pendingState s"
    and "m_currentState s' = m_currentState s"
    and "m_machineManifestStates s' = m_machineManifestStates s"
    and "em_calls s' = em_calls s"
  using assms
  by (induction env s rule: waitLoop.induct)
    (auto simp: rpc.sequence_frame rpc.sequence_keeps_manifest split: if_splits)

lemma waitLoop_inv:
  assumes "waitLoop env s = Some s'" "em_inv s" "m_pendingState s \<in> set (m_machineManifestStates s)"
  shows "em_inv s'"
  using assms
proof (induction env s rule: waitLoop.induct)
  case (2 rpcs env s)
  then show ?case
    by (auto simp: rpc.sequence_frame rpc.sequence_keeps_manifest rpc.sequence_keeps_inv
        waitBody_inv split: if_splits)
qed (auto split: if_splits)

text \<open>The running services are exactly the allowed ones for the pending state.\<close>

definition matched :: "em \<Rightarrow> bool" where
  "matched s \<longleftrightarrow> set (m_activeProcesses s) = allowed (m_allowedProcessesForState s) (m_pendingState s)"

text \<open>
  The loop that waits for the services alone ends exactly when they match at one of its
  evaluations.
\<close>

lemma waitLoop_services_iff:
  assumes "em_inv s" "m_pendingState s \<in> set (m_machineManifestStates s)"
    and "\<not> waitsForComponents s" "\<not> m_readyToTransitToNextState s"
  shows "(\<exists>s'. waitLoop env s = Some s') \<longleftrightarrow>
           (\<exists>k < length env. set (activeAfter (concat (take k env)) s) =
              allowed (m_allowedProcessesForState s) (m_pendingState s))"
  using assms
proof (induction env arbitrary: s)
  case Nil
  then show ?case by (simp add: waiting_def)
next
  case (Cons rpcs env)
  let ?s1 = "fold apply_rpc rpcs (waitBody s)"
  from Cons.prems have loop: "waitLoop (rpcs # env) s = waitLoop env ?s1"
    by (simp add: waiting_def)
  have act: "activeAfter xs ?s1 = activeAfter (rpcs @ xs) s" for xs
    using activeAfter_cong[of "waitBody s" s "rpcs @ xs"]
    by (simp add: activeAfter_append)
  have allw: "allowed (m_allowedProcessesForState ?s1) (m_pendingState ?s1) =
      allowed (m_allowedProcessesForState s) (m_pendingState s)"
    using Cons.prems(1) by (simp add: rpc.sequence_frame waitBody_allowed)
  have ready: "m_readyToTransitToNextState ?s1 \<longleftrightarrow>
      set (activeAfter [] s) = allowed (m_allowedProcessesForState s) (m_pendingState s)"
    using isConfirmAvailable_iff[OF Cons.prems(1)]
    by (simp add: rpc.sequence_frame activeAfter_def)
  have noComp: "\<not> waitsForComponents ?s1"
    using Cons.prems(3) by (simp add: waitsForComponents_def rpc.sequence_frame)
  have inv1: "em_inv ?s1" "m_pendingState ?s1 \<in> set (m_machineManifestStates ?s1)"
    using Cons.prems(1,2)
    by (simp_all add: rpc.sequence_keeps_inv waitBody_inv rpc.sequence_frame
        rpc.sequence_keeps_manifest)
  show ?case
  proof (cases "m_readyToTransitToNextState ?s1")
    case True
    then have "waitLoop env ?s1 = Some ?s1"
      using noComp by (cases env) (simp_all add: waiting_def)
    with True ready loop show ?thesis by force
  next
    case False
    have "(\<exists>k < length (rpcs # env). set (activeAfter (concat (take k (rpcs # env))) s) =
              allowed (m_allowedProcessesForState s) (m_pendingState s)) \<longleftrightarrow>
          (\<exists>k < length env. set (activeAfter (concat (take k env)) ?s1) =
              allowed (m_allowedProcessesForState ?s1) (m_pendingState ?s1))"
      (is "?L \<longleftrightarrow> ?R")
    proof
      assume ?L
      then obtain k where k: "k < length (rpcs # env)"
        "set (activeAfter (concat (take k (rpcs # env))) s) =
           allowed (m_allowedProcessesForState s) (m_pendingState s)" by blast
      from False ready k(2) have "k \<noteq> 0" by (cases k) auto
      then obtain j where "k = Suc j" by (cases k) auto
      with k show ?R by (auto simp: act allw)
    next
      assume ?R
      then obtain k where "k < length env"
        "set (activeAfter (concat (take k env)) ?s1) =
           allowed (m_allowedProcessesForState ?s1) (m_pendingState ?s1)" by blast
      then have "Suc k < length (rpcs # env) \<and>
          set (activeAfter (concat (take (Suc k) (rpcs # env))) s) =
            allowed (m_allowedProcessesForState s) (m_pendingState s)"
        by (simp add: act allw)
      then show ?L by blast
    qed
    with loop Cons.IH[OF inv1 noComp False] show ?thesis by simp
  qed
qed

text \<open>Where a loop that waits for the services alone stopped, they matched at its last evaluation.\<close>

lemma waitLoop_services_matched:
  assumes "waitLoop env s = Some s'" "em_inv s" "m_pendingState s \<in> set (m_machineManifestStates s)"
    and "\<not> waitsForComponents s" "\<not> m_readyToTransitToNextState s"
  shows "\<exists>pre rpcs. rpcs \<in> set env \<and>
           set (m_activeProcesses pre) = allowed (m_allowedProcessesForState s) (m_pendingState s) \<and>
           m_activeProcesses s' = activeAfter rpcs pre"
  using assms
proof (induction env arbitrary: s)
  case Nil
  then show ?case by (simp add: waiting_def)
next
  case (Cons rpcs env)
  let ?s1 = "fold apply_rpc rpcs (waitBody s)"
  from Cons.prems have loop: "waitLoop env ?s1 = Some s'"
    by (simp add: waiting_def)
  have allw: "allowed (m_allowedProcessesForState ?s1) (m_pendingState ?s1) =
      allowed (m_allowedProcessesForState s) (m_pendingState s)"
    using Cons.prems(2) by (simp add: rpc.sequence_frame waitBody_allowed)
  have noComp: "\<not> waitsForComponents ?s1"
    using Cons.prems(4) by (simp add: waitsForComponents_def rpc.sequence_frame)
  have inv1: "em_inv ?s1" "m_pendingState ?s1 \<in> set (m_machineManifestStates ?s1)"
    using Cons.prems(2,3)
    by (simp_all add: rpc.sequence_keeps_inv waitBody_inv rpc.sequence_frame
        rpc.sequence_keeps_manifest)
  show ?case
  proof (cases "m_readyToTransitToNextState ?s1")
    case True
    then have "s' = ?s1"
      using loop noComp by (cases env) (simp_all add: waiting_def)
    moreover from True have "set (m_activeProcesses s) =
        allowed (m_allowedProcessesForState s) (m_pendingState s)"
      using isConfirmAvailable_iff[OF Cons.prems(2)] by (simp add: rpc.sequence_frame)
    ultimately show ?thesis
      using activeAfter_cong[of "waitBody s" s rpcs] by (auto simp: activeAfter_def)
  next
    case False
    from Cons.IH[OF loop inv1 noComp False] allw show ?thesis by auto
  qed
qed

text \<open>Once no component confirmation is outstanding, the flag that says so stays set.\<close>

lemma confirms_flag_stays:
  assumes "m_componentPendingConfirms s = []" "m_componentConfirmsReceived s"
  shows "m_componentPendingConfirms (fold apply_rpc rpcs s) = [] \<and>
         m_componentConfirmsReceived (fold apply_rpc rpcs s)"
  using assms
proof (induction rpcs arbitrary: s)
  case Nil
  then show ?case by simp
next
  case (Cons r rpcs)
  have "m_componentPendingConfirms (apply_rpc r s) = [] \<and> m_componentConfirmsReceived (apply_rpc r s)"
    using Cons.prems by (cases r) (auto simp: rpc_defs split: ApplicationState.split)
  with Cons.IH show ?case by simp
qed

section \<open>The request up to the waiting loop\<close>

text \<open>The state in which the worker starts to wait.\<close>

definition requested :: "string \<Rightarrow> em \<Rightarrow> em" where
  "requested state s =
     s\<lparr>m_readyToTransitToNextState := False, m_componentConfirmsReceived := False,
       m_pendingState := state\<rparr>"

definition beforeWait :: "string \<Rightarrow> em \<Rightarrow> em" where
  "beforeWait state s =
     snd (isConfirmAvailable (changeComponentsState
       (fold startApplication (appsToBeStarted (requested state s))
         (killProcessesForState (requested state s)))))"

text \<open>The calls that a request makes before it waits.\<close>

definition transitionCalls :: "string \<Rightarrow> em \<Rightarrow> em_call list" where
  "transitionCalls state s =
     map KillProcess (toBeKilled (requested state s)) @
     map StartProcess (appsToBeStarted (requested state s)) @
     map (SetComponentState (componentStateFor state))
       (filter (\<lambda>c. c \<notin> set (toBeKilled (requested state s))) (m_componentStateUpdateSbscrs s))"

definition validRequest :: "string \<Rightarrow> em \<Rightarrow> bool" where
  "validRequest state s \<longleftrightarrow> state \<in> set (m_machineManifestStates s) \<and> state \<noteq> m_currentState s"

lemma checkRequest_valid:
  "validRequest state s \<Longrightarrow> checkRequest state s = (None, requested state s)"
  by (simp add: checkRequest_def validRequest_def requested_def Let_def)

lemma requested_simps [simp]:
  "m_pendingState (requested state s) = state"
  "m_activeProcesses (requested state s) = m_activeProcesses s"
  "m_allowedProcessesForState (requested state s) = m_allowedProcessesForState s"
  "m_componentStateUpdateSbscrs (requested state s) = m_componentStateUpdateSbscrs s"
  "m_registeredComponents (requested state s) = m_registeredComponents s"
  "m_componentPendingConfirms (requested state s) = m_componentPendingConfirms s"
  "m_componentConfirmsReceived (requested state s) = False"
  "m_currentState (requested state s) = m_currentState s"
  "m_machineManifestStates (requested state s) = m_machineManifestStates s"
  "em_calls (requested state s) = em_calls s"
  by (simp_all add: requested_def)

lemma appsToBeStarted_killed [simp]: "appsToBeStarted (killProcessesForState s) = appsToBeStarted s"
  by (simp add: appsToBeStarted_def killProcessesForState_eq cong: option.case_cong)

lemma setMachineState_valid:
  assumes "validRequest state s"
    and "state = MACHINE_STATE_STARTUP \<longrightarrow> isMsmAlive alive (appsToBeStarted (requested state s))"
  shows "setMachineState alive env state s =
           map_option (\<lambda>s'. (K_SUCCESS, s'\<lparr>em_calls := em_calls s' @ [Confirm K_SUCCESS],
                                            m_currentState := m_pendingState s'\<rparr>))
             (waitLoop env (beforeWait state s))"
proof -
  let ?s2 = "killProcessesForState (requested state s)"
  have "m_pendingState ?s2 = state"
    by (simp add: killProcessesForState_eq)
  with assms(2) have "startApplicationsForState alive ?s2 =
      (True, fold startApplication (appsToBeStarted (requested state s)) ?s2)"
    by (simp add: startApplicationsForState_eq fold_startApplication)
  then show ?thesis
    by (simp add: setMachineState_def checkRequest_valid[OF assms(1)] beforeWait_def Let_def
        confirmState_def em_emit_def split: option.split)
qed

lemma beforeWait_simps [simp]:
  "m_pendingState (beforeWait state s) = state"
  "m_activeProcesses (beforeWait state s) = m_activeProcesses s"
  "m_currentState (beforeWait state s) = m_currentState s"
  "m_machineManifestStates (beforeWait state s) = m_machineManifestStates s"
  "m_componentConfirmsReceived (beforeWait state s) = False"
  "m_componentPendingConfirms (beforeWait state s) =
     fold set_insert (m_registeredComponents s) (m_componentPendingConfirms s)"
  "em_calls (beforeWait state s) = em_calls s @ transitionCalls state s"
  by (simp_all add: beforeWait_def changeComponentsState_eq fold_startApplication
      killProcessesForState_eq transitionCalls_def)

lemma beforeWait_inv:
  assumes "em_inv s" "validRequest state s"
  shows "em_inv (beforeWait state s)"
proof -
  have "em_inv (requested state s)"
    using checkRequest_inv[OF assms(1), of state] by (simp add: checkRequest_valid[OF assms(2)])
  then have "em_inv (changeComponentsState (fold startApplication (appsToBeStarted (requested state s))
      (killProcessesForState (requested state s))))"
    by (intro change.keeps_inv start.sequence_keeps_inv kill.keeps_inv)
  moreover have "m_pendingState (changeComponentsState (fold startApplication
        (appsToBeStarted (requested state s)) (killProcessesForState (requested state s)))) \<in>
      set (m_machineManifestStates s)"
    using assms(2)
    by (simp add: changeComponentsState_eq fold_startApplication killProcessesForState_eq
        validRequest_def)
  ultimately show ?thesis
    unfolding beforeWait_def
    by (intro isConfirmAvailable_inv)
      (simp_all add: changeComponentsState_eq fold_startApplication killProcessesForState_eq)
qed

lemma beforeWait_allowed:
  assumes "em_inv s" "validRequest state s"
  shows "allowed (m_allowedProcessesForState (beforeWait state s)) st =
         allowed (m_allowedProcessesForState s) st"
proof -
  let ?s4 = "changeComponentsState (fold startApplication (appsToBeStarted (requested state s))
      (killProcessesForState (requested state s)))"
  have "em_inv (requested state s)"
    using checkRequest_inv[OF assms(1), of state] by (simp add: checkRequest_valid[OF assms(2)])
  then have "em_inv ?s4"
    by (intro change.keeps_inv start.sequence_keeps_inv kill.keeps_inv)
  from isConfirmAvailable_allowed[OF this] show ?thesis
    by (simp add: beforeWait_def changeComponentsState_eq fold_startApplication
        killProcessesForState_eq)
qed

lemma beforeWait_ready:
  assumes "em_inv s" "validRequest state s"
  shows "m_readyToTransitToNextState (beforeWait state s) \<longleftrightarrow>
           set (m_activeProcesses s) = allowed (m_allowedProcessesForState s) state"
proof -
  let ?s4 = "changeComponentsState (fold startApplication (appsToBeStarted (requested state s))
      (killProcessesForState (requested state s)))"
  have "em_inv (requested state s)"
    using checkRequest_inv[OF assms(1), of state] by (simp add: checkRequest_valid[OF assms(2)])
  then have "em_inv ?s4"
    by (intro change.keeps_inv start.sequence_keeps_inv kill.keeps_inv)
  from isConfirmAvailable_iff[OF this] show ?thesis
    by (simp add: beforeWait_def changeComponentsState_eq fold_startApplication
        killProcessesForState_eq)
qed

end
