(* ===== verification/Em_Worker.thy ===== *)
theory Em_Worker
  imports Em_Transitions
begin

text \<open>
  The execution manager under every interleaving: at each point either the worker thread executes
  its next statement or the RPC thread completes one of its methods. (Each method takes its mutex
  once, for all the data it changes; accesses that the source makes without the mutex are taken to
  be atomic.) The results hold in every reachable configuration.
\<close>

section \<open>Interleaving\<close>

inductive em_step :: "(nat \<Rightarrow> string \<Rightarrow> bool) \<Rightarrow> wpc \<times> em \<Rightarrow> wpc \<times> em \<Rightarrow> bool"
  for alive :: "nat \<Rightarrow> string \<Rightarrow> bool" where
  worker: "em_step alive cfg (worker_step alive cfg)"
| rpc_call: "em_step alive (pc, s) (pc, apply_rpc r s)"

abbreviation em_steps :: "(nat \<Rightarrow> string \<Rightarrow> bool) \<Rightarrow> wpc \<times> em \<Rightarrow> wpc \<times> em \<Rightarrow> bool" where
  "em_steps alive \<equiv> rtranclp (em_step alive)"

lemma em_steps_worker: "em_steps alive (worker_step alive cfg) cfg' \<Longrightarrow> em_steps alive cfg cfg'"
  by (meson converse_rtranclp_into_rtranclp em_step.worker)

lemma em_steps_to:
  "worker_step alive cfg = cfg1 \<Longrightarrow> em_steps alive cfg1 cfg2 \<Longrightarrow> em_steps alive cfg cfg2"
  using em_steps_worker by metis

lemma em_steps_rpcs: "em_steps alive (pc, fold apply_rpc rpcs s) cfg' \<Longrightarrow> em_steps alive (pc, s) cfg'"
proof (induction rpcs arbitrary: s)
  case Nil
  then show ?case by simp
next
  case (Cons r rpcs)
  then have "em_steps alive (pc, apply_rpc r s) cfg'" by simp
  then show ?case by (meson converse_rtranclp_into_rtranclp em_step.rpc_call)
qed

section \<open>The function is a behaviour of the machine\<close>

lemma machine_waitLoop:
  assumes "waitLoop env s = Some s'"
  shows "em_steps alive (WTest, s) (WConfirm, s')"
  using assms
proof (induction env s rule: waitLoop.induct)
  case (1 s)
  then have "worker_step alive (WTest, s) = (WConfirm, s')"
    by (simp split: if_splits)
  then show ?case by (metis em_step.worker r_into_rtranclp)
next
  case (2 rpcs env s)
  show ?case
  proof (cases "waiting s")
    case False
    with 2 have "worker_step alive (WTest, s) = (WConfirm, s')" by simp
    then show ?thesis by (metis em_step.worker r_into_rtranclp)
  next
    case True
    with 2 have rest: "em_steps alive (WTest, fold apply_rpc rpcs (waitBody s)) (WConfirm, s')"
      by simp
    then have "em_steps alive (WTest, waitBody s) (WConfirm, s')"
      by (rule em_steps_rpcs)
    then have "em_steps alive (WReady, s) (WConfirm, s')"
    proof (cases "waitsForComponents s")
      case comp: True
      then have "em_steps alive (WConfirms, waitReady s) (WConfirm, s')"
        using \<open>em_steps alive (WTest, waitBody s) (WConfirm, s')\<close>
        by (intro em_steps_to[OF _ \<open>em_steps alive (WTest, waitBody s) (WConfirm, s')\<close>])
          (simp add: waitBody_def)
      with comp show ?thesis by - (rule em_steps_to, simp_all)
    next
      case False
      then show ?thesis
        by - (rule em_steps_to[OF _ \<open>em_steps alive (WTest, waitBody s) (WConfirm, s')\<close>],
            simp add: waitBody_def)
    qed
    with True show ?thesis by - (rule em_steps_to, simp_all)
  qed
qed

lemma machine_poll:
  "i \<le> timesToPollApps \<Longrightarrow>
     em_steps alive (WPoll apps i, s)
       (if list_ex (\<lambda>j. pollRound (alive j) apps) [i..<timesToPollApps]
        then WChange else WDone K_INVALID_REQUEST, s)"
proof (induction "timesToPollApps - i" arbitrary: i)
  case 0
  then have "i = timesToPollApps" by simp
  then show ?case by - (rule em_steps_worker, simp)
next
  case (Suc n)
  then have i: "i < timesToPollApps" by simp
  show ?case
  proof (cases "pollRound (alive i) apps")
    case True
    with i show ?thesis by - (rule em_steps_worker, simp add: upt_conv_Cons)
  next
    case False
    from Suc.hyps i have "em_steps alive (WPoll apps (Suc i), s)
       (if list_ex (\<lambda>j. pollRound (alive j) apps) [Suc i..<timesToPollApps]
        then WChange else WDone K_INVALID_REQUEST, s)" by simp
    with i False show ?thesis by - (rule em_steps_worker, simp add: upt_conv_Cons)
  qed
qed

lemma machine_start:
  "em_steps alive (WStart, s)
     (case startApplicationsForState alive s of
        (ok, s') \<Rightarrow> (if ok then WChange else WDone K_INVALID_REQUEST, s'))"
proof (cases "m_pendingState s = MACHINE_STATE_STARTUP")
  case True
  have "em_steps alive (WPoll (appsToBeStarted s) 0, fold startApplication (appsToBeStarted s) s)
     (if isMsmAlive alive (appsToBeStarted s) then WChange else WDone K_INVALID_REQUEST,
      fold startApplication (appsToBeStarted s) s)"
    using machine_poll[of 0] by (simp add: isMsmAlive_def)
  with True show ?thesis
    by - (rule em_steps_worker, simp add: startApplicationsForState_def Let_def)
next
  case False
  then show ?thesis
    by - (rule em_steps_worker, simp add: startApplicationsForState_def Let_def)
qed

lemma setMachineState_simulates:
  assumes "setMachineState alive env state s = Some (r, s')"
  shows "em_steps alive (WCheck state, s) (WDone r, s')"
proof (cases "checkRequest state s")
  case (Pair err s1)
  show ?thesis
  proof (cases err)
    case (Some e)
    with Pair assms show ?thesis by - (rule em_steps_worker, simp add: setMachineState_def)
  next
    case None
    obtain ok s3 where s3: "startApplicationsForState alive (killProcessesForState s1) = (ok, s3)"
      by (cases "startApplicationsForState alive (killProcessesForState s1)")
    have upto: "em_steps alive (WCheck state, s) (if ok then WChange else WDone K_INVALID_REQUEST, s3)"
    proof (rule em_steps_to)
      show "worker_step alive (WCheck state, s) = (WKill, s1)"
        using Pair None by simp
      show "em_steps alive (WKill, s1) (if ok then WChange else WDone K_INVALID_REQUEST, s3)"
        using machine_start[of alive "killProcessesForState s1"] s3
        by - (rule em_steps_worker, simp)
    qed
    show ?thesis
    proof (cases ok)
      case False
      with assms Pair None s3 upto show ?thesis by (simp add: setMachineState_def)
    next
      case True
      let ?s5 = "snd (isConfirmAvailable (changeComponentsState s3))"
      from assms Pair None s3 True obtain s6 where
        loop: "waitLoop env ?s5 = Some s6"
        and res: "r = K_SUCCESS" "s' = (confirmState K_SUCCESS s6)\<lparr>m_currentState := m_pendingState (confirmState K_SUCCESS s6)\<rparr>"
        by (auto simp: setMachineState_def Let_def split: option.splits)
      have "em_steps alive (WCommit, confirmState K_SUCCESS s6) (WDone r, s')"
        using res by - (rule em_steps_worker, simp)
      then have "em_steps alive (WConfirm, s6) (WDone r, s')"
        by - (rule em_steps_worker, simp)
      with machine_waitLoop[OF loop, of alive] have "em_steps alive (WTest, ?s5) (WDone r, s')"
        by (rule rtranclp_trans)
      then have "em_steps alive (WProbe, changeComponentsState s3) (WDone r, s')"
        by - (rule em_steps_worker, simp)
      then have "em_steps alive (WChange, s3) (WDone r, s')"
        by - (rule em_steps_worker, simp)
      moreover from upto True have "em_steps alive (WCheck state, s) (WChange, s3)" by simp
      ultimately show ?thesis by (metis rtranclp_trans)
    qed
  qed
qed

section \<open>Invariants of every interleaving\<close>

definition is_confirm :: "em_call \<Rightarrow> bool" where
  "is_confirm c = (case c of Confirm _ \<Rightarrow> True | _ \<Rightarrow> False)"

definition confirmsSent :: "em \<Rightarrow> em_call list" where
  "confirmsSent s = filter is_confirm (em_calls s)"

text \<open>
  What a configuration satisfies in a run that serves the request \<open>st\<close> from the state \<open>s0\<close>.
\<close>

fun run_inv :: "string \<Rightarrow> em \<Rightarrow> wpc \<times> em \<Rightarrow> bool" where
  "run_inv st s0 (WCheck x, s) \<longleftrightarrow>
     x = st \<and> em_inv s \<and> m_machineManifestStates s = m_machineManifestStates s0 \<and>
     m_currentState s = m_currentState s0 \<and> confirmsSent s = confirmsSent s0 \<and>
     (\<forall>p. allowed (m_allowedProcessesForState s) p = allowed (m_allowedProcessesForState s0) p)"
| "run_inv st s0 (WDone r, s) \<longleftrightarrow>
     em_inv s \<and> m_machineManifestStates s = m_machineManifestStates s0 \<and>
     (if r = K_SUCCESS
      then validRequest st s0 \<and> m_currentState s = st \<and>
           confirmsSent s = confirmsSent s0 @ [Confirm K_SUCCESS]
      else m_currentState s = m_currentState s0 \<and> confirmsSent s = confirmsSent s0)"
| "run_inv st s0 (pc, s) \<longleftrightarrow>
     em_inv s \<and> m_machineManifestStates s = m_machineManifestStates s0 \<and> validRequest st s0 \<and>
     m_pendingState s = st \<and> m_currentState s = m_currentState s0 \<and>
     (\<forall>p. allowed (m_allowedProcessesForState s) p = allowed (m_allowedProcessesForState s0) p) \<and>
     confirmsSent s = (if pc = WCommit then confirmsSent s0 @ [Confirm K_SUCCESS] else confirmsSent s0) \<and>
     (pc \<in> {WKill, WStart, WChange, WProbe} \<or> (\<exists>apps i. pc = WPoll apps i)
        \<longrightarrow> \<not> m_readyToTransitToNextState s)"

lemma confirmsSent_simps [simp]:
  "confirmsSent (killProcessesForState s) = confirmsSent s"
  "confirmsSent (fold startApplication apps s) = confirmsSent s"
  "confirmsSent (changeComponentsState s) = confirmsSent s"
  "confirmsSent (snd (isConfirmAvailable s)) = confirmsSent s"
  "confirmsSent (waitReady s) = confirmsSent s"
  "confirmsSent (waitConfirms s) = confirmsSent s"
  "confirmsSent (confirmState r s) = confirmsSent s @ [Confirm r]"
  "confirmsSent (apply_rpc rr s) = confirmsSent s"
  "confirmsSent (s\<lparr>m_currentState := x\<rparr>) = confirmsSent s"
  "confirmsSent (requested x s) = confirmsSent s"
  "confirmsSent (s\<lparr>m_readyToTransitToNextState := b, m_componentConfirmsReceived := b'\<rparr>) = confirmsSent s"
  by (simp_all add: confirmsSent_def killProcessesForState_eq fold_startApplication
      changeComponentsState_eq waitReady_eq waitConfirms_def confirmState_def em_emit_def
      rpc.keeps_calls is_confirm_def filter_map o_def)

lemma rpc_run_inv: "run_inv st s0 (pc, s) \<Longrightarrow> run_inv st s0 (pc, apply_rpc r s)"
  by (cases pc) (simp_all add: rpc.keeps_inv rpc.keeps_manifest rpc.keeps_current rpc.keeps_pending
      rpc.keeps_allowed rpc.keeps_ready)

lemma isConfirmAvailable_run:
  assumes "em_inv s" "m_pendingState s \<in> set (m_machineManifestStates s)"
  shows "em_inv (snd (isConfirmAvailable s)) \<and>
    (\<forall>p. allowed (m_allowedProcessesForState (snd (isConfirmAvailable s))) p =
         allowed (m_allowedProcessesForState s) p)"
  using isConfirmAvailable_inv[OF assms] isConfirmAvailable_allowed[OF assms(1)] by simp

lemma checkRequest_not_success: "checkRequest st s = (Some K_SUCCESS, s') \<Longrightarrow> False"
  by (auto simp: checkRequest_def Let_def split: if_splits)

lemma worker_run_inv:
  assumes "run_inv st s0 (pc, s)"
  shows "run_inv st s0 (worker_step alive (pc, s))"
proof (cases pc)
  case (WCheck x)
  with assms have x: "x = st" and inv: "em_inv s" by simp_all
  show ?thesis
  proof (cases "validRequest st s")
    case True
    then have "validRequest st s0" using assms WCheck by (simp add: validRequest_def)
    with True assms WCheck checkRequest_inv[OF inv, of st] show ?thesis
      by (simp add: checkRequest_valid) (simp add: requested_def)
  next
    case False
    then have "checkRequest st s = (Some K_INVALID_STATE,
        s\<lparr>m_readyToTransitToNextState := False, m_componentConfirmsReceived := False\<rparr>)"
      by (auto simp: checkRequest_def validRequest_def Let_def)
    with assms WCheck checkRequest_inv[OF inv, of st] show ?thesis by simp
  qed
next
  case WKill
  with assms show ?thesis
    using kill.keeps_inv[of s] by simp (simp add: killProcessesForState_eq)
next
  case WStart
  with assms show ?thesis
    using start.sequence_keeps_inv[of s "appsToBeStarted s"]
    by (simp add: Let_def) (auto simp: fold_startApplication)
next
  case (WPoll apps i)
  with assms show ?thesis by simp
next
  case WChange
  with assms show ?thesis
    using change.keeps_inv[of s] by simp (simp add: changeComponentsState_eq)
next
  case WProbe
  with assms isConfirmAvailable_run[of s] show ?thesis by (simp add: validRequest_def)
next
  case WTest
  with assms show ?thesis by simp
next
  case WReady
  with assms isConfirmAvailable_run[of s] show ?thesis by (simp add: validRequest_def waitReady_eq)
next
  case WConfirms
  with assms show ?thesis
    using confirms.keeps_inv[of s] by simp (simp add: waitConfirms_def)
next
  case WConfirm
  with assms show ?thesis
    using conf_state.keeps_inv[of s K_SUCCESS] by simp (simp add: confirmState_def em_emit_def)
next
  case WCommit
  with assms show ?thesis by (auto simp: em_inv_def validRequest_def)
next
  case (WDone r)
  with assms show ?thesis by simp
qed

lemma em_step_run_inv:
  assumes "em_step alive cfg cfg'" "run_inv st s0 cfg"
  shows "run_inv st s0 cfg'"
  using assms(1)
proof cases
  case worker
  with assms(2) worker_run_inv[of st s0 "fst cfg" "snd cfg" alive] show ?thesis by simp
next
  case (rpc_call pc s r)
  with assms(2) show ?thesis by (simp only: rpc_run_inv)
qed

lemma em_steps_run_inv:
  assumes "em_steps alive cfg cfg'" "run_inv st s0 cfg"
  shows "run_inv st s0 cfg'"
  using assms by (induction rule: rtranclp_induct) (auto intro: em_step_run_inv)

lemma run_inv_start: "em_inv s \<Longrightarrow> run_inv st s (WCheck st, s)"
  by simp

text \<open>A configuration past the point where the flag was seen set.\<close>

definition passed :: "wpc \<times> em \<Rightarrow> bool" where
  "passed cfg \<longleftrightarrow>
     fst cfg \<in> {WTest, WReady, WConfirms} \<and> m_readyToTransitToNextState (snd cfg) \<or>
     fst cfg \<in> {WConfirm, WCommit, WDone K_SUCCESS}"

lemma em_steps_matched:
  assumes "em_steps alive (WCheck st, s) cfg" "em_inv s" "passed cfg"
    and "st \<noteq> MACHINE_STATE_SUSPEND" "st \<noteq> MACHINE_STATE_RUNNING"
  shows "\<exists>pc t. em_steps alive (WCheck st, s) (pc, t) \<and> em_steps alive (pc, t) cfg \<and>
           set (m_activeProcesses t) = allowed (m_allowedProcessesForState s) st"
  using assms(1,3)
proof (induction rule: rtranclp_induct)
  case base
  then show ?case by (simp add: passed_def)
next
  case (step cfg cfg')
  obtain pc t where cfg: "cfg = (pc, t)" by (cases cfg)
  have inv: "run_inv st s (pc, t)"
    using em_steps_run_inv[OF step.hyps(1) run_inv_start[OF assms(2)]] cfg by simp
  show ?case
  proof (cases "passed cfg")
    case True
    with step show ?thesis by (meson rtranclp.rtrancl_into_rtrancl)
  next
    case False
    from step.hyps(2) have "em_inv t \<and> m_pendingState t = st \<and> fst (isConfirmAvailable t) \<and>
        (\<forall>p. allowed (m_allowedProcessesForState t) p = allowed (m_allowedProcessesForState s) p)"
    proof cases
      case worker
      have noComp: "m_pendingState t = st \<Longrightarrow> \<not> waitsForComponents t"
        using assms(4,5) by (simp add: waitsForComponents_def)
      show ?thesis
        using worker False step.prems inv noComp
        by (cases pc)
          (auto simp: cfg passed_def waiting_def waitReady_eq waitConfirms_def Let_def
            split: if_splits prod.splits option.splits dest: checkRequest_not_success)
    next
      case (rpc_call pc' t' r)
      with False step.prems show ?thesis by (auto simp: passed_def rpc.keeps_ready)
    qed
    then have "set (m_activeProcesses t) = allowed (m_allowedProcessesForState s) st"
      using isConfirmAvailable_iff[of t] by simp
    with step.hyps cfg show ?thesis by (meson r_into_rtranclp)
  qed
qed

end
