(* ===== verification/Em_Properties.thy ===== *)
theory Em_Properties
  imports Em_Worker
begin

text \<open>
  The properties of the execution manager, each with a concrete run that satisfies its hypotheses.
  \<open>sample_em\<close> is a manager for five machine states with three services; \<open>nobody\<close> answers every
  \<open>isActiveProcess\<close> query with no.
\<close>

definition sample_em :: em where
  "sample_em =
     ExecutionManager_init
       [(''Living'', [''app_a'', ''app_b'']), (''Running'', [''app_a'']),
        (''Starting-up'', [''app_a'', ''m_msm''])]
       [''Starting-up'', ''Running'', ''Suspend'', ''Living'', ''Shuttingdown'']"

definition nobody :: "nat \<Rightarrow> string \<Rightarrow> bool" where
  "nobody = (\<lambda>_ _. False)"

definition sample_env :: "em_rpc list list" where
  "sample_env = [[Report ''app_b'' K_RUNNING], [Report ''app_a'' K_RUNNING], []]"

definition sample_end :: em where
  "sample_end = snd (the (setMachineState nobody sample_env ''Living'' sample_em))"

lemma sample_inv: "em_inv sample_em"
  unfolding sample_em_def by (rule init_inv) (simp add: wf_allowed_def)

lemma sample_run: "setMachineState nobody sample_env ''Living'' sample_em = Some (K_SUCCESS, sample_end)"
  by code_simp

lemma sample_steps: "em_steps nobody (WCheck ''Living'', sample_em) (WDone K_SUCCESS, sample_end)"
  by (rule setMachineState_simulates[OF sample_run])

lemma sample_valid: "validRequest ''Living'' sample_em"
  by code_simp

section \<open>Safety under every interleaving\<close>



text \<open>
  C6. Under every interleaving a request that ends leaves the object well formed (sorted sets,
  every key of the table and every machine state declared, pending confirmations and subscribers
  registered); the machine state changes to the requested one exactly when the result is success,
  which needs a declared state different from the current one, and exactly then one confirmation,
  a successful one, has been sent to the machine state manager.
\<close>

theorem request_outcome:
  assumes "em_inv s" "em_steps alive (WCheck st, s) (WDone r, s')"
  shows "em_inv s' \<and>
         (r = K_SUCCESS \<longrightarrow> validRequest st s) \<and>
         m_currentState s' = (if r = K_SUCCESS then st else m_currentState s) \<and>
         confirmsSent s' = confirmsSent s @ (if r = K_SUCCESS then [Confirm K_SUCCESS] else [])"
  using em_steps_run_inv[OF assms(2) run_inv_start[OF assms(1)]] by (simp split: if_splits)

theorem request_outcome_witness:
  "em_inv sample_end \<and> m_currentState sample_end = ''Living'' \<and>
   confirmsSent sample_end = confirmsSent sample_em @ [Confirm K_SUCCESS]"
  using request_outcome[OF sample_inv sample_steps] by simp

section \<open>What a request does\<close>

text \<open>
  C4. A request that succeeds has, in this order, killed exactly the running services that the new
  state does not allow, started exactly the allowed ones that were not running, told every
  subscribed component that was not killed its new component state (off for Suspend, on for every
  other state), and confirmed; the current state is the requested one.
\<close>

theorem setMachineState_success_calls:
  assumes "setMachineState alive env st s = Some (K_SUCCESS, s')"
  shows "em_calls s' = em_calls s
           @ map KillProcess (filter (\<lambda>a. a \<notin> allowed (m_allowedProcessesForState s) st) (m_activeProcesses s))
           @ map StartProcess (appsToBeStarted (s\<lparr>m_pendingState := st\<rparr>))
           @ map (SetComponentState (if st = MACHINE_STATE_SUSPEND then COMPONENT_STATE_OFF else COMPONENT_STATE_ON))
               (filter (\<lambda>c. c \<notin> set (m_activeProcesses s) \<or> c \<in> allowed (m_allowedProcessesForState s) st)
                  (m_componentStateUpdateSbscrs s))
           @ [Confirm K_SUCCESS] \<and>
         set (appsToBeStarted (s\<lparr>m_pendingState := st\<rparr>)) =
           allowed (m_allowedProcessesForState s) st - set (m_activeProcesses s) \<and>
         m_currentState s' = st"
proof -
  have valid: "validRequest st s"
    using assms by (auto simp: setMachineState_def checkRequest_def validRequest_def Let_def
        split: if_splits)
  have alive: "st = MACHINE_STATE_STARTUP \<longrightarrow> isMsmAlive alive (appsToBeStarted (requested st s))"
    using assms
    by (auto simp: setMachineState_def checkRequest_valid[OF valid] startApplicationsForState_eq
        killProcessesForState_eq Let_def appsToBeStarted_def split: if_splits cong: option.case_cong)
  from assms setMachineState_valid[OF valid alive, of env] obtain s6 where
    loop: "waitLoop env (beforeWait st s) = Some s6"
    and s': "s' = s6\<lparr>em_calls := em_calls s6 @ [Confirm K_SUCCESS], m_currentState := m_pendingState s6\<rparr>"
    by auto
  have "appsToBeStarted (s\<lparr>m_pendingState := st\<rparr>) = appsToBeStarted (requested st s)"
    by (simp add: appsToBeStarted_def cong: option.case_cong)
  moreover have "filter (\<lambda>c. c \<notin> set (toBeKilled (requested st s))) xs =
      filter (\<lambda>c. c \<notin> set (m_activeProcesses s) \<or> c \<in> allowed (m_allowedProcessesForState s) st) xs"
    for xs by (rule filter_cong) (auto simp: toBeKilled_def)
  ultimately show ?thesis
    using waitLoop_keeps[OF loop] s'
    by (simp add: transitionCalls_def toBeKilled_def componentStateFor_def set_appsToBeStarted)
qed

theorem setMachineState_success_calls_witness:
  "em_calls sample_end = [StartProcess ''app_a'', StartProcess ''app_b'', Confirm K_SUCCESS] \<and>
   m_currentState sample_end = ''Living''"
proof -
  have "appsToBeStarted (sample_em\<lparr>m_pendingState := ''Living''\<rparr>) = [''app_a'', ''app_b'']"
    "em_calls sample_em = []" "m_activeProcesses sample_em = []"
    "m_componentStateUpdateSbscrs sample_em = []"
    by code_simp+
  with setMachineState_success_calls[OF sample_run] show ?thesis by simp
qed

text \<open>
  A request for a state that the machine manifest does not declare, or for the current state,
  is answered with the invalid-state error at once; no service is started or killed, nothing is
  confirmed, and only the two flags of the waiting loop are reset.
\<close>

theorem setMachineState_invalid:
  assumes "st \<notin> set (m_machineManifestStates s) \<or> st = m_currentState s"
  shows "setMachineState alive env st s =
           Some (K_INVALID_STATE,
             s\<lparr>m_readyToTransitToNextState := False, m_componentConfirmsReceived := False\<rparr>)"
  using assms by (auto simp: setMachineState_def checkRequest_def Let_def)

theorem setMachineState_invalid_witness:
  "setMachineState nobody [] ''Nowhere'' sample_em =
     Some (K_INVALID_STATE,
       sample_em\<lparr>m_readyToTransitToNextState := False, m_componentConfirmsReceived := False\<rparr>)"
  by (rule setMachineState_invalid) code_simp

text \<open>
  C24. Starting up: a valid request for Starting-up fails with the invalid-request error, after the
  services have been started but with nothing confirmed and the machine state unchanged, exactly
  when in none of the six polling rounds a service that was to be started and whose name contains
  "msm" is alive.
\<close>

theorem startup_needs_msm:
  assumes "validRequest MACHINE_STATE_STARTUP s"
  shows "(\<exists>s'. setMachineState alive env MACHINE_STATE_STARTUP s = Some (K_INVALID_REQUEST, s') \<and>
            m_currentState s' = m_currentState s \<and> confirmsSent s' = confirmsSent s) \<longleftrightarrow>
         \<not> (\<exists>i < 6. \<exists>app. app \<in> set (appsToBeStarted (requested MACHINE_STATE_STARTUP s)) \<and>
              alive i app \<and> str_contains app ''msm'')"
proof -
  let ?apps = "appsToBeStarted (requested MACHINE_STATE_STARTUP s)"
  let ?s2 = "killProcessesForState (requested MACHINE_STATE_STARTUP s)"
  have pend: "m_pendingState ?s2 = MACHINE_STATE_STARTUP" by (simp add: killProcessesForState_eq)
  have alive: "isMsmAlive alive ?apps \<longleftrightarrow>
      (\<exists>i < 6. \<exists>app. app \<in> set ?apps \<and> alive i app \<and> str_contains app ''msm'')"
    by (auto simp: isMsmAlive_def pollRound_def timesToPollApps_def list_ex_iff)
  show ?thesis
  proof (cases "isMsmAlive alive ?apps")
    case True
    with setMachineState_valid[OF assms, of alive env] alive show ?thesis by auto
  next
    case False
    then have "setMachineState alive env MACHINE_STATE_STARTUP s =
        Some (K_INVALID_REQUEST, fold startApplication ?apps ?s2)"
      by (simp add: setMachineState_def checkRequest_valid[OF assms] startApplicationsForState_eq
          pend fold_startApplication Let_def)
    moreover have "m_currentState (fold startApplication ?apps ?s2) = m_currentState s"
      by (simp add: fold_startApplication killProcessesForState_eq)
    ultimately show ?thesis using False alive by auto
  qed
qed

theorem startup_needs_msm_witness:
  "\<exists>s'. setMachineState nobody [] MACHINE_STATE_STARTUP sample_em = Some (K_INVALID_REQUEST, s') \<and>
     m_currentState s' = m_currentState sample_em \<and> confirmsSent s' = confirmsSent sample_em"
proof -
  have "validRequest MACHINE_STATE_STARTUP sample_em" by code_simp
  from startup_needs_msm[OF this, of nobody "[]"] show ?thesis by (simp add: nobody_def)
qed

section \<open>When a request returns\<close>

text \<open>
  C5. Termination of the waiting loop, exactly: a valid request for a state other than Suspend,
  Running and Starting-up returns (with success) if and only if at one of the evaluations the loop
  makes the services reported as running are exactly the allowed ones; otherwise the worker
  keeps waiting for as long as calls arrive.
\<close>

theorem request_returns_iff:
  assumes "em_inv s" "validRequest st s"
    and "st \<notin> {MACHINE_STATE_SUSPEND, MACHINE_STATE_RUNNING, MACHINE_STATE_STARTUP}"
  shows "(\<exists>s'. setMachineState alive env st s = Some (K_SUCCESS, s')) \<longleftrightarrow>
           (\<exists>k \<le> length env - 1.
              set (activeAfter (concat (take k env)) s) = allowed (m_allowedProcessesForState s) st)"
    (is "?returns \<longleftrightarrow> ?match")
proof -
  let ?s = "beforeWait st s"
  have noComp: "\<not> waitsForComponents ?s" using assms(3) by (simp add: waitsForComponents_def)
  have inv: "em_inv ?s" "m_pendingState ?s \<in> set (m_machineManifestStates ?s)"
    using beforeWait_inv[OF assms(1,2)] assms(2) by (simp_all add: validRequest_def)
  have act: "activeAfter rpcs ?s = activeAfter rpcs s" for rpcs
    by (rule activeAfter_cong) simp
  have ret: "?returns \<longleftrightarrow> (\<exists>s'. waitLoop env ?s = Some s')"
    using setMachineState_valid[OF assms(2), of alive env] assms(3) by auto
  have first: "set (activeAfter (concat (take 0 env)) s) = allowed (m_allowedProcessesForState s) st \<longleftrightarrow>
      m_readyToTransitToNextState ?s"
    using beforeWait_ready[OF assms(1,2)] by (simp add: activeAfter_def)
  show ?thesis
  proof (cases "m_readyToTransitToNextState ?s")
    case True
    then have "waitLoop env ?s = Some ?s"
      using noComp by (cases env) (simp_all add: waiting_def)
    with ret first True show ?thesis by blast
  next
    case False
    with ret waitLoop_services_iff[OF inv noComp False, of env]
    have "?returns \<longleftrightarrow> (\<exists>k < length env. set (activeAfter (concat (take k env)) s) =
        allowed (m_allowedProcessesForState s) st)"
      by (simp add: act beforeWait_allowed[OF assms(1,2)])
    also have "\<dots> \<longleftrightarrow> ?match"
    proof (cases env)
      case Nil
      with False first show ?thesis by simp
    next
      case (Cons rpcs env')
      then show ?thesis by (simp add: less_Suc_eq_le)
    qed
    finally show ?thesis .
  qed
qed

theorem request_returns_iff_witness:
  "(\<exists>s'. setMachineState nobody sample_env ''Living'' sample_em = Some (K_SUCCESS, s')) \<and>
   \<not> (\<exists>s'. setMachineState nobody [[], [Report ''app_a'' K_RUNNING], []] ''Living'' sample_em = Some (K_SUCCESS, s'))"
proof -
  have st: "''Living'' \<notin> {MACHINE_STATE_SUSPEND, MACHINE_STATE_RUNNING, MACHINE_STATE_STARTUP}"
    by (simp add: machine_state_defs)
  note iff = request_returns_iff[OF sample_inv sample_valid st, of nobody]
  have a: "set (activeAfter (concat (take 2 sample_env)) sample_em) =
      allowed (m_allowedProcessesForState sample_em) ''Living''" "2 \<le> length sample_env - 1"
    by code_simp+
  let ?env = "[[], [Report ''app_a'' K_RUNNING], []]"
  have none: "\<not> (\<exists>k \<le> 2. set (activeAfter (concat (take k ?env)) sample_em) =
      allowed (m_allowedProcessesForState sample_em) ''Living'')"
  proof
    assume "\<exists>k \<le> 2. set (activeAfter (concat (take k ?env)) sample_em) =
        allowed (m_allowedProcessesForState sample_em) ''Living''"
    then obtain k where "k \<le> 2" and k: "set (activeAfter (concat (take k ?env)) sample_em) =
        allowed (m_allowedProcessesForState sample_em) ''Living''" by blast
    then consider "k = 0" | "k = 1" | "k = 2" by linarith
    then show False
    proof cases
      case 1
      have "set (activeAfter (concat (take 0 ?env)) sample_em) \<noteq>
          allowed (m_allowedProcessesForState sample_em) ''Living''" by code_simp
      with k show False unfolding 1 by blast
    next
      case 2
      have "set (activeAfter (concat (take 1 ?env)) sample_em) \<noteq>
          allowed (m_allowedProcessesForState sample_em) ''Living''" by code_simp
      with k show False unfolding 2 by blast
    next
      case 3
      have "set (activeAfter (concat (take 2 ?env)) sample_em) \<noteq>
          allowed (m_allowedProcessesForState sample_em) ''Living''" by code_simp
      with k show False unfolding 3 by blast
    qed
  qed
  have len: "length ?env - 1 = 2" by simp
  have "\<exists>s'. setMachineState nobody sample_env ''Living'' sample_em = Some (K_SUCCESS, s')"
    using iff[of sample_env] a by blast
  moreover have "\<not> (\<exists>s'. setMachineState nobody ?env ''Living'' sample_em = Some (K_SUCCESS, s'))"
    using iff[of ?env] none unfolding len by blast
  ultimately show ?thesis by (rule conjI)
qed

text \<open>
  C33. Running and Suspend do not wait for the services: when no component is registered, a valid
  request for one of these states is confirmed after a single iteration of the waiting loop,
  whatever services run and whatever is reported meanwhile.
\<close>

theorem running_confirmed_without_services:
  assumes "em_inv s" "validRequest st s" "m_registeredComponents s = []"
    and "st \<in> {MACHINE_STATE_SUSPEND, MACHINE_STATE_RUNNING}" "env \<noteq> []"
  shows "\<exists>s'. setMachineState alive env st s = Some (K_SUCCESS, s') \<and> m_currentState s' = st"
proof -
  let ?s = "beforeWait st s"
  from assms(5) obtain rpcs env' where env: "env = rpcs # env'" by (cases env) auto
  have notStart: "st = MACHINE_STATE_STARTUP \<longrightarrow> isMsmAlive alive (appsToBeStarted (requested st s))"
    using assms(4) by (auto simp: machine_state_defs)
  have comp: "waitsForComponents ?s" using assms(4) by (auto simp: waitsForComponents_def)
  have pend: "m_componentPendingConfirms ?s = []"
    using assms(1,3) by (simp add: em_inv_def)
  let ?t = "fold apply_rpc rpcs (waitBody ?s)"
  have "m_componentConfirmsReceived (waitBody ?s)"
    using comp pend by (simp add: waitBody_def waitConfirms_def waitReady_eq)
  with pend have "m_componentConfirmsReceived ?t"
    using confirms_flag_stays[of "waitBody ?s" rpcs] by simp
  moreover have "waitsForComponents ?t"
    using comp by (simp add: waitsForComponents_def rpc.sequence_frame)
  ultimately have "\<not> waiting ?t" by (simp add: waiting_def)
  then have "waitLoop env' ?t = Some ?t" by (cases env') simp_all
  then have "\<exists>s6. waitLoop env ?s = Some s6" by (simp add: env)
  then obtain s6 where s6: "waitLoop env ?s = Some s6" ..
  with setMachineState_valid[OF assms(2) notStart, of env] waitLoop_keeps[OF s6] show ?thesis
    by simp
qed

theorem running_confirmed_without_services_witness:
  "\<exists>s'. setMachineState nobody [[]] MACHINE_STATE_RUNNING sample_em = Some (K_SUCCESS, s') \<and>
     m_currentState s' = MACHINE_STATE_RUNNING"
proof (rule running_confirmed_without_services[OF sample_inv])
  show "validRequest MACHINE_STATE_RUNNING sample_em" by code_simp
  show "m_registeredComponents sample_em = []" by code_simp
qed simp_all

section \<open>Refinement\<close>



section \<open>Component confirmations\<close>

text \<open>The confirmations that count.\<close>

definition accepts :: "ComponentClientReturnType \<Rightarrow> bool" where
  "accepts status \<longleftrightarrow> status \<noteq> CC_GENERAL_ERROR \<and> status \<noteq> CC_INVALID"

definition confirmAll :: "(string \<times> string \<times> ComponentClientReturnType) list \<Rightarrow> em_rpc list" where
  "confirmAll confs = map (\<lambda>(c, st, status). ConfirmComponent c st status) confs"

definition confirmedBy :: "(string \<times> string \<times> ComponentClientReturnType) list \<Rightarrow> string set" where
  "confirmedBy confs = {c. \<exists>st status. (c, st, status) \<in> set confs \<and> accepts status}"

lemma confirm_step:
  "set (m_componentPendingConfirms (confirmComponentState c st status s)) =
     set (m_componentPendingConfirms s) - (if accepts status then {c} else {}) \<and>
   (m_componentPendingConfirms (confirmComponentState c st status s) = [] \<and>
      (m_componentPendingConfirms s \<noteq> [] \<or> m_componentConfirmsReceived s) \<longrightarrow>
      m_componentConfirmsReceived (confirmComponentState c st status s))"
  by (auto simp: confirmComponentState_def accepts_def Let_def)

lemma confirms_fold:
  "set (m_componentPendingConfirms (fold apply_rpc (confirmAll confs) s)) =
     set (m_componentPendingConfirms s) - confirmedBy confs \<and>
   (m_componentPendingConfirms (fold apply_rpc (confirmAll confs) s) = [] \<and>
      (m_componentPendingConfirms s \<noteq> [] \<or> m_componentConfirmsReceived s) \<longrightarrow>
      m_componentConfirmsReceived (fold apply_rpc (confirmAll confs) s))"
proof (induction confs arbitrary: s)
  case Nil
  then show ?case by (simp add: confirmAll_def confirmedBy_def)
next
  case (Cons conf confs)
  obtain c st status where conf: "conf = (c, st, status)" by (cases conf)
  let ?s = "confirmComponentState c st status s"
  have split: "confirmedBy (conf # confs) = (if accepts status then {c} else {}) \<union> confirmedBy confs"
    by (auto simp: confirmedBy_def conf)
  have steps: "fold apply_rpc (confirmAll (conf # confs)) s = fold apply_rpc (confirmAll confs) ?s"
    by (simp add: confirmAll_def conf)
  from Cons.IH[of ?s] confirm_step[of c st status s] show ?case
    unfolding split steps by auto
qed



end
