(* ===== verification/App_Handler.thy ===== *)
theory App_Handler
  imports Common
begin

text \<open>
  \<^verbatim>\<open>applications/ExecutionManager/src/application_handler.cpp\<close> (starting, stopping and probing
  services through \<^verbatim>\<open>systemctl\<close> and \<^verbatim>\<open>pidof\<close>), \<^verbatim>\<open>os_interface.cpp\<close> (which only forwards to the
  operating system) and \<^verbatim>\<open>msm_handler.cpp\<close> (which process is the machine state manager). The
  operating system is a parameter: the value \<^verbatim>\<open>fork\<close> returns, what \<^verbatim>\<open>execvp\<close> returns (\<open>None\<close> when it
  does not return), and the output of a \<^verbatim>\<open>popen\<close>ed command.
\<close>

section \<open>System calls\<close>

datatype os_call =
    Fork
  | Execvp string "string option list"

text \<open>\<^verbatim>\<open>convertToNullTerminatingArgv\<close>: \<open>None\<close> is the terminating null pointer.\<close>

definition convertToNullTerminatingArgv :: "string list \<Rightarrow> string option list" where
  "convertToNullTerminatingArgv vectorToConvert = map Some vectorToConvert @ [None]"

text \<open>
  The result of \<open>execProcess\<close> in the process in which \<^verbatim>\<open>fork\<close> returned \<open>forkRes\<close>, with the system
  calls that process made. The result is \<open>None\<close> when the process became another program.
\<close>

definition execProcess ::
    "int \<Rightarrow> (string \<Rightarrow> string option list \<Rightarrow> int option) \<Rightarrow> string \<Rightarrow> string
       \<Rightarrow> bool option \<times> os_call list" where
  "execProcess forkRes execvp processName action =
     (if forkRes = - 1 then (Some False, [Fork])
      else if forkRes = 0 then
        (let args = convertToNullTerminatingArgv
                      [SYSTEMCTL, USER, action, processName @ SERVICE_EXTENSION];
             calls = [Fork, Execvp SYSTEMCTL args]
         in case execvp SYSTEMCTL args of
              None \<Rightarrow> (None, calls)
            | Some res \<Rightarrow> (Some (- 1 = res), calls))
      else (Some False, [Fork]))"

definition startProcess where
  "startProcess forkRes execvp serviceName = execProcess forkRes execvp serviceName SYSTEMCTL_START"

definition killProcess where
  "killProcess forkRes execvp serviceName = execProcess forkRes execvp serviceName SYSTEMCTL_STOP"

section \<open>Probing a process\<close>

text \<open>
  \<^verbatim>\<open>atoi\<close> on a buffer: white space, an optional sign, digits. Running off the end of the buffer and
  a value that is not an \<^verbatim>\<open>int\<close> are undefined.
\<close>

definition digit_val :: "char \<Rightarrow> int" where
  "digit_val c = int (of_char c) - 48"

fun atoi_digits :: "int \<Rightarrow> string \<Rightarrow> int res" where
  "atoi_digits acc [] = Inl (Undefined ''atoi past the buffer'')"
| "atoi_digits acc (c # s) =
     (if is_digit c then atoi_digits (10 * acc + digit_val c) s else Inr acc)"

definition int_range :: "int \<Rightarrow> bool" where
  "int_range i \<longleftrightarrow> - (2 ^ 31) \<le> i \<and> i < 2 ^ 31"

definition atoi :: "string \<Rightarrow> int res" where
  "atoi buf =
     (let s = dropWhile is_space buf;
          neg = (s \<noteq> [] \<and> hd s = CHR ''-'');
          s' = (if s \<noteq> [] \<and> (hd s = CHR ''-'' \<or> hd s = CHR ''+'') then tl s else s)
      in rbind (atoi_digits 0 s') (\<lambda>n.
         let i = (if neg then - n else n)
         in if int_range i then Inr i else Inl (Undefined ''atoi overflow'')))"

definition maxPidLen :: nat where
  "maxPidLen = 128"

text \<open>\<^verbatim>\<open>popen\<close> gives the command's output, or \<open>None\<close> when it fails and \<^verbatim>\<open>fread\<close> reads a null stream.\<close>

definition isActiveProcess :: "(string \<Rightarrow> string option) \<Rightarrow> string \<Rightarrow> bool res" where
  "isActiveProcess popen serviceName =
     rbind (str_substr serviceName (str_find_first_of serviceName (CHR ''_'') + 1) npos) (\<lambda>appName.
       case popen (''pidof '' @ appName) of
         None \<Rightarrow> Inl (Undefined ''fread from a null stream'')
       | Some out \<Rightarrow>
           (let line = take maxPidLen out;
                pidline = line @ replicate (maxPidLen - length line) (CHR 0x00)
            in rbind (atoi pidline) (\<lambda>pidno. Inr (1 < pidno))))"

section \<open>MsmHandler\<close>

record MsmHandler =
  m_msmPId :: int

definition MsmHandler_init :: MsmHandler where
  "MsmHandler_init = \<lparr>m_msmPId = - 1\<rparr>"

definition registerMsm :: "int \<Rightarrow> string \<Rightarrow> MsmHandler \<Rightarrow> bool \<times> MsmHandler" where
  "registerMsm processId appName h =
     (if (m_msmPId h = - 1 \<or> m_msmPId h = processId) \<and> appName \<noteq> []
      then (True, h\<lparr>m_msmPId := processId\<rparr>) else (False, h))"

definition checkMsm :: "int \<Rightarrow> MsmHandler \<Rightarrow> bool" where
  "checkMsm processId h = (processId = m_msmPId h)"

definition msmPid :: "MsmHandler \<Rightarrow> int" where
  "msmPid h = m_msmPId h"

section \<open>Lemmas\<close>

lemma digit_char:
  assumes "d < 10"
  shows "is_digit (char_of (48 + d :: nat))" "digit_val (char_of (48 + d :: nat)) = int d"
  using assms by (simp_all add: is_digit_def digit_val_def)

text \<open>Reading back the digits that \<^verbatim>\<open>std::to_string\<close> writes.\<close>

lemma atoi_digits_append:
  "atoi_digits acc (digits_of_nat n @ rest) =
     atoi_digits (acc * 10 ^ length (digits_of_nat n) + int n) rest"
proof (induction n arbitrary: acc rest rule: digits_of_nat.induct)
  case (1 n)
  show ?case
  proof (cases "n < 10")
    case True
    then show ?thesis
      by (simp add: digits_of_nat.simps[of n] digit_char mult.commute)
  next
    case False
    have "n mod 10 < 10" by simp
    note d = digit_char[OF this]
    have "int n = 10 * int (n div 10) + int (n mod 10)"
      by (metis div_mult_mod_eq mult.commute of_nat_add of_nat_mult of_nat_numeral)
    with False 1[OF False] show ?thesis
      by (simp add: digits_of_nat.simps[of n] d algebra_simps)
  qed
qed

lemma digits_of_nat_hd: "\<exists>c cs. digits_of_nat n = c # cs \<and> is_digit c"
proof (induction n rule: digits_of_nat.induct)
  case (1 n)
  then show ?case
    by (cases "n < 10") (auto simp: digits_of_nat.simps[of n] digit_char)
qed

lemma is_digit_not_special:
  "is_digit c \<Longrightarrow> \<not> is_space c \<and> c \<noteq> CHR ''-'' \<and> c \<noteq> CHR ''+''"
  by (auto simp: is_digit_def is_space_def)

lemma atoi_of_digits:
  assumes "n < 2 ^ 31" "rest \<noteq> []" "\<not> is_digit (hd rest)"
  shows "atoi (digits_of_nat n @ rest) = Inr (int n)"
proof -
  obtain c cs where c: "digits_of_nat n = c # cs" "is_digit c"
    using digits_of_nat_hd by blast
  have "dropWhile is_space (digits_of_nat n @ rest) = digits_of_nat n @ rest"
    using c is_digit_not_special[OF c(2)] by simp
  moreover have "hd (digits_of_nat n @ rest) \<noteq> CHR ''-''" "hd (digits_of_nat n @ rest) \<noteq> CHR ''+''"
    using c is_digit_not_special[OF c(2)] by simp_all
  moreover have "atoi_digits 0 (digits_of_nat n @ rest) = Inr (int n)"
    using assms(2,3) by (cases rest) (simp_all add: atoi_digits_append)
  moreover have "int_range (int n)"
    using assms(1) by (simp add: int_range_def)
  ultimately show ?thesis
    by (simp add: atoi_def Let_def)
qed

lemma substr_after_first:
  assumes "c \<notin> set a" "str_fits (a @ c # b)"
  shows "str_substr (a @ c # b) (str_find_first_of (a @ c # b) c + 1) npos = Inr b"
proof -
  have "str_find_first_of (a @ c # b) c + 1 = of_nat (Suc (length a))"
    using find_first_of_split[OF assms(1), of b] by simp
  then show ?thesis
    using assms(2) by (simp add: substr_of_nat unat_npos del: of_nat_Suc)
qed

lemma registerMsm_keeps: "m_msmPId h \<noteq> - 1 \<Longrightarrow> m_msmPId (snd (registerMsm p n h)) = m_msmPId h"
  by (auto simp: registerMsm_def)

lemma atoi_zeros: "n > 0 \<Longrightarrow> atoi (replicate n (CHR 0x00)) = Inr 0"
  by (cases n) (simp_all add: atoi_def is_space_def is_digit_def int_range_def)

lemma length_digits_of_nat: "length (digits_of_nat n) \<le> Suc n"
proof (induction n rule: digits_of_nat.induct)
  case (1 n)
  then show ?case by (cases "n < 10") (auto simp: digits_of_nat.simps[of n])
qed

section \<open>Properties\<close>

text \<open>
  Probing a service asks \<^verbatim>\<open>pidof\<close> for the process name behind the first underscore of the service
  name and answers yes exactly when the first process id in the output is greater than 1; it
  answers no when the output is empty. (The output fits the buffer, and the id is a C++ \<^verbatim>\<open>int\<close>.)
\<close>

theorem isActiveProcess_reads_pid:
  assumes "CHR ''_'' \<notin> set app" "str_fits (getServiceName app proc)"
    and "pid < 2 ^ 31" "rest \<noteq> []" "\<not> is_digit (hd rest)" "length (digits_of_nat pid @ rest) \<le> 128"
  shows "(popen (''pidof '' @ proc) = Some (digits_of_nat pid @ rest) \<longrightarrow>
            isActiveProcess popen (getServiceName app proc) = Inr (1 < pid)) \<and>
         (popen (''pidof '' @ proc) = Some [] \<longrightarrow>
            isActiveProcess popen (getServiceName app proc) = Inr False)"
proof -
  have name: "str_substr (getServiceName app proc)
      (str_find_first_of (getServiceName app proc) (CHR ''_'') + 1) npos = Inr proc"
    using substr_after_first[of "CHR ''_''" app proc] assms(1,2) by (simp add: getServiceName_def)
  let ?pad = "replicate (maxPidLen - length (digits_of_nat pid @ rest)) (CHR 0x00)"
  have "atoi (digits_of_nat pid @ rest @ ?pad) = Inr (int pid)"
    by (rule atoi_of_digits) (use assms in auto)
  moreover have "take maxPidLen (digits_of_nat pid @ rest) = digits_of_nat pid @ rest"
    using assms(6) by (simp add: maxPidLen_def)
  ultimately have "isActiveProcess popen (getServiceName app proc) = Inr (1 < pid)"
    if "popen (''pidof '' @ proc) = Some (digits_of_nat pid @ rest)"
    using that by (simp add: isActiveProcess_def name Let_def)
  moreover have "atoi (replicate 128 (CHR 0x00)) = Inr 0" by (rule atoi_zeros) simp
  then have "isActiveProcess popen (getServiceName app proc) = Inr False"
    if "popen (''pidof '' @ proc) = Some []"
    using that by (simp add: isActiveProcess_def name Let_def maxPidLen_def)
  ultimately show ?thesis by blast
qed

theorem isActiveProcess_reads_pid_witness:
  "isActiveProcess (\<lambda>_. Some (digits_of_nat 42 @ [CHR 0x0A])) ''App_proc1'' = Inr True"
proof -
  have len: "length (digits_of_nat 42 @ [CHR 0x0A]) \<le> 128" using length_digits_of_nat[of 42] by simp
  have "\<not> is_digit (hd [CHR 0x0A])" by (simp add: is_digit_def)
  from isActiveProcess_reads_pid[of "''App''" "''proc1''" 42, OF _ _ _ _ this len,
      where popen = "\<lambda>_. Some (digits_of_nat 42 @ [CHR 0x0A])"]
  show ?thesis by (simp add: getServiceName_def)
qed

text \<open>
  The result of starting a service: false in the execution manager whatever happens, true only
  in a forked child in which replacing the process image failed. The only program ever executed is
  \<^verbatim>\<open>systemctl --user start <service>.service\<close>, and only in the child.
\<close>

theorem startProcess_result:
  "(fst (startProcess forkRes execvp service) = Some True \<longleftrightarrow>
      forkRes = 0 \<and>
      execvp ''systemctl'' [Some ''systemctl'', Some ''--user'', Some ''start'', Some (service @ ''.service''), None]
        = Some (- 1)) \<and>
   (\<forall>file args. Execvp file args \<in> set (snd (startProcess forkRes execvp service)) \<longleftrightarrow>
      forkRes = 0 \<and> file = ''systemctl'' \<and>
      args = [Some ''systemctl'', Some ''--user'', Some ''start'', Some (service @ ''.service''), None])"
  by (auto simp: startProcess_def execProcess_def convertToNullTerminatingArgv_def systemctl_defs Let_def
      split: option.splits)

end
