(* ===== verification/Queues.thy ===== *)
theory Queues
  imports Common
begin

text \<open>
  The two queues of \<^verbatim>\<open>common/other\<close>: \<open>SafeQueue\<close> (strings received from a socket) and
  \<open>ThreadQueue\<close> (deferred method calls run by a worker thread). Each operation holds the queue's
  mutex from its first to its last access, so an operation is one atomic step. The locale
  \<open>fifo\<close> states what their clients rely on; both queues interpret it.
\<close>

section \<open>SafeQueue\<close>

record SafeQueue =
  m_data :: "string list"

definition SafeQueue_init :: SafeQueue where
  "SafeQueue_init = \<lparr>m_data = []\<rparr>"

definition SafeQueue_push :: "string \<Rightarrow> SafeQueue \<Rightarrow> SafeQueue" where
  "SafeQueue_push value q = q\<lparr>m_data := m_data q @ [value]\<rparr>"

text \<open>\<^verbatim>\<open>bool pop(std::string& payload)\<close>: the result, the new value of the reference, the queue.\<close>

definition SafeQueue_pop :: "string \<Rightarrow> SafeQueue \<Rightarrow> bool \<times> string \<times> SafeQueue" where
  "SafeQueue_pop payload q =
     (case m_data q of
        [] \<Rightarrow> (False, payload, q)
      | x # xs \<Rightarrow> (True, x, q\<lparr>m_data := xs\<rparr>))"

section \<open>ThreadQueue\<close>

text \<open>
  A queued \<^verbatim>\<open>std::function<void()>\<close> is \<open>None\<close> when it is empty; otherwise \<open>'f\<close> names the bound
  method and its arguments, and \<open>call\<close> is what calling it does. \<open>getExecutor\<close> blocks while the
  queue is empty (\<open>None\<close>); it removes the front element under the mutex (\<open>getExecutor_take\<close>) and
  calls it after the mutex is released.
\<close>

record 'f ThreadQueue =
  m_methodsQueue :: "'f option list"

definition ThreadQueue_init :: "'f ThreadQueue" where
  "ThreadQueue_init = \<lparr>m_methodsQueue = []\<rparr>"

definition addMethod :: "'f option \<Rightarrow> 'f ThreadQueue \<Rightarrow> 'f ThreadQueue" where
  "addMethod func q = q\<lparr>m_methodsQueue := m_methodsQueue q @ [func]\<rparr>"

definition getExecutor_take :: "'f ThreadQueue \<Rightarrow> ('f option \<times> 'f ThreadQueue) option" where
  "getExecutor_take q =
     (case m_methodsQueue q of
        [] \<Rightarrow> None
      | func # rest \<Rightarrow> Some (func, q\<lparr>m_methodsQueue := rest\<rparr>))"

definition getExecutor ::
    "('f \<Rightarrow> 's \<Rightarrow> 's) \<Rightarrow> 'f ThreadQueue \<Rightarrow> 's \<Rightarrow> ('f ThreadQueue \<times> 's) option" where
  "getExecutor call q s =
     (case getExecutor_take q of
        None \<Rightarrow> None
      | Some (func, q') \<Rightarrow> Some (q', (case func of None \<Rightarrow> s | Some f \<Rightarrow> call f s)))"

definition ThreadQueue_isEmpty :: "'f ThreadQueue \<Rightarrow> bool" where
  "ThreadQueue_isEmpty q = (m_methodsQueue q = [])"

section \<open>The contract of a queue\<close>

text \<open>
  What the clients of a queue use: an element put in last is handed out after everything that was
  put in before it, and nothing is lost or made up.
\<close>

locale fifo =
  fixes empty :: 'q
    and enq :: "'a \<Rightarrow> 'q \<Rightarrow> 'q"
    and deq :: "'q \<Rightarrow> ('a \<times> 'q) option"
    and elems :: "'q \<Rightarrow> 'a list"
  assumes elems_empty: "elems empty = []"
    and elems_enq: "elems (enq x q) = elems q @ [x]"
    and deq_None: "deq q = None \<longleftrightarrow> elems q = []"
    and deq_Some: "deq q = Some (x, q') \<Longrightarrow> elems q = x # elems q'"
begin

text \<open>A sequence of operations: put an element in, or take one out if there is one.\<close>

fun run :: "'a option list \<Rightarrow> 'q \<Rightarrow> 'a list \<times> 'q" where
  "run [] q = ([], q)"
| "run (Some x # ops) q = run ops (enq x q)"
| "run (None # ops) q =
     (case deq q of
        None \<Rightarrow> run ops q
      | Some (x, q') \<Rightarrow> (let (out, q'') = run ops q' in (x # out, q'')))"

definition put :: "'a option list \<Rightarrow> 'a list" where
  "put ops = List.map_filter id ops"

lemma put_simps [simp]:
  "put [] = []"
  "put (Some x # ops) = x # put ops"
  "put (None # ops) = put ops"
  by (simp_all add: put_def List.map_filter_def)

lemma run_order: "run ops q = (out, q') \<Longrightarrow> out @ elems q' = elems q @ put ops"
proof (induction ops q arbitrary: out q' rule: run.induct)
  case (1 q)
  then show ?case by simp
next
  case (2 x ops q)
  then show ?case by (simp add: elems_enq)
next
  case (3 ops q)
  show ?case
  proof (cases "deq q")
    case None
    with 3 show ?thesis by simp
  next
    case (Some p)
    obtain x q1 where p: "p = (x, q1)" by (cases p)
    obtain out1 q2 where r: "run ops q1 = (out1, q2)" by (cases "run ops q1")
    from 3(3) Some p r have out: "out = x # out1" "q' = q2" by simp_all
    from 3(2)[OF Some p[symmetric] r] have "out1 @ elems q2 = elems q1 @ put ops" .
    with out deq_Some[of q x q1] Some p show ?thesis by simp
  qed
qed

lemma run_from_empty: "run ops empty = (out, q') \<Longrightarrow> out @ elems q' = put ops"
  using run_order[of ops empty out q'] by (simp add: elems_empty)

text \<open>Taking an element out of a queue that holds something always succeeds.\<close>

lemma deq_enq_not_stuck: "\<exists>y q'. deq (enq x q) = Some (y, q')"
proof -
  have "deq (enq x q) \<noteq> None" using deq_None[of "enq x q"] by (simp add: elems_enq)
  then show ?thesis by (cases "deq (enq x q)") auto
qed

end

section \<open>Both queues satisfy it\<close>

definition SafeQueue_deq :: "SafeQueue \<Rightarrow> (string \<times> SafeQueue) option" where
  "SafeQueue_deq q =
     (let (ok, payload, q') = SafeQueue_pop [] q in if ok then Some (payload, q') else None)"

interpretation sq: fifo SafeQueue_init SafeQueue_push SafeQueue_deq m_data
  by unfold_locales
    (auto simp: SafeQueue_init_def SafeQueue_push_def SafeQueue_deq_def SafeQueue_pop_def
      split: list.splits)

interpretation tq: fifo ThreadQueue_init addMethod getExecutor_take m_methodsQueue
  by unfold_locales
    (auto simp: ThreadQueue_init_def addMethod_def getExecutor_take_def split: list.splits)

text \<open>The worker drains the queue: run until it is empty.\<close>

fun drain :: "('f \<Rightarrow> 's \<Rightarrow> 's) \<Rightarrow> nat \<Rightarrow> 'f ThreadQueue \<Rightarrow> 's \<Rightarrow> 's" where
  "drain call 0 q s = s"
| "drain call (Suc n) q s =
     (case getExecutor call q s of None \<Rightarrow> s | Some (q', s') \<Rightarrow> drain call n q' s')"

lemma getExecutor_front:
  "getExecutor call q s =
     (case m_methodsQueue q of
        [] \<Rightarrow> None
      | f # rest \<Rightarrow> Some (q\<lparr>m_methodsQueue := rest\<rparr>, case_option s (\<lambda>g. call g s) f))"
  by (simp add: getExecutor_def getExecutor_take_def split: list.split)

text \<open>Every non-empty queued method is called once, in the order in which they were added.\<close>

lemma drain_calls_in_order:
  assumes "length (m_methodsQueue q) \<le> n"
  shows "drain call n q s = fold (case_option id call) (m_methodsQueue q) s"
  using assms
proof (induction n arbitrary: q s)
  case 0
  then show ?case by simp
next
  case (Suc n)
  show ?case
  proof (cases "m_methodsQueue q")
    case Nil
    then show ?thesis by (simp add: getExecutor_front)
  next
    case (Cons f rest)
    with Suc.prems Suc.IH[of "q\<lparr>m_methodsQueue := rest\<rparr>"] show ?thesis
      by (simp add: getExecutor_front split: option.split)
  qed
qed

section \<open>Properties\<close>

text \<open>
  \<open>SafeQueue\<close> is first-in first-out under any interleaving of pushes and pops: starting from
  an empty queue, what the pops returned so far followed by what the queue still holds is exactly
  the sequence of pushed strings. (\<open>Some x\<close> pushes \<open>x\<close>, \<open>None\<close> pops.)
\<close>

theorem SafeQueue_fifo:
  assumes "sq.run ops SafeQueue_init = (out, q)"
  shows "out @ m_data q = sq.put ops"
  using sq.run_from_empty[OF assms] .

theorem SafeQueue_fifo_witness:
  "[''a''] @ m_data (SafeQueue_push ''b'' SafeQueue_init) = sq.put [None, Some ''a'', Some ''b'', None]"
  by (rule SafeQueue_fifo)
    (simp add: SafeQueue_push_def SafeQueue_deq_def SafeQueue_pop_def SafeQueue_init_def)

end
