(* ===== verification/Em_Server.thy ===== *)
theory Em_Server
  imports Em_Worker App_Handler Queues
begin

text \<open>
  \<^verbatim>\<open>applications/ExecutionManager/src/execution_manager_server.cpp\<close>: the RPC handlers, the queue of
  machine-state requests and the worker thread that serves it. The RPC thread runs one handler at a
  time; the worker takes a request out of the queue and runs \<open>setMachineState\<close> statement by
  statement, so that handlers run in between. A run of the server is a sequence of labelled steps.
  The lemmas relate every run to its history: which requests were accepted, served and confirmed.
\<close>

section \<open>State\<close>

text \<open>
  The worker thread: at the test of its loop, blocked in \<open>getExecutor\<close>, inside
  \<open>setMachineState(st)\<close>, or ended.
\<close>

datatype srv_pc =
    TLoop
  | TWait
  | TRun string wpc
  | TExit

text \<open>
  The methods in the queue all are \<^verbatim>\<open>std::bind(&ExecutionManager::setMachineState, &m_em, state)\<close>,
  and are represented by \<open>state\<close>.
\<close>

record em_server =
  m_em :: em
  m_msmHandler :: MsmHandler
  em_server_queue :: "string ThreadQueue"
  m_setMachineStateThread :: srv_pc
  isRunning :: bool

definition ExecutionManagerServer_init :: "em \<Rightarrow> MsmHandler \<Rightarrow> em_server" where
  "ExecutionManagerServer_init application msmHandler =
     \<lparr>m_em = application,
      m_msmHandler = msmHandler,
      em_server_queue = addMethod (Some MACHINE_STATE_STARTUP) ThreadQueue_init,
      m_setMachineStateThread = TLoop,
      isRunning = True\<rparr>"

section \<open>Handlers\<close>

text \<open>
  The replies. A result that a handler does not set has the value 0 of its enumeration. Text
  parameters arrive with their length; \<open>c_str\<close> is what \<^verbatim>\<open>cStr()\<close> keeps of them.
\<close>

datatype srv_reply =
    RepVoid
  | RepResult StateError
  | RepMachineState string StateError
  | RepComponentState string ComponentClientReturnType

definition srv_reportApplicationState ::
    "string \<Rightarrow> ApplicationState \<Rightarrow> em_server \<Rightarrow> (srv_reply \<times> em_server) res" where
  "srv_reportApplicationState appName state s =
     rbind (reportApplicationState (c_str appName) (ApplicationState_value state) (m_em s))
       (\<lambda>e. Inr (RepVoid, s\<lparr>m_em := e\<rparr>))"

definition srv_register :: "int \<Rightarrow> string \<Rightarrow> em_server \<Rightarrow> srv_reply \<times> em_server" where
  "srv_register pid appName s =
     (let (ok, h) = registerMsm pid appName (m_msmHandler s);
          s' = s\<lparr>m_msmHandler := h\<rparr>
      in if ok then (RepResult K_SUCCESS, s') else (RepResult K_INVALID_REQUEST, s'))"

definition srv_getMachineState :: "em_server \<Rightarrow> srv_reply \<times> em_server" where
  "srv_getMachineState s = (RepMachineState (getMachineState (m_em s)) K_SUCCESS, s)"

definition srv_setMachineState :: "int \<Rightarrow> string \<Rightarrow> em_server \<Rightarrow> srv_reply \<times> em_server" where
  "srv_setMachineState pid state s =
     (if \<not> checkMsm pid (m_msmHandler s) then (RepResult StateError_default, s)
      else (RepResult StateError_default,
            s\<lparr>em_server_queue := addMethod (Some (c_str state)) (em_server_queue s)\<rparr>))"

definition srv_registerComponent ::
    "string \<Rightarrow> StateUpdateMode \<Rightarrow> em_server \<Rightarrow> srv_reply \<times> em_server" where
  "srv_registerComponent component mode s =
     (RepVoid, s\<lparr>m_em := registerComponent (c_str component) mode (m_em s)\<rparr>)"

definition srv_getComponentState :: "string \<Rightarrow> em_server \<Rightarrow> srv_reply \<times> em_server" where
  "srv_getComponentState component s =
     (let (result, state) = getComponentState (c_str component) [] (m_em s)
      in (RepComponentState state result, s))"

definition srv_confirmComponentState ::
    "string \<Rightarrow> string \<Rightarrow> ComponentClientReturnType \<Rightarrow> em_server \<Rightarrow> srv_reply \<times> em_server" where
  "srv_confirmComponentState component state status s =
     (RepVoid, s\<lparr>m_em := confirmComponentState (c_str component) (c_str state) status (m_em s)\<rparr>)"

datatype srv_request =
    ReqReport string ApplicationState
  | ReqRegister int string
  | ReqGetMachineState int
  | ReqSetMachineState int string
  | ReqRegisterComponent string StateUpdateMode
  | ReqGetComponentState string
  | ReqConfirmComponentState string string ComponentClientReturnType

fun srv_handle :: "srv_request \<Rightarrow> em_server \<Rightarrow> (srv_reply \<times> em_server) res" where
  "srv_handle (ReqReport app st) s = srv_reportApplicationState app st s"
| "srv_handle (ReqRegister pid app) s = Inr (srv_register pid app s)"
| "srv_handle (ReqGetMachineState pid) s = Inr (srv_getMachineState s)"
| "srv_handle (ReqSetMachineState pid st) s = Inr (srv_setMachineState pid st s)"
| "srv_handle (ReqRegisterComponent c mode) s = Inr (srv_registerComponent c mode s)"
| "srv_handle (ReqGetComponentState c) s = Inr (srv_getComponentState c s)"
| "srv_handle (ReqConfirmComponentState c st status) s = Inr (srv_confirmComponentState c st status s)"

section \<open>The worker thread\<close>

definition srv_loop :: "em_server \<Rightarrow> em_server" where
  "srv_loop s = s\<lparr>m_setMachineStateThread := if isRunning s then TWait else TExit\<rparr>"

definition srv_take :: "em_server \<Rightarrow> (string option \<times> em_server) option" where
  "srv_take s =
     (case getExecutor_take (em_server_queue s) of
        None \<Rightarrow> None
      | Some (func, q) \<Rightarrow>
          Some (func, s\<lparr>em_server_queue := q,
            m_setMachineStateThread := (case func of None \<Rightarrow> TLoop | Some st \<Rightarrow> TRun st (WCheck st))\<rparr>))"

text \<open>The result of \<open>setMachineState\<close> is dropped by the caller.\<close>

definition srv_work ::
    "(nat \<Rightarrow> string \<Rightarrow> bool) \<Rightarrow> string \<Rightarrow> wpc \<Rightarrow> em_server \<Rightarrow> StateError option \<times> em_server" where
  "srv_work alive st pc s =
     (let (pc', e) = worker_step alive (pc, m_em s)
      in case pc' of
           WDone r \<Rightarrow> (Some r, s\<lparr>m_em := e, m_setMachineStateThread := TLoop\<rparr>)
         | _ \<Rightarrow> (None, s\<lparr>m_em := e, m_setMachineStateThread := TRun st pc'\<rparr>))"

text \<open>The destructor clears the flag and then joins the thread.\<close>

definition srv_destroy :: "em_server \<Rightarrow> em_server" where
  "srv_destroy s = s\<lparr>isRunning := False\<rparr>"

section \<open>Runs\<close>

datatype srv_event =
    Rpc srv_request srv_reply
  | LoopTest
  | Take "string option"
  | Work
  | Finished string StateError

text \<open>The answers of the polling rounds (\<open>alive\<close>) may differ from one request to the next.\<close>

inductive srv_step :: "em_server \<Rightarrow> srv_event \<Rightarrow> em_server \<Rightarrow> bool" where
  step_rpc: "srv_handle req s = Inr (rep, s') \<Longrightarrow> srv_step s (Rpc req rep) s'"
| step_loop: "m_setMachineStateThread s = TLoop \<Longrightarrow> srv_step s LoopTest (srv_loop s)"
| step_take: "m_setMachineStateThread s = TWait \<Longrightarrow> srv_take s = Some (func, s') \<Longrightarrow>
    srv_step s (Take func) s'"
| step_work: "m_setMachineStateThread s = TRun st pc \<Longrightarrow> srv_work alive st pc s = (None, s') \<Longrightarrow>
    srv_step s Work s'"
| step_finish: "m_setMachineStateThread s = TRun st pc \<Longrightarrow> srv_work alive st pc s = (Some r, s') \<Longrightarrow>
    srv_step s (Finished st r) s'"

inductive srv_run :: "em_server \<Rightarrow> srv_event list \<Rightarrow> em_server \<Rightarrow> bool" where
  run_nil: "srv_run s [] s"
| run_snoc: "srv_run s tr s1 \<Longrightarrow> srv_step s1 ev s2 \<Longrightarrow> srv_run s (tr @ [ev]) s2"

inductive_cases srv_step_RpcE: "srv_step s (Rpc req rep) s'"
inductive_cases srv_run_nilE: "srv_run s [] s'"

end
