(* ===== verification/Em_History.thy ===== *)
theory Em_History
  imports Em_Server
begin

text \<open>
  What the execution manager's server promises about its histories. An abstract reading of a run
  looks only at the labels: who registered as machine state manager (\<open>msmOf\<close>), which state
  requests were accepted (\<open>accepted\<close>), taken by the worker (\<open>taken\<close>) and finished (\<open>finished\<close>). The
  invariant \<open>history\<close> says that the server's state is determined by it.
\<close>

section \<open>Reading a history\<close>

fun msmAfter :: "int \<Rightarrow> srv_event \<Rightarrow> int" where
  "msmAfter p (Rpc (ReqRegister q app) rep) = (if p = - 1 \<and> app \<noteq> [] then q else p)"
| "msmAfter p _ = p"

definition msmOf :: "srv_event list \<Rightarrow> int" where
  "msmOf tr = foldl msmAfter (- 1) tr"

fun acceptedFrom :: "int \<Rightarrow> srv_event list \<Rightarrow> string list" where
  "acceptedFrom p [] = []"
| "acceptedFrom p (ev # tr) =
     (case ev of
        Rpc (ReqSetMachineState q st) rep \<Rightarrow> if q = p then [c_str st] else []
      | _ \<Rightarrow> []) @ acceptedFrom (msmAfter p ev) tr"

definition accepted :: "srv_event list \<Rightarrow> string list" where
  "accepted tr = acceptedFrom (- 1) tr"

definition taken :: "srv_event list \<Rightarrow> string list" where
  "taken tr = concat (map (\<lambda>ev. case ev of Take (Some st) \<Rightarrow> [st] | _ \<Rightarrow> []) tr)"

definition finished :: "srv_event list \<Rightarrow> (string \<times> StateError) list" where
  "finished tr = concat (map (\<lambda>ev. case ev of Finished st r \<Rightarrow> [(st, r)] | _ \<Rightarrow> []) tr)"

definition succeeded :: "srv_event list \<Rightarrow> string list" where
  "succeeded tr = map fst (filter (\<lambda>(st, r). r = K_SUCCESS) (finished tr))"

text \<open>The last element, or the empty string.\<close>

definition lastOf :: "string list \<Rightarrow> string" where
  "lastOf xs = (if xs = [] then [] else last xs)"

definition inService :: "em_server \<Rightarrow> string list" where
  "inService s = (case m_setMachineStateThread s of TRun st pc \<Rightarrow> [st] | _ \<Rightarrow> [])"

lemma msmOf_snoc [simp]: "msmOf (tr @ [ev]) = msmAfter (msmOf tr) ev"
  by (simp add: msmOf_def)

lemma acceptedFrom_append:
  "acceptedFrom p (tr @ tr') = acceptedFrom p tr @ acceptedFrom (foldl msmAfter p tr) tr'"
  by (induction tr arbitrary: p) simp_all

lemma accepted_snoc [simp]:
  "accepted (tr @ [ev]) = accepted tr @
     (case ev of
        Rpc (ReqSetMachineState q st) rep \<Rightarrow> if q = msmOf tr then [c_str st] else []
      | _ \<Rightarrow> [])"
  by (simp add: accepted_def acceptedFrom_append flip: msmOf_def)

lemma history_snoc [simp]:
  "taken (tr @ [ev]) = taken tr @ (case ev of Take (Some st) \<Rightarrow> [st] | _ \<Rightarrow> [])"
  "finished (tr @ [ev]) = finished tr @ (case ev of Finished st r \<Rightarrow> [(st, r)] | _ \<Rightarrow> [])"
  "succeeded (tr @ [ev]) =
     succeeded tr @ (case ev of Finished st r \<Rightarrow> if r = K_SUCCESS then [st] else [] | _ \<Rightarrow> [])"
  by (simp_all add: taken_def finished_def succeeded_def split: srv_event.split)

lemma history_nil [simp]:
  "taken [] = []" "finished [] = []" "succeeded [] = []" "accepted [] = []" "msmOf [] = - 1"
  by (simp_all add: taken_def finished_def succeeded_def accepted_def msmOf_def)

section \<open>Every handler is one RPC method of the execution manager, or none\<close>

text \<open>The RPC method that a request runs.\<close>

fun rpcOf :: "srv_request \<Rightarrow> em_rpc option" where
  "rpcOf (ReqReport app st) = Some (Report (c_str app) st)"
| "rpcOf (ReqRegisterComponent c mode) = Some (Register (c_str c) mode)"
| "rpcOf (ReqConfirmComponentState c st status) = Some (ConfirmComponent (c_str c) (c_str st) status)"
| "rpcOf _ = None"

lemma srv_handle_total: "\<exists>rep s'. srv_handle req s = Inr (rep, s')"
  by (cases req)
    (auto simp: srv_reportApplicationState_def reportApplicationState_defined)

lemma srv_handle_effect:
  assumes "srv_handle req s = Inr (rep, s')"
  shows "m_em s' = (case rpcOf req of None \<Rightarrow> m_em s | Some r \<Rightarrow> apply_rpc r (m_em s))"
    and "m_setMachineStateThread s' = m_setMachineStateThread s"
    and "isRunning s' = isRunning s"
    and "m_msmPId (m_msmHandler s') = msmAfter (m_msmPId (m_msmHandler s)) (Rpc req rep)"
    and "m_methodsQueue (em_server_queue s') = m_methodsQueue (em_server_queue s) @
           (case req of
              ReqSetMachineState q st \<Rightarrow>
                if q = m_msmPId (m_msmHandler s) then [Some (c_str st)] else []
            | _ \<Rightarrow> [])"
  using assms
  by (cases req; auto simp: srv_reportApplicationState_def reportApplicationState_defined
      srv_register_def srv_getMachineState_def srv_setMachineState_def srv_registerComponent_def
      srv_getComponentState_def srv_confirmComponentState_def registerMsm_def checkMsm_def
      addMethod_def Let_def split: prod.splits if_splits ApplicationState.split)+

section \<open>The invariant\<close>

text \<open>
  The history \<open>tr\<close> of a server that was constructed on the manager \<open>e0\<close> and is now \<open>s\<close>: the
  registered process, the queue as the rest of the accepted requests, the machine state and the
  confirmations as the outcome of the finished requests.
\<close>

definition expectedConfirms :: "em \<Rightarrow> srv_event list \<Rightarrow> em_call list" where
  "expectedConfirms e0 tr = confirmsSent e0 @ map (\<lambda>_. Confirm K_SUCCESS) (succeeded tr)"

definition settled :: "em \<Rightarrow> srv_event list \<Rightarrow> em \<Rightarrow> bool" where
  "settled e0 tr e \<longleftrightarrow>
     em_inv e \<and> m_machineManifestStates e = m_machineManifestStates e0 \<and>
     m_currentState e = lastOf (succeeded tr) \<and> confirmsSent e = expectedConfirms e0 tr"

definition history :: "em \<Rightarrow> srv_event list \<Rightarrow> em_server \<Rightarrow> bool" where
  "history e0 tr s \<longleftrightarrow>
     m_msmPId (m_msmHandler s) = msmOf tr \<and>
     map Some (MACHINE_STATE_STARTUP # accepted tr) =
       map Some (taken tr) @ m_methodsQueue (em_server_queue s) \<and>
     taken tr = map fst (finished tr) @ inService s \<and>
     (case m_setMachineStateThread s of
        TRun st pc \<Rightarrow> (\<forall>r. pc \<noteq> WDone r) \<and> (\<exists>s0. run_inv st s0 (pc, m_em s) \<and> settled e0 tr s0)
      | _ \<Rightarrow> settled e0 tr (m_em s))"

lemma settled_rpc: "settled e0 tr e \<Longrightarrow> settled e0 tr (apply_rpc r e)"
  by (simp add: settled_def rpc.keeps_inv rpc.keeps_manifest rpc.keeps_current)

lemma settled_event:
  "(\<And>st r. ev \<noteq> Finished st r) \<Longrightarrow> settled e0 (tr @ [ev]) e = settled e0 tr e"
  by (cases ev) (simp_all add: settled_def expectedConfirms_def)

lemma history_rpc:
  assumes "history e0 tr s" "srv_handle req s = Inr (rep, s')"
  shows "history e0 (tr @ [Rpc req rep]) s'"
proof -
  note eff = srv_handle_effect[OF assms(2)]
  have set: "settled e0 (tr @ [Rpc q p]) e = settled e0 tr e" for q p e
    by (rule settled_event) simp
  have em: "m_em s' = m_em s \<or> (\<exists>r. m_em s' = apply_rpc r (m_em s))"
    using eff(1) by (auto split: option.splits)
  have "case m_setMachineStateThread s' of
      TRun st pc \<Rightarrow> (\<forall>r. pc \<noteq> WDone r) \<and> (\<exists>s0. run_inv st s0 (pc, m_em s') \<and> settled e0 tr s0)
    | _ \<Rightarrow> settled e0 tr (m_em s')"
    using assms(1) em
    by (auto simp: history_def eff(2) settled_rpc split: srv_pc.splits) (blast intro: rpc_run_inv)
  moreover have "inService s' = inService s" by (simp add: inService_def eff(2))
  ultimately show ?thesis
    using assms(1) unfolding history_def set by (auto simp: eff split: srv_request.split)
qed

lemma history_loop:
  assumes "history e0 tr s" "m_setMachineStateThread s = TLoop"
  shows "history e0 (tr @ [LoopTest]) (srv_loop s)"
  using assms settled_event[of LoopTest e0 tr]
  by (simp add: history_def srv_loop_def inService_def)

lemma history_take:
  assumes "history e0 tr s" "m_setMachineStateThread s = TWait" "srv_take s = Some (func, s')"
  shows "history e0 (tr @ [Take func]) s'"
proof -
  from assms(3) obtain rest where q: "m_methodsQueue (em_server_queue s) = func # rest"
    and s': "s' = s\<lparr>em_server_queue := em_server_queue s\<lparr>m_methodsQueue := rest\<rparr>,
        m_setMachineStateThread := (case func of None \<Rightarrow> TLoop | Some st \<Rightarrow> TRun st (WCheck st))\<rparr>"
    by (auto simp: srv_take_def getExecutor_take_def split: list.splits)
  have queue: "map Some (MACHINE_STATE_STARTUP # accepted tr) =
      map Some (taken tr) @ func # rest"
    using assms(1) by (simp only: history_def q)
  then have "func \<in> set (map Some (MACHINE_STATE_STARTUP # accepted tr))" by simp
  then obtain st where func: "func = Some st" by auto
  have "settled e0 tr (m_em s)" using assms(1,2) by (simp add: history_def)
  moreover from this have "run_inv st (m_em s) (WCheck st, m_em s)"
    by (intro run_inv_start) (simp add: settled_def)
  moreover have "settled e0 (tr @ [Take func]) e = settled e0 tr e" for e
    by (rule settled_event) simp
  ultimately show ?thesis
    using assms(1,2) queue by (auto simp: history_def s' func inService_def)
qed

lemma srv_work_run:
  assumes "run_inv st s0 (pc, m_em s)" "srv_work alive st pc s = (res, s')"
  shows "\<exists>pc'. run_inv st s0 (pc', m_em s') \<and>
           (case res of
              None \<Rightarrow> m_setMachineStateThread s' = TRun st pc' \<and> (\<forall>r. pc' \<noteq> WDone r)
            | Some r \<Rightarrow> m_setMachineStateThread s' = TLoop \<and> pc' = WDone r) \<and>
           m_msmHandler s' = m_msmHandler s \<and> em_server_queue s' = em_server_queue s"
proof -
  obtain pc' e where step: "worker_step alive (pc, m_em s) = (pc', e)" by (cases "worker_step alive (pc, m_em s)")
  from worker_run_inv[OF assms(1), of alive] step have "run_inv st s0 (pc', e)" by simp
  with assms(2) step show ?thesis by (cases pc') (auto simp: srv_work_def)
qed

lemma run_inv_done:
  assumes "run_inv st s0 (WDone r, e)" "settled e0 tr s0"
  shows "settled e0 (tr @ [Finished st r]) e"
  using assms by (auto simp: settled_def expectedConfirms_def lastOf_def split: if_splits)

lemma history_work:
  assumes "history e0 tr s" "m_setMachineStateThread s = TRun st pc"
    and "srv_work alive st pc s = (res, s')"
  shows "history e0 (tr @ [case res of None \<Rightarrow> Work | Some r \<Rightarrow> Finished st r]) s'"
proof -
  from assms(1,2) obtain s0 where s0: "run_inv st s0 (pc, m_em s)" "settled e0 tr s0"
    by (auto simp: history_def)
  from srv_work_run[OF s0(1) assms(3)] obtain pc' where
    pc': "run_inv st s0 (pc', m_em s')"
    "case res of None \<Rightarrow> m_setMachineStateThread s' = TRun st pc' \<and> (\<forall>r. pc' \<noteq> WDone r)
     | Some r \<Rightarrow> m_setMachineStateThread s' = TLoop \<and> pc' = WDone r"
    "m_msmHandler s' = m_msmHandler s" "em_server_queue s' = em_server_queue s" by blast
  show ?thesis
  proof (cases res)
    case None
    moreover have "settled e0 (tr @ [Work]) e = settled e0 tr e" for e by (rule settled_event) simp
    ultimately show ?thesis
      using assms(1,2) pc' s0(2) by (auto simp: history_def inService_def)
  next
    case (Some r)
    then have "settled e0 (tr @ [Finished st r]) (m_em s')"
      using run_inv_done[of st s0 r "m_em s'"] pc' s0(2) by simp
    with Some show ?thesis
      using assms(1,2) pc' by (auto simp: history_def inService_def)
  qed
qed

lemma history_step:
  assumes "srv_step s ev s'" "history e0 tr s"
  shows "history e0 (tr @ [ev]) s'"
  using assms(1)
proof cases
  case (step_rpc req rep)
  with history_rpc[OF assms(2)] show ?thesis by simp
next
  case step_loop
  with history_loop[OF assms(2)] show ?thesis by simp
next
  case (step_take func)
  with history_take[OF assms(2)] show ?thesis by simp
next
  case (step_work st pc alive)
  with history_work[OF assms(2), of st pc alive None s'] show ?thesis by simp
next
  case (step_finish st pc alive r)
  with history_work[OF assms(2), of st pc alive "Some r" s'] show ?thesis by simp
qed

lemma history_init:
  assumes "em_inv e0" "m_currentState e0 = []"
  shows "history e0 [] (ExecutionManagerServer_init e0 MsmHandler_init)"
  using assms
  by (simp add: history_def ExecutionManagerServer_init_def MsmHandler_init_def addMethod_def
      ThreadQueue_init_def inService_def settled_def expectedConfirms_def lastOf_def)

lemma history_run:
  assumes "srv_run s0 tr s" "s0 = ExecutionManagerServer_init e0 MsmHandler_init"
    and "em_inv e0" "m_currentState e0 = []"
  shows "history e0 tr s"
  using assms
proof (induction rule: srv_run.induct)
  case (run_nil s)
  then show ?case by (simp add: history_init)
next
  case (run_snoc s tr s1 ev s2)
  then show ?case by (blast intro: history_step)
qed

section \<open>Executing a run\<close>

text \<open>The state after an event, if the event can happen; for concrete runs.\<close>

fun exec_event :: "(nat \<Rightarrow> string \<Rightarrow> bool) \<Rightarrow> srv_event \<Rightarrow> em_server \<Rightarrow> em_server option" where
  "exec_event alive (Rpc req rep) s =
     (case srv_handle req s of
        Inr (rep', s') \<Rightarrow> if rep' = rep then Some s' else None | Inl _ \<Rightarrow> None)"
| "exec_event alive LoopTest s =
     (if m_setMachineStateThread s = TLoop then Some (srv_loop s) else None)"
| "exec_event alive (Take func) s =
     (if m_setMachineStateThread s = TWait
      then (case srv_take s of
              None \<Rightarrow> None | Some (func', s') \<Rightarrow> if func' = func then Some s' else None)
      else None)"
| "exec_event alive Work s =
     (case m_setMachineStateThread s of
        TRun st pc \<Rightarrow> (case srv_work alive st pc s of (None, s') \<Rightarrow> Some s' | _ \<Rightarrow> None)
      | _ \<Rightarrow> None)"
| "exec_event alive (Finished st r) s =
     (case m_setMachineStateThread s of
        TRun st' pc \<Rightarrow>
          (case srv_work alive st' pc s of
             (Some r', s') \<Rightarrow> if st' = st \<and> r' = r then Some s' else None | _ \<Rightarrow> None)
      | _ \<Rightarrow> None)"

fun exec_run :: "(nat \<Rightarrow> string \<Rightarrow> bool) \<Rightarrow> srv_event list \<Rightarrow> em_server \<Rightarrow> em_server option" where
  "exec_run alive [] s = Some s"
| "exec_run alive (ev # tr) s =
     (case exec_event alive ev s of None \<Rightarrow> None | Some s' \<Rightarrow> exec_run alive tr s')"

lemma exec_event_step: "exec_event alive ev s = Some s' \<Longrightarrow> srv_step s ev s'"
  by (cases ev)
    (auto intro: srv_step.intros split: sum.splits prod.splits option.splits srv_pc.splits if_splits)

lemma exec_run_run:
  "srv_run s0 tr0 s \<Longrightarrow> exec_run alive tr s = Some s' \<Longrightarrow> srv_run s0 (tr0 @ tr) s'"
proof (induction tr arbitrary: tr0 s)
  case Nil
  then show ?case by simp
next
  case (Cons ev tr)
  from Cons.prems(2) obtain s1 where s1: "exec_event alive ev s = Some s1"
    "exec_run alive tr s1 = Some s'" by (auto split: option.splits)
  from Cons.IH[OF run_snoc[OF Cons.prems(1) exec_event_step[OF s1(1)]] s1(2)] show ?case by simp
qed

lemma exec_run_from_start: "exec_run alive tr s = Some s' \<Longrightarrow> srv_run s tr s'"
  using exec_run_run[OF run_nil, of alive tr s s'] by simp

definition sample_server :: em_server where
  "sample_server =
     ExecutionManagerServer_init (ExecutionManager_init [] [''Living'']) MsmHandler_init"

definition sample_trace :: "srv_event list" where
  "sample_trace =
     [LoopTest, Take (Some MACHINE_STATE_STARTUP), Rpc (ReqRegister 7 ''MSM'') (RepResult K_SUCCESS),
      Finished MACHINE_STATE_STARTUP K_INVALID_STATE,
      Rpc (ReqSetMachineState 7 ''Living'') (RepResult K_SUCCESS), LoopTest, Take (Some ''Living''),
      Work, Work, Work, Work, Work, Work, Work, Finished ''Living'' K_SUCCESS,
      Rpc (ReqSetMachineState 7 ''Suspend'') (RepResult K_SUCCESS)]"

definition sample_server_end :: em_server where
  "sample_server_end = the (exec_run (\<lambda>_ _. False) sample_trace sample_server)"

lemma sample_server_run: "srv_run sample_server sample_trace sample_server_end"
proof -
  have "exec_run (\<lambda>_ _. False) sample_trace sample_server = Some sample_server_end"
    unfolding sample_server_end_def sample_trace_def sample_server_def by code_simp
  then show ?thesis by (rule exec_run_from_start)
qed

lemma history_of_run:
  assumes "wf_allowed tab"
    and "srv_run (ExecutionManagerServer_init (ExecutionManager_init tab states) MsmHandler_init) tr s"
  shows "history (ExecutionManager_init tab states) tr s"
  using assms(2)
  by (rule history_run[OF _ refl init_inv[OF assms(1)]])
    (simp add: ExecutionManager_init_def filterStates_def)

section \<open>Properties\<close>

text \<open>
  C2. Requests are served in the order in which they were accepted, one at a time, and none is lost
  or made up: in every run of the server from its construction, the initial Starting-up request
  followed by the requests accepted from the registered machine state manager is the sequence of
  the requests that the worker has finished, the one it is working on, and those in the queue.
\<close>

theorem requests_served_in_order:
  assumes "wf_allowed tab"
    and "srv_run (ExecutionManagerServer_init (ExecutionManager_init tab states) MsmHandler_init) tr s"
  shows "map Some (MACHINE_STATE_STARTUP # accepted tr) =
           map Some (map fst (finished tr) @ inService s) @ m_methodsQueue (em_server_queue s)"
  using history_of_run[OF assms] unfolding history_def by metis

theorem requests_served_in_order_witness:
  "map Some [MACHINE_STATE_STARTUP, ''Living'', ''Suspend''] =
     map Some (map fst (finished sample_trace) @ inService sample_server_end) @
     m_methodsQueue (em_server_queue sample_server_end)"
proof -
  have "accepted sample_trace = [''Living'', ''Suspend'']" by code_simp
  with requests_served_in_order[OF wf_allowed_empty sample_server_run[unfolded sample_server_def]]
  show ?thesis by simp
qed

text \<open>
  C3. What the server answers to \<open>getMachineState\<close>, at any time in any run: the state of the last
  request that finished successfully (the empty string before the first one). As many successful
  confirmations as there were such requests have gone to the machine state manager, one more only
  between the confirmation and the change of the state; no other confirmation was ever sent.
\<close>

theorem machine_state_is_last_success:
  assumes "wf_allowed tab"
    and "srv_run (ExecutionManagerServer_init (ExecutionManager_init tab states) MsmHandler_init) tr s"
  shows "srv_getMachineState s = (RepMachineState (lastOf (succeeded tr)) K_SUCCESS, s) \<and>
         confirmsSent (m_em s) =
           replicate (length (succeeded tr) + (if \<exists>st. m_setMachineStateThread s = TRun st WCommit then 1 else 0))
             (Confirm K_SUCCESS)"
proof -
  let ?e0 = "ExecutionManager_init tab states"
  have none: "confirmsSent ?e0 = []"
    by (simp add: ExecutionManager_init_def filterStates_def confirmsSent_def)
  have exp: "expectedConfirms ?e0 tr = replicate (length (succeeded tr)) (Confirm K_SUCCESS)"
    by (simp add: expectedConfirms_def none map_replicate_const)
  show ?thesis
  proof (cases "\<exists>st pc. m_setMachineStateThread s = TRun st pc")
    case True
    then obtain st pc where pc: "m_setMachineStateThread s = TRun st pc" by blast
    with history_of_run[OF assms] obtain s0 where "\<forall>r. pc \<noteq> WDone r"
      "run_inv st s0 (pc, m_em s)" "settled ?e0 tr s0"
      by (auto simp: history_def)
    with pc exp show ?thesis
      by (cases pc)
        (auto simp: settled_def srv_getMachineState_def getMachineState_def replicate_append_same)
  next
    case False
    with history_of_run[OF assms] have "settled ?e0 tr (m_em s)"
      by (auto simp: history_def split: srv_pc.splits)
    with False exp show ?thesis
      by (auto simp: settled_def srv_getMachineState_def getMachineState_def)
  qed
qed

theorem machine_state_is_last_success_witness:
  "srv_getMachineState sample_server_end = (RepMachineState ''Living'' K_SUCCESS, sample_server_end) \<and>
   confirmsSent (m_em sample_server_end) = [Confirm K_SUCCESS]"
proof -
  have "succeeded sample_trace = [''Living'']" by code_simp
  moreover have "m_setMachineStateThread sample_server_end = TLoop" by code_simp
  ultimately show ?thesis
    using machine_state_is_last_success[OF wf_allowed_empty sample_server_run[unfolded sample_server_def]]
    by (simp add: lastOf_def)
qed

text \<open>
  C18. Under every interleaving of handlers and worker statements the execution manager stays well
  formed, and the machine state it reports is empty or declared by the machine manifest.
\<close>

theorem server_keeps_invariant:
  assumes "wf_allowed tab"
    and "srv_run (ExecutionManagerServer_init (ExecutionManager_init tab states) MsmHandler_init) tr s"
  shows "em_inv (m_em s) \<and> getMachineState (m_em s) \<in> insert [] (set states)"
proof -
  let ?e0 = "ExecutionManager_init tab states"
  have "em_inv (m_em s) \<and> m_machineManifestStates (m_em s) = m_machineManifestStates ?e0"
  proof (cases "\<exists>st pc. m_setMachineStateThread s = TRun st pc")
    case True
    then obtain st pc where pc: "m_setMachineStateThread s = TRun st pc" by blast
    with history_of_run[OF assms] obtain s0 where "run_inv st s0 (pc, m_em s)" "settled ?e0 tr s0"
      by (auto simp: history_def)
    then show ?thesis by (cases pc) (auto simp: settled_def)
  next
    case False
    with history_of_run[OF assms] show ?thesis
      by (auto simp: history_def settled_def split: srv_pc.splits)
  qed
  moreover have "m_machineManifestStates ?e0 = states"
    by (simp add: ExecutionManager_init_def filterStates_def)
  ultimately show ?thesis by (auto simp: em_inv_def getMachineState_def)
qed

theorem server_keeps_invariant_witness:
  "em_inv (m_em sample_server_end) \<and> getMachineState (m_em sample_server_end) \<in> {[], ''Living''}"
  using server_keeps_invariant[OF wf_allowed_empty sample_server_run[unfolded sample_server_def]]
  by simp

text \<open>
  C17. Only the first registered machine state manager is served: in a run in which a process \<open>p\<close>
  registered first, a state request from any other process changes nothing (and is answered with
  success all the same, because the handler leaves the result unset), and a registration by any
  other process is refused with the invalid-request error and changes nothing.
\<close>

theorem only_first_msm_is_served:
  assumes "wf_allowed tab"
    and "srv_run (ExecutionManagerServer_init (ExecutionManager_init tab states) MsmHandler_init) tr s"
    and "msmOf tr = p" "p \<noteq> - 1" "q \<noteq> p"
  shows "srv_setMachineState q st s = (RepResult K_SUCCESS, s) \<and>
         srv_register q app s = (RepResult K_INVALID_REQUEST, s)"
proof -
  have "m_msmPId (m_msmHandler s) = p"
    using history_of_run[OF assms(1,2)] assms(3) by (simp add: history_def)
  with assms(4,5) show ?thesis
    by (simp add: srv_setMachineState_def srv_register_def registerMsm_def checkMsm_def
        StateError_default_def)
qed

theorem only_first_msm_is_served_witness:
  "srv_setMachineState 8 ''Living'' sample_server_end = (RepResult K_SUCCESS, sample_server_end) \<and>
   srv_register 8 ''other'' sample_server_end = (RepResult K_INVALID_REQUEST, sample_server_end)"
proof -
  have "msmOf sample_trace = 7" by code_simp
  from only_first_msm_is_served[OF wf_allowed_empty sample_server_run[unfolded sample_server_def] this]
  show ?thesis by simp
qed

text \<open>
  The destructor of the server does not return when the worker is idle: with the worker blocked
  on the empty queue, clearing the flag enables no step of the worker, so that the join waits
  forever (no handler runs any more, since the destructor occupies the RPC thread).
\<close>

theorem destructor_blocks_on_idle_worker:
  assumes "m_setMachineStateThread s = TWait" "m_methodsQueue (em_server_queue s) = []"
    and "srv_step (srv_destroy s) ev s'"
  shows "\<exists>req rep. ev = Rpc req rep"
  using assms(3)
  by cases (use assms(1,2) in \<open>auto simp: srv_destroy_def srv_take_def getExecutor_take_def\<close>)

theorem destructor_blocks_on_idle_worker_witness:
  "\<not> (\<exists>ev s'. ev \<in> {LoopTest, Work} \<and>
     srv_step (srv_destroy (sample_server\<lparr>m_setMachineStateThread := TWait, em_server_queue := ThreadQueue_init\<rparr>)) ev s')"
  using destructor_blocks_on_idle_worker[of "sample_server\<lparr>m_setMachineStateThread := TWait, em_server_queue := ThreadQueue_init\<rparr>"]
  by (auto simp: ThreadQueue_init_def)

end
