(* ===== verification/Sockets.thy ===== *)
theory Sockets
  imports Queues
begin

text \<open>
  The socket layer: \<^verbatim>\<open>common/base_client\<close> (\<open>Client\<close>, \<open>ProxyClientFactory\<close>), \<^verbatim>\<open>common/base_server\<close>
  (\<open>Connection\<close>, \<open>ConnectionFactory\<close>, \<open>Server\<close>) and the socket server of the machine state manager
  (\<^verbatim>\<open>applications/MachineStateManager/src/socket_server.cpp\<close>). The wrappers of
  \<^verbatim>\<open>common/socket_handler\<close> and \<^verbatim>\<open>socket_interface.cpp\<close> only forward to the operating system, whose
  answers are parameters of the operations; the calls with an effect outside the process are
  recorded.
\<close>

section \<open>System calls and addresses\<close>

datatype sock_call =
    SockUnlink string
  | SockSocket
  | SockBind int string
  | SockListen int nat
  | SockConnect int string
  | SockSend int string
  | SockClose int

text \<open>
  \<^verbatim>\<open>path.copy(m_addr.sun_path, ...)\<close> into the 108 bytes of \<^verbatim>\<open>sun_path\<close>, which are zero before; the
  kernel sees the bytes up to the first zero.
\<close>

definition sun_path_size :: nat where
  "sun_path_size = 108"

definition copy_path :: "string \<Rightarrow> string res" where
  "copy_path path =
     (if length path \<le> sun_path_size then Inr (path @ replicate (sun_path_size - length path) (CHR 0x00))
      else Inl (Undefined ''sun_path overflow''))"

section \<open>Client\<close>

record Client =
  cl_path :: string
  cl_connected :: bool
  cl_addr :: string
  cl_fd :: int
  cl_recvBytes :: "int option"

text \<open>The constructor; \<open>sock\<close> is what \<^verbatim>\<open>socket\<close> returned. \<open>m_recvBytes\<close> is not initialised.\<close>

definition Client_init :: "int \<Rightarrow> string \<Rightarrow> Client res" where
  "Client_init sock path =
     rbind (copy_path path) (\<lambda>addr.
       Inr \<lparr>cl_path = path, cl_connected = False, cl_addr = addr, cl_fd = sock, cl_recvBytes = None\<rparr>)"

definition Client_connect :: "int \<Rightarrow> Client \<Rightarrow> Client \<times> sock_call list" where
  "Client_connect res c =
     (if 0 \<le> res then c\<lparr>cl_connected := True\<rparr> else c, [SockConnect (cl_fd c) (c_str (cl_addr c))])"

text \<open>
  The answer of \<^verbatim>\<open>recv\<close>, and the contents of the buffer on the stack before the call.
\<close>

record recv_answer =
  rv_ret :: int
  rv_bytes :: string
  rv_stack :: string

definition recv_ok :: "recv_answer \<Rightarrow> bool" where
  "recv_ok a \<longleftrightarrow>
     length (rv_stack a) = RECV_BUFFER_SIZE \<and>
     (if rv_ret a > 0 then length (rv_bytes a) = nat (rv_ret a) \<and> rv_ret a \<le> int RECV_BUFFER_SIZE - 1
      else rv_bytes a = [] \<and> - 1 \<le> rv_ret a)"

text \<open>
  Both branches on the error return the buffer: the string up to the first zero byte, wherever it
  is; without one the read leaves the buffer.
\<close>

definition Client_receive :: "recv_answer \<Rightarrow> Client \<Rightarrow> (string \<times> Client) res" where
  "Client_receive a c =
     (let buffer = rv_bytes a @ drop (length (rv_bytes a)) (rv_stack a);
          c' = c\<lparr>cl_recvBytes := Some (rv_ret a)\<rparr>
      in if CHR 0x00 \<in> set buffer then Inr (c_str buffer, c')
         else Inl (Undefined ''string past the buffer''))"

text \<open>\<open>bytes\<close> is what \<^verbatim>\<open>SerializeToArray\<close> writes, \<open>None\<close> when it fails.\<close>

definition Client_sendMessage :: "string option \<Rightarrow> Client \<Rightarrow> sock_call list" where
  "Client_sendMessage bytes c = (case bytes of None \<Rightarrow> [] | Some data \<Rightarrow> [SockSend (cl_fd c) data])"

definition Client_isConnected :: "Client \<Rightarrow> bool" where
  "Client_isConnected c = cl_connected c"

definition setClientFd :: "int \<Rightarrow> Client \<Rightarrow> Client" where
  "setClientFd fd c = c\<lparr>cl_fd := fd\<rparr>"

definition setConnected :: "bool \<Rightarrow> Client \<Rightarrow> Client" where
  "setConnected connected c = c\<lparr>cl_connected := connected\<rparr>"

definition getClientFd :: "Client \<Rightarrow> int" where
  "getClientFd c = cl_fd c"

definition Client_getRecvBytes :: "Client \<Rightarrow> int res" where
  "Client_getRecvBytes c =
     (case cl_recvBytes c of None \<Rightarrow> Inl (Undefined ''m_recvBytes'') | Some n \<Rightarrow> Inr n)"

definition Client_destroy :: "Client \<Rightarrow> sock_call list" where
  "Client_destroy c = [SockClose (cl_fd c)]"

definition makeProxyClient :: "int \<Rightarrow> int \<Rightarrow> Client res" where
  "makeProxyClient sock fd =
     rbind (Client_init sock SOCKET_CLIENT_PATH) (\<lambda>client. Inr (setConnected True (setClientFd fd client)))"

section \<open>Connection\<close>

text \<open>\<open>cn_id\<close> is the identity of the object that the shared pointers refer to.\<close>

record Connection =
  cn_id :: nat
  cn_client :: "Client option"
  cn_serverFd :: int

definition makeConnection :: "nat \<Rightarrow> int \<Rightarrow> Connection" where
  "makeConnection i fd = \<lparr>cn_id = i, cn_client = None, cn_serverFd = fd\<rparr>"

definition acceptConnection :: "int \<Rightarrow> int \<Rightarrow> int" where
  "acceptConnection acceptRes fcntlRes = (if fcntlRes = - 1 then - 1 else acceptRes)"

definition creatAcceptedClient :: "int \<Rightarrow> int \<Rightarrow> int \<Rightarrow> Connection \<Rightarrow> Connection res" where
  "creatAcceptedClient acceptRes fcntlRes sock conn =
     (let fd = acceptConnection acceptRes fcntlRes
      in if fd > 0 then rbind (makeProxyClient sock fd) (\<lambda>client. Inr (conn\<lparr>cn_client := Some client\<rparr>))
         else Inr conn)"

definition receiveData :: "recv_answer \<Rightarrow> Connection \<Rightarrow> (string \<times> Connection) res" where
  "receiveData a conn =
     (case cn_client conn of
        None \<Rightarrow> Inl (Undefined ''m_connectedCli->receive()'')
      | Some client \<Rightarrow>
          rbind (Client_receive a client) (\<lambda>(recv, client'). Inr (recv, conn\<lparr>cn_client := Some client'\<rparr>)))"

definition Connection_getRecvBytes :: "Connection \<Rightarrow> int res" where
  "Connection_getRecvBytes conn =
     (case cn_client conn of
        None \<Rightarrow> Inl (Undefined ''m_connectedCli->getRecvBytes()'')
      | Some client \<Rightarrow> Client_getRecvBytes client)"

section \<open>Server\<close>

record Server =
  sv_fd :: int
  sv_addr :: string
  sv_componentName :: string
  sv_isStarted :: bool
  sv_activeConnections :: "Connection list"
  sv_recvDataQueue :: SafeQueue

definition Server_path :: "string \<Rightarrow> string" where
  "Server_path component = COMPONENT_SOCKET_NAME @ ''_'' @ component"

definition Server_init :: "int \<Rightarrow> string \<Rightarrow> (Server \<times> sock_call list) res" where
  "Server_init sock component =
     (let path = Server_path component
      in rbind (copy_path path) (\<lambda>addr.
         Inr (\<lparr>sv_fd = sock, sv_addr = addr, sv_componentName = component, sv_isStarted = False,
               sv_activeConnections = [], sv_recvDataQueue = SafeQueue_init\<rparr>,
              [SockUnlink path, SockSocket, SockBind sock (c_str addr), SockListen sock 1])))"

definition Server_start :: "Server \<Rightarrow> Server" where
  "Server_start sv = sv\<lparr>sv_isStarted := True\<rparr>"

text \<open>\<open>stop\<close> clears the flag and joins the two threads; both test the flag once per iteration.\<close>

definition Server_stop :: "Server \<Rightarrow> Server" where
  "Server_stop sv = sv\<lparr>sv_isStarted := False\<rparr>"

definition Server_isStarted :: "Server \<Rightarrow> bool" where
  "Server_isStarted sv = sv_isStarted sv"

text \<open>One iteration of \<open>onRunning\<close>: the connection is kept whether or not a client was accepted.\<close>

definition onRunning :: "nat \<Rightarrow> int \<Rightarrow> int \<Rightarrow> int \<Rightarrow> Server \<Rightarrow> Server res" where
  "onRunning i acceptRes fcntlRes sock sv =
     rbind (creatAcceptedClient acceptRes fcntlRes sock (makeConnection i (sv_fd sv))) (\<lambda>connection.
       Inr (sv\<lparr>sv_activeConnections := sv_activeConnections sv @ [connection]\<rparr>))"

text \<open>The object is updated wherever the vector refers to it.\<close>

definition update_connection :: "Connection \<Rightarrow> Server \<Rightarrow> Server" where
  "update_connection conn sv =
     sv\<lparr>sv_activeConnections := map (\<lambda>c. if cn_id c = cn_id conn then conn else c) (sv_activeConnections sv)\<rparr>"

definition readFromSocket :: "recv_answer \<Rightarrow> Connection \<Rightarrow> Server \<Rightarrow> Server res" where
  "readFromSocket a conn sv =
     rbind (receiveData a conn) (\<lambda>(recv, conn').
     rbind (Connection_getRecvBytes conn') (\<lambda>n.
       let sv' = update_connection conn' sv
       in if n = 0 then Inr (sv'\<lparr>sv_activeConnections := filter (\<lambda>c. cn_id c \<noteq> cn_id conn) (sv_activeConnections sv')\<rparr>)
          else if n > 0 then Inr (sv'\<lparr>sv_recvDataQueue := SafeQueue_push recv (sv_recvDataQueue sv')\<rparr>)
          else Inr sv'))"

text \<open>
  One iteration of \<open>handleConnections\<close>, under the mutex. The range-based loop keeps iterators into
  the vector: when \<open>readFromSocket\<close> erases from it they are invalid.
\<close>

fun handleConnections_loop :: "(nat \<Rightarrow> recv_answer) \<Rightarrow> Connection list \<Rightarrow> Server \<Rightarrow> Server res" where
  "handleConnections_loop answers [] sv = Inr sv"
| "handleConnections_loop answers (conn # conns) sv =
     rbind (readFromSocket (answers (cn_id conn)) conn sv) (\<lambda>sv'.
       if length (sv_activeConnections sv') \<noteq> length (sv_activeConnections sv)
       then Inl (Undefined ''iterator invalidated by erase'')
       else handleConnections_loop answers conns sv')"

definition handleConnections :: "(nat \<Rightarrow> recv_answer) \<Rightarrow> Server \<Rightarrow> Server res" where
  "handleConnections answers sv = handleConnections_loop answers (sv_activeConnections sv) sv"

definition Server_getQueueElement :: "string \<Rightarrow> Server \<Rightarrow> bool \<times> string \<times> Server" where
  "Server_getQueueElement data sv =
     (let (ok, data', q) = SafeQueue_pop data (sv_recvDataQueue sv)
      in (ok, data', sv\<lparr>sv_recvDataQueue := q\<rparr>))"

definition Server_destroy :: "Server \<Rightarrow> Server \<times> sock_call list" where
  "Server_destroy sv = (Server_stop sv, [SockClose (sv_fd sv)])"

section \<open>The socket server of the machine state manager\<close>

record SocketServer =
  ss_isAlive :: bool
  ss_receivedData :: SafeQueue
  ss_socketfd :: int
  ss_serverAddress :: string

definition SocketServer_init :: "int \<Rightarrow> string \<Rightarrow> (SocketServer \<times> sock_call list) res" where
  "SocketServer_init sock path =
     rbind (copy_path path) (\<lambda>addr.
       Inr (\<lparr>ss_isAlive = True, ss_receivedData = SafeQueue_init, ss_socketfd = sock,
             ss_serverAddress = addr\<rparr>,
            [SockSocket, SockUnlink path, SockBind sock (c_str addr), SockListen sock 5]))"

definition ss_BUFFER_SIZE :: nat where
  "ss_BUFFER_SIZE = 100000"

text \<open>
  One iteration of the loop of \<open>dataListener\<close>: \<open>bytes\<close> is \<open>None\<close> when \<^verbatim>\<open>recv\<close> returns no data. The
  result says whether the loop goes on. The buffer is cleared before each call; a message that
  fills it leaves no terminating zero.
\<close>

definition dataListener_body :: "string option \<Rightarrow> SocketServer \<Rightarrow> (bool \<times> SocketServer) res" where
  "dataListener_body bytes ss =
     (case bytes of
        None \<Rightarrow> Inr (False, ss)
      | Some data \<Rightarrow>
          (let buff = take ss_BUFFER_SIZE data @ replicate (ss_BUFFER_SIZE - length data) (CHR 0x00)
           in if CHR 0x00 \<in> set buff
              then Inr (ss_isAlive ss,
                        ss\<lparr>ss_receivedData := SafeQueue_push (c_str buff) (ss_receivedData ss)\<rparr>)
              else Inl (Undefined ''string past the buffer'')))"

fun dataListener :: "string option list \<Rightarrow> SocketServer \<Rightarrow> SocketServer res" where
  "dataListener [] ss = Inr ss"
| "dataListener (bytes # rest) ss =
     rbind (dataListener_body bytes ss) (\<lambda>(goOn, ss'). if goOn then dataListener rest ss' else Inr ss')"

text \<open>One attempt of \<open>getData\<close>; it repeats until the queue holds something.\<close>

definition ss_getData :: "SocketServer \<Rightarrow> (string \<times> SocketServer) option" where
  "ss_getData ss =
     (let (ok, str, q) = SafeQueue_pop [] (ss_receivedData ss)
      in if ok then Some (str, ss\<lparr>ss_receivedData := q\<rparr>) else None)"

definition ss_closeServer :: "SocketServer \<Rightarrow> SocketServer" where
  "ss_closeServer ss = ss\<lparr>ss_isAlive := False\<rparr>"

definition SocketServer_destroy :: "SocketServer \<Rightarrow> sock_call list" where
  "SocketServer_destroy ss = [SockClose (ss_socketfd ss), SockUnlink (c_str (ss_serverAddress ss))]"

section \<open>Lemmas\<close>

text \<open>The buffer after \<^verbatim>\<open>recv\<close>, and the string the program reads out of it.\<close>

definition recv_buffer :: "recv_answer \<Rightarrow> string" where
  "recv_buffer a = rv_bytes a @ drop (length (rv_bytes a)) (rv_stack a)"

definition terminated :: "recv_answer \<Rightarrow> bool" where
  "terminated a \<longleftrightarrow> CHR 0x00 \<in> set (recv_buffer a)"

lemma c_str_append: "CHR 0x00 \<notin> set xs \<Longrightarrow> c_str (xs @ ys) = xs @ c_str ys"
  by (induction xs) (auto simp: c_str_def)

lemma c_str_zeros [simp]: "c_str (replicate n (CHR 0x00)) = []"
  by (cases n) (simp_all add: c_str_def)

lemma c_str_padded [simp]: "c_str (xs @ replicate n (CHR 0x00)) = c_str xs"
proof (induction xs)
  case Nil
  then show ?case by (simp add: c_str_def)
qed (simp add: c_str_def)

lemma c_str_id [simp]: "CHR 0x00 \<notin> set xs \<Longrightarrow> c_str xs = xs"
  by (induction xs) (auto simp: c_str_def)

lemma copy_path_address: "copy_path path = Inr addr \<Longrightarrow> c_str addr = c_str path"
  by (auto simp: copy_path_def split: if_splits)

lemma c_str_Nil_iff: "c_str xs = [] \<longleftrightarrow> xs = [] \<or> hd xs = CHR 0x00"
  by (cases xs) (simp_all add: c_str_def)

lemma readFromSocket_eq:
  "readFromSocket a conn sv =
     (case cn_client conn of
        None \<Rightarrow> Inl (Undefined ''m_connectedCli->receive()'')
      | Some client \<Rightarrow>
          if \<not> terminated a then Inl (Undefined ''string past the buffer'')
          else let sv' = update_connection (conn\<lparr>cn_client := Some (client\<lparr>cl_recvBytes := Some (rv_ret a)\<rparr>)\<rparr>) sv
               in if rv_ret a = 0
                  then Inr (sv'\<lparr>sv_activeConnections := filter (\<lambda>c. cn_id c \<noteq> cn_id conn) (sv_activeConnections sv')\<rparr>)
                  else if rv_ret a > 0
                  then Inr (sv'\<lparr>sv_recvDataQueue := SafeQueue_push (c_str (recv_buffer a)) (sv_recvDataQueue sv')\<rparr>)
                  else Inr sv')"
  by (simp add: readFromSocket_def receiveData_def Client_receive_def Connection_getRecvBytes_def
      Client_getRecvBytes_def recv_buffer_def terminated_def Let_def split: option.split)

text \<open>What a pass over the connections needs: a client, a terminated buffer, and an open peer.\<close>

definition readable :: "(nat \<Rightarrow> recv_answer) \<Rightarrow> Connection \<Rightarrow> bool" where
  "readable answers conn \<longleftrightarrow>
     cn_client conn \<noteq> None \<and> terminated (answers (cn_id conn)) \<and> rv_ret (answers (cn_id conn)) \<noteq> 0"

definition messages :: "(nat \<Rightarrow> recv_answer) \<Rightarrow> Connection list \<Rightarrow> string list" where
  "messages answers conns =
     map (\<lambda>conn. c_str (recv_buffer (answers (cn_id conn))))
       (filter (\<lambda>conn. rv_ret (answers (cn_id conn)) > 0) conns)"

lemma update_connection_ids [simp]:
  "map cn_id (sv_activeConnections (update_connection conn sv)) = map cn_id (sv_activeConnections sv)"
  by (simp add: update_connection_def)

lemma update_connection_queue [simp]:
  "sv_recvDataQueue (update_connection conn sv) = sv_recvDataQueue sv"
  by (simp add: update_connection_def)

lemma update_connection_length [simp]:
  "length (sv_activeConnections (update_connection conn sv)) = length (sv_activeConnections sv)"
  by (simp add: update_connection_def)

lemma filter_shorter: "i \<in> set (map cn_id xs) \<Longrightarrow> length (filter (\<lambda>c. cn_id c \<noteq> i) xs) \<noteq> length xs"
  using length_filter_less[of _ xs "\<lambda>c. cn_id c \<noteq> i"] by fastforce

lemma readFromSocket_readable:
  assumes "readable answers conn"
  shows "\<exists>sv'. readFromSocket (answers (cn_id conn)) conn sv = Inr sv' \<and>
           map cn_id (sv_activeConnections sv') = map cn_id (sv_activeConnections sv) \<and>
           length (sv_activeConnections sv') = length (sv_activeConnections sv) \<and>
           m_data (sv_recvDataQueue sv') = m_data (sv_recvDataQueue sv) @ messages answers [conn]"
  using assms
  by (auto simp: readFromSocket_eq readable_def messages_def SafeQueue_push_def Let_def)

lemma readFromSocket_unreadable:
  assumes "\<not> readable answers conn" "cn_id conn \<in> set (map cn_id (sv_activeConnections sv))"
    and "readFromSocket (answers (cn_id conn)) conn sv = Inr sv'"
  shows "length (sv_activeConnections sv') \<noteq> length (sv_activeConnections sv)"
proof -
  let ?a = "answers (cn_id conn)"
  from assms(3) obtain client where client: "cn_client conn = Some client" "terminated ?a"
    by (auto simp: readFromSocket_eq split: option.splits if_splits)
  with assms(1) have zero: "rv_ret ?a = 0" by (simp add: readable_def)
  define sv1 where "sv1 = update_connection
      (conn\<lparr>cn_client := Some (client\<lparr>cl_recvBytes := Some (rv_ret ?a)\<rparr>)\<rparr>) sv"
  have "sv' = sv1\<lparr>sv_activeConnections := filter (\<lambda>c. cn_id c \<noteq> cn_id conn) (sv_activeConnections sv1)\<rparr>"
    using assms(3) client zero by (simp add: readFromSocket_eq sv1_def Let_def)
  moreover have "cn_id conn \<in> set (map cn_id (sv_activeConnections sv1))"
    using assms(2) unfolding sv1_def update_connection_ids .
  moreover have "length (sv_activeConnections sv1) = length (sv_activeConnections sv)"
    by (simp add: sv1_def)
  ultimately show ?thesis using filter_shorter by fastforce
qed

lemma handleConnections_loop_spec:
  assumes "set (map cn_id conns) \<subseteq> set (map cn_id (sv_activeConnections sv))"
  shows "if list_all (readable answers) conns
         then \<exists>sv'. handleConnections_loop answers conns sv = Inr sv' \<and>
                map cn_id (sv_activeConnections sv') = map cn_id (sv_activeConnections sv) \<and>
                m_data (sv_recvDataQueue sv') = m_data (sv_recvDataQueue sv) @ messages answers conns
         else \<exists>e. handleConnections_loop answers conns sv = Inl e"
  using assms
proof (induction conns arbitrary: sv)
  case Nil
  then show ?case by (simp add: messages_def)
next
  case (Cons conn conns)
  show ?case
  proof (cases "readable answers conn")
    case True
    from readFromSocket_readable[OF True, of sv] obtain sv1 where
      sv1: "readFromSocket (answers (cn_id conn)) conn sv = Inr sv1"
        "map cn_id (sv_activeConnections sv1) = map cn_id (sv_activeConnections sv)"
        "length (sv_activeConnections sv1) = length (sv_activeConnections sv)"
        "m_data (sv_recvDataQueue sv1) = m_data (sv_recvDataQueue sv) @ messages answers [conn]"
      by blast
    have "set (map cn_id conns) \<subseteq> set (map cn_id (sv_activeConnections sv1))"
      using Cons.prems unfolding sv1(2) by simp
    from Cons.IH[OF this] True sv1 show ?thesis
      by (auto simp: messages_def split: if_splits)
  next
    case False
    then show ?thesis
      using readFromSocket_unreadable[OF False, of sv] Cons.prems
      by (cases "readFromSocket (answers (cn_id conn)) conn sv") auto
  qed
qed

lemma dataListener_messages:
  assumes "ss_isAlive ss" "\<And>msg. msg \<in> set msgs \<Longrightarrow> length msg < ss_BUFFER_SIZE"
  shows "\<exists>ss'. dataListener (map Some msgs @ None # rest) ss = Inr ss' \<and>
           m_data (ss_receivedData ss') = m_data (ss_receivedData ss) @ map c_str msgs"
  using assms
proof (induction msgs arbitrary: ss)
  case Nil
  then show ?case by (simp add: dataListener_body_def)
next
  case (Cons msg msgs)
  let ?buff = "take ss_BUFFER_SIZE msg @ replicate (ss_BUFFER_SIZE - length msg) (CHR 0x00)"
  have len: "length msg < ss_BUFFER_SIZE" using Cons.prems(2) by simp
  then have "CHR 0x00 \<in> set ?buff" by simp
  moreover have "c_str ?buff = c_str msg"
    using len by simp
  ultimately have "dataListener_body (Some msg) ss =
      Inr (True, ss\<lparr>ss_receivedData := SafeQueue_push (c_str msg) (ss_receivedData ss)\<rparr>)"
    using Cons.prems(1) by (simp add: dataListener_body_def Let_def)
  with Cons.IH[of "ss\<lparr>ss_receivedData := SafeQueue_push (c_str msg) (ss_receivedData ss)\<rparr>"] Cons.prems
  show ?case by (simp add: SafeQueue_push_def)
qed

section \<open>Properties\<close>

definition sample_client :: Client where
  "sample_client =
     \<lparr>cl_path = [], cl_connected = True, cl_addr = [], cl_fd = 5, cl_recvBytes = None\<rparr>"

text \<open>A received answer with the message, a zero byte behind it and an arbitrary rest.\<close>

definition sample_answer :: "string \<Rightarrow> char \<Rightarrow> recv_answer" where
  "sample_answer msg c =
     \<lparr>rv_ret = int (length msg), rv_bytes = msg,
      rv_stack = replicate (length msg) (CHR ''x'') @ c # replicate (511 - length msg) (CHR 0x00)\<rparr>"

text \<open>
  C37. What \<open>Client::receive\<close> returns for a message without zero bytes: the message followed by
  whatever the uninitialised buffer holds up to its next zero byte. The result is the message
  exactly when the byte of the stack behind the message happens to be zero; when the rest of the
  buffer has no zero byte at all the operation is undefined.
\<close>

theorem receive_returns_message_iff:
  assumes "recv_ok a" "rv_ret a > 0" "CHR 0x00 \<notin> set (rv_bytes a)"
  shows "(Client_receive a c = Inr (rv_bytes a, c\<lparr>cl_recvBytes := Some (rv_ret a)\<rparr>) \<longleftrightarrow>
            rv_stack a ! nat (rv_ret a) = CHR 0x00) \<and>
         ((\<exists>e. Client_receive a c = Inl e) \<longleftrightarrow> CHR 0x00 \<notin> set (drop (nat (rv_ret a)) (rv_stack a)))"
proof -
  let ?rest = "drop (nat (rv_ret a)) (rv_stack a)"
  have len: "length (rv_bytes a) = nat (rv_ret a)" "nat (rv_ret a) < length (rv_stack a)"
    using assms(1,2) by (auto simp: recv_ok_def RECV_BUFFER_SIZE_def)
  then have rest: "?rest = rv_stack a ! nat (rv_ret a) # drop (Suc (nat (rv_ret a))) (rv_stack a)"
    by (simp add: Cons_nth_drop_Suc)
  have eq: "Client_receive a c =
      (if CHR 0x00 \<in> set ?rest then Inr (rv_bytes a @ c_str ?rest, c\<lparr>cl_recvBytes := Some (rv_ret a)\<rparr>)
       else Inl (Undefined ''string past the buffer''))"
    using assms(3) by (simp add: Client_receive_def len c_str_append Let_def)
  have "c_str ?rest = [] \<longleftrightarrow> rv_stack a ! nat (rv_ret a) = CHR 0x00"
    by (subst rest) (simp add: c_str_Nil_iff)
  moreover have "rv_stack a ! nat (rv_ret a) = CHR 0x00 \<Longrightarrow> CHR 0x00 \<in> set ?rest"
    by (subst rest) simp
  ultimately show ?thesis by (auto simp: eq)
qed

theorem receive_returns_message_iff_witness:
  "(\<exists>c'. Client_receive (sample_answer ''kOn'' (CHR 0x00)) sample_client = Inr (''kOn'', c')) \<and>
   Client_receive (sample_answer ''kOn'' (CHR ''x'')) sample_client \<noteq>
     Inr (''kOn'', sample_client\<lparr>cl_recvBytes := Some 3\<rparr>)"
proof -
  have ok: "recv_ok (sample_answer ''kOn'' c)" for c
    by (simp add: recv_ok_def sample_answer_def RECV_BUFFER_SIZE_def)
  show ?thesis
    using receive_returns_message_iff[OF ok, of "CHR 0x00" sample_client]
      receive_returns_message_iff[OF ok, of "CHR ''x''" sample_client]
    by (auto simp: sample_answer_def)
qed

text \<open>
  C36. One pass over the connections of the component server: it is defined if and only if every
  connection has a client, terminates its string within the buffer and has not been closed by its
  peer; then the messages received are queued in the order of the connections, and the connections
  stay. In particular a peer that closes (\<^verbatim>\<open>recv\<close> returns 0) makes the loop use invalid iterators,
  and a failed accept leads to a null dereference.
\<close>

theorem handleConnections_defined_iff:
  "((\<exists>sv'. handleConnections answers sv = Inr sv') \<longleftrightarrow> list_all (readable answers) (sv_activeConnections sv)) \<and>
   (\<forall>sv'. handleConnections answers sv = Inr sv' \<longrightarrow>
      map cn_id (sv_activeConnections sv') = map cn_id (sv_activeConnections sv) \<and>
      m_data (sv_recvDataQueue sv') =
        m_data (sv_recvDataQueue sv) @ messages answers (sv_activeConnections sv))"
  using handleConnections_loop_spec[of "sv_activeConnections sv" sv answers]
  by (auto simp: handleConnections_def split: if_splits)

theorem handleConnections_defined_iff_witness:
  "\<not> (\<exists>sv'. handleConnections (\<lambda>_. \<lparr>rv_ret = 0, rv_bytes = [], rv_stack = replicate 512 (CHR 0x00)\<rparr>)
        \<lparr>sv_fd = 3, sv_addr = [], sv_componentName = ''c'', sv_isStarted = True,
         sv_activeConnections = [\<lparr>cn_id = 0, cn_client = Some sample_client, cn_serverFd = 3\<rparr>],
         sv_recvDataQueue = SafeQueue_init\<rparr> = Inr sv')"
  using handleConnections_defined_iff[of "\<lambda>_. \<lparr>rv_ret = 0, rv_bytes = [], rv_stack = replicate 512 (CHR 0x00)\<rparr>"
      "\<lparr>sv_fd = 3, sv_addr = [], sv_componentName = ''c'', sv_isStarted = True,
         sv_activeConnections = [\<lparr>cn_id = 0, cn_client = Some sample_client, cn_serverFd = 3\<rparr>],
         sv_recvDataQueue = SafeQueue_init\<rparr>"]
  by (simp add: readable_def)

text \<open>
  C40. The component server's constructor writes within \<^verbatim>\<open>sun_path\<close> if and only if the component name
  has at most 82 characters; then (for a name without zero bytes) it unlinks, binds and listens on
  the path "/tmp/component_management_" followed by the name.
\<close>

theorem server_path_bound:
  "((\<exists>r. Server_init sock component = Inr r) \<longleftrightarrow> length component \<le> 82) \<and>
   (length component \<le> 82 \<longrightarrow> CHR 0x00 \<notin> set component \<longrightarrow>
      (\<exists>sv. Server_init sock component =
         Inr (sv, [SockUnlink (''/tmp/component_management_'' @ component), SockSocket,
                   SockBind sock (''/tmp/component_management_'' @ component), SockListen sock 1])))"
proof -
  let ?path = "''/tmp/component_management_'' @ component"
  have path: "Server_path component = ?path"
    by (simp add: Server_path_def COMPONENT_SOCKET_NAME_def)
  have len: "length ?path = 26 + length component" by simp
  have "c_str (?path @ replicate n (CHR 0x00)) = ?path" if "CHR 0x00 \<notin> set component" for n
    unfolding c_str_padded using that by (intro c_str_id) simp
  then show ?thesis
    unfolding Server_init_def copy_path_def sun_path_size_def path Let_def len by auto
qed

theorem server_path_bound_witness:
  "(\<exists>sv. Server_init 3 ''app'' =
      Inr (sv, [SockUnlink ''/tmp/component_management_app'', SockSocket,
                SockBind 3 ''/tmp/component_management_app'', SockListen 3 1])) \<and>
   \<not> (\<exists>r. Server_init 3 (replicate 83 (CHR ''a'')) = Inr r)"
  using server_path_bound[of 3 "''app''"] server_path_bound[of 3 "replicate 83 (CHR ''a'')"] by simp



end
