(* ===== verification/Clients.thy ===== *)
theory Clients
  imports Em_Server Sockets
begin

text \<open>
  The clients of the execution manager and of the components:
  \<^verbatim>\<open>common/application_state_client\<close>, \<^verbatim>\<open>common/component\<close>, \<^verbatim>\<open>common/machine_state_client\<close> and
  \<^verbatim>\<open>applications/ExecutionManager/src/execution_manager_client.cpp\<close>, with their wrapper classes,
  which forward every call. An RPC call is the request it sends (a \<open>srv_request\<close> of the server's
  model) and what it makes of the outcome. Protobuf is a parameter: \<open>encode\<close> serialises a
  \<^verbatim>\<open>pSetCompState\<close> packed into an \<^verbatim>\<open>Any\<close> (\<open>None\<close>: it fails), \<open>decode_msg\<close> parses it back (\<open>None\<close>: the message
  is something else).
\<close>

section \<open>Application state client\<close>

definition ReportApplicationState ::
    "(string \<Rightarrow> string option) \<Rightarrow> int \<Rightarrow> ApplicationState \<Rightarrow> srv_request res" where
  "ReportApplicationState readProc pid state =
     rbind (parseServiceName (getAppBinaryPath readProc pid)) (\<lambda>appName. Inr (ReqReport appName state))"

section \<open>Component client\<close>

record ComponentClient =
  cc_componentName :: string
  cc_updateMode :: StateUpdateMode

definition ComponentClient_init :: "string \<Rightarrow> StateUpdateMode \<Rightarrow> ComponentClient \<times> srv_request" where
  "ComponentClient_init componentName mode =
     (\<lparr>cc_componentName = componentName, cc_updateMode = mode\<rparr>,
      ReqRegisterComponent componentName mode)"

definition cc_GetComponentState :: "ComponentClient \<Rightarrow> srv_request" where
  "cc_GetComponentState c = ReqGetComponentState (cc_componentName c)"

text \<open>What \<open>GetComponentState\<close> makes of the reply: the state and the result.\<close>

fun cc_GetComponentState_reply :: "srv_reply \<Rightarrow> (string \<times> ComponentClientReturnType) option" where
  "cc_GetComponentState_reply (RepComponentState state result) = Some (state, result)"
| "cc_GetComponentState_reply _ = None"

definition cc_ConfirmComponentState ::
    "string \<Rightarrow> ComponentClientReturnType \<Rightarrow> ComponentClient \<Rightarrow> srv_request" where
  "cc_ConfirmComponentState state status c = ReqConfirmComponentState (cc_componentName c) state status"

section \<open>Component server\<close>

text \<open>There is no return statement behind the test.\<close>

definition setStateUpdateHandler :: "(string \<Rightarrow> string option) \<Rightarrow> string \<Rightarrow> string res" where
  "setStateUpdateHandler decode_msg recv =
     (case decode_msg recv of
        Some state \<Rightarrow> Inr state
      | None \<Rightarrow> Inl (Undefined ''no return in setStateUpdateHandler''))"

text \<open>The wrapper drops the result of the server's function and returns nothing.\<close>

definition ComponentServerWrapper_getQueueElement :: "string \<Rightarrow> Server \<Rightarrow> (bool \<times> string \<times> Server) res" where
  "ComponentServerWrapper_getQueueElement data sv =
     (let (ok, data', sv') = Server_getQueueElement data sv
      in Inl (Undefined ''no return in getQueueElement''))"

section \<open>Execution manager client\<close>

record ExecutionManagerClient =
  emc_msmAddress :: string
  emc_componentAddress :: string

text \<open>The client that \<open>em_main.cpp\<close> constructs.\<close>

definition em_main_client :: ExecutionManagerClient where
  "em_main_client =
     \<lparr>emc_msmAddress = IPC_PROTOCOL @ MSM_SOCKET_NAME,
      emc_componentAddress = IPC_PROTOCOL @ COMPONENT_SOCKET_NAME\<rparr>"

text \<open>\<open>confirm\<close>: where the \<^verbatim>\<open>confirmStateTransition\<close> request goes, and with which result.\<close>

definition emc_confirm :: "StateError \<Rightarrow> ExecutionManagerClient \<Rightarrow> string \<times> StateError" where
  "emc_confirm status c = (emc_msmAddress c, status)"

definition emc_SetComponentState ::
    "(string \<Rightarrow> string option) \<Rightarrow> int \<Rightarrow> int \<Rightarrow> string \<Rightarrow> string \<Rightarrow> ExecutionManagerClient
       \<Rightarrow> (ComponentClientReturnType \<times> sock_call list) res" where
  "emc_SetComponentState encode sock connectRes state componentName c =
     rbind (Client_init sock (emc_componentAddress c @ componentName)) (\<lambda>client.
       let (client', calls) = Client_connect connectRes client
       in Inr (CC_SUCCESS, SockSocket # calls @ Client_sendMessage (encode state) client' @ Client_destroy client'))"

section \<open>Machine state client\<close>

text \<open>
  \<^verbatim>\<open>std::promise<StateError>\<close>: whether its future was taken, and its value. A default-constructed
  promise has neither.
\<close>

record promise =
  pr_retrieved :: bool
  pr_value :: "StateError option"

definition new_promise :: promise where
  "new_promise = \<lparr>pr_retrieved = False, pr_value = None\<rparr>"

record MachineStateClient =
  mc_pid :: int
  mc_promise :: promise
  mc_listening :: bool

definition MachineStateClient_init :: "int \<Rightarrow> MachineStateClient" where
  "MachineStateClient_init pid = \<lparr>mc_pid = pid, mc_promise = new_promise, mc_listening = False\<rparr>"

datatype kj_exception = KjFailed | KjOverloaded | KjDisconnected | KjUnimplemented

fun exceptionLambda :: "kj_exception \<Rightarrow> StateError" where
  "exceptionLambda KjOverloaded = K_TIMEOUT"
| "exceptionLambda KjDisconnected = K_TIMEOUT"
| "exceptionLambda _ = K_INVALID_REQUEST"

text \<open>
  The outcome of a request with its timeout: the reply or an exception; an expired timer is the
  exception \<open>KjOverloaded\<close>.
\<close>

type_synonym 'a outcome = "kj_exception + 'a"

definition mc_Register ::
    "string \<Rightarrow> StateError outcome \<Rightarrow> MachineStateClient \<Rightarrow> StateError \<times> MachineStateClient \<times> srv_request" where
  "mc_Register appName outcome c =
     (case outcome of Inl e \<Rightarrow> exceptionLambda e | Inr res \<Rightarrow> res,
      c\<lparr>mc_listening := True\<rparr>, ReqRegister (mc_pid c) appName)"

definition mc_GetMachineState ::
    "string \<Rightarrow> (string \<times> StateError) outcome \<Rightarrow> MachineStateClient \<Rightarrow> StateError \<times> string \<times> srv_request" where
  "mc_GetMachineState state outcome c =
     (case outcome of
        Inl e \<Rightarrow> (exceptionLambda e, state, ReqGetMachineState (mc_pid c))
      | Inr (newState, res) \<Rightarrow> (res, newState, ReqGetMachineState (mc_pid c)))"

text \<open>
  \<open>arrival\<close> is the confirmation that arrives while the client waits, if any does within the
  timeout; with timeout 0 the client does not wait.
\<close>

definition waitForConfirm ::
    "uint32 \<Rightarrow> StateError option \<Rightarrow> MachineStateClient \<Rightarrow> (StateError \<times> MachineStateClient) res" where
  "waitForConfirm timeout arrival c =
     (if pr_retrieved (mc_promise c) then Inl (FutureError ''future_already_retrieved'')
      else let p = (mc_promise c)\<lparr>pr_retrieved := True\<rparr>
           in case pr_value p of
                Some val \<Rightarrow> Inr (val, c\<lparr>mc_promise := new_promise\<rparr>)
              | None \<Rightarrow>
                  (case (if timeout = 0 then None else arrival) of
                     None \<Rightarrow> Inr (K_TIMEOUT, c\<lparr>mc_promise := p\<rparr>)
                   | Some val \<Rightarrow> Inr (val, c\<lparr>mc_promise := new_promise\<rparr>)))"

definition mc_SetMachineState ::
    "string \<Rightarrow> uint32 \<Rightarrow> StateError outcome \<Rightarrow> StateError option \<Rightarrow> MachineStateClient
       \<Rightarrow> (StateError \<times> MachineStateClient) res \<times> srv_request" where
  "mc_SetMachineState state timeout outcome arrival c =
     (case outcome of
        Inl e \<Rightarrow> Inr (exceptionLambda e, c)
      | Inr res \<Rightarrow> if res = K_SUCCESS then waitForConfirm timeout arrival c else Inr (res, c),
      ReqSetMachineState (mc_pid c) state)"

text \<open>The server side of the client: the execution manager confirms a transition.\<close>

definition confirmStateTransition :: "StateError \<Rightarrow> MachineStateClient \<Rightarrow> MachineStateClient res" where
  "confirmStateTransition result c =
     (if pr_value (mc_promise c) \<noteq> None then Inl (FutureError ''promise_already_satisfied'')
      else Inr (c\<lparr>mc_promise := (mc_promise c)\<lparr>pr_value := Some result\<rparr>\<rparr>))"

section \<open>Properties\<close>

text \<open>
  C35. The component state that the execution manager sends never reaches a component: the client of
  \<open>em_main.cpp\<close> connects to a path that begins with "unix:" (the prefix belongs to RPC addresses),
  and no component server, whatever its name, listens on such a path. The call reports success
  all the same.
\<close>

theorem component_address_mismatch:
  assumes "emc_SetComponentState encode sock connectRes state name em_main_client = Inr (r, calls)"
    and "SockConnect fd path \<in> set calls"
    and "Server_init sock' component = Inr (sv, calls')" "SockBind fd' bound \<in> set calls'"
  shows "path \<noteq> bound \<and> r = CC_SUCCESS"
proof -
  from assms(1,2) have "path = c_str ((IPC_PROTOCOL @ COMPONENT_SOCKET_NAME) @ name)" "r = CC_SUCCESS"
    by (auto simp: emc_SetComponentState_def em_main_client_def Client_init_def
        Client_connect_def Client_sendMessage_def Client_destroy_def std_simps Let_def
        split: if_splits option.splits dest!: copy_path_address)
  moreover from assms(3,4) have "bound = c_str (Server_path component)"
    by (auto simp: Server_init_def Let_def std_simps dest!: copy_path_address)
  ultimately show ?thesis
    by (simp add: IPC_PROTOCOL_def Server_path_def COMPONENT_SOCKET_NAME_def c_str_def)
qed

theorem component_address_mismatch_witness:
  "''unix:/tmp/component_managementapp'' \<noteq> ''/tmp/component_management_app''"
proof -
  have calls: "emc_SetComponentState Some 3 0 ''kOn'' ''app'' em_main_client =
      Inr (CC_SUCCESS, [SockSocket, SockConnect 3 ''unix:/tmp/component_managementapp'', SockSend 3 ''kOn'', SockClose 3])"
    by code_simp
  have "map_sum id snd (Server_init 4 ''app'') = Inr [SockUnlink ''/tmp/component_management_app'', SockSocket,
      SockBind 4 ''/tmp/component_management_app'', SockListen 4 1]"
    by code_simp
  then obtain sv where server: "Server_init 4 ''app'' = Inr (sv, [SockUnlink ''/tmp/component_management_app'',
      SockSocket, SockBind 4 ''/tmp/component_management_app'', SockListen 4 1])"
    by (cases "Server_init 4 ''app''") auto
  from component_address_mismatch[OF calls _ server] show ?thesis by simp
qed

text \<open>
  C34. A machine state client whose wait for a confirmation timed out is of no use any more: every
  later request that the execution manager accepts fails with the future error of the C++ library,
  whatever confirmations arrive, because the promise is renewed only after a confirmation.
\<close>

theorem client_unusable_after_timeout:
  assumes "waitForConfirm timeout arrival c = Inr (K_TIMEOUT, c')"
    and "pr_value (mc_promise c) \<noteq> Some K_TIMEOUT" "arrival \<noteq> Some K_TIMEOUT"
    and "fold (\<lambda>v r. rbind r (confirmStateTransition v)) vs (Inr c') = Inr c''"
  shows "fst (mc_SetMachineState st timeout' (Inr K_SUCCESS) arrival' c'') =
           Inl (FutureError ''future_already_retrieved'')"
proof -
  have "pr_retrieved (mc_promise c')"
    using assms(1-3) by (auto simp: waitForConfirm_def Let_def split: if_splits option.splits)
  moreover have "pr_retrieved (mc_promise c'')"
    if "fold (\<lambda>v r. rbind r (confirmStateTransition v)) vs (Inr c') = Inr c''" "pr_retrieved (mc_promise c')"
    for vs c'
    using that
  proof (induction vs arbitrary: c')
    case (Cons v vs)
    then show ?case
    proof (cases "confirmStateTransition v c'")
      case (Inl e)
      have "fold (\<lambda>v r. rbind r (confirmStateTransition v)) vs (Inl e) = Inl e"
        by (induction vs) simp_all
      with Cons.prems Inl show ?thesis by simp
    next
      case (Inr c1)
      with Cons.prems have "fold (\<lambda>v r. rbind r (confirmStateTransition v)) vs (Inr c1) = Inr c''" by simp
      moreover from Inr Cons.prems(2) have "pr_retrieved (mc_promise c1)"
        by (auto simp: confirmStateTransition_def split: if_splits)
      ultimately show ?thesis by (rule Cons.IH)
    qed
  qed simp
  ultimately show ?thesis
    using assms(4) by (simp add: mc_SetMachineState_def waitForConfirm_def)
qed

theorem client_unusable_after_timeout_witness:
  "fst (mc_SetMachineState ''Running'' 30000000 (Inr K_SUCCESS) (Some K_SUCCESS)
      (MachineStateClient_init 7\<lparr>mc_promise := \<lparr>pr_retrieved = True, pr_value = None\<rparr>\<rparr>)) =
     Inl (FutureError ''future_already_retrieved'')"
proof -
  have "waitForConfirm 0 None (MachineStateClient_init 7) =
      Inr (K_TIMEOUT, MachineStateClient_init 7\<lparr>mc_promise := \<lparr>pr_retrieved = True, pr_value = None\<rparr>\<rparr>)"
    by (simp add: waitForConfirm_def MachineStateClient_init_def new_promise_def)
  from client_unusable_after_timeout[OF this, of "[]"] show ?thesis
    by (simp add: MachineStateClient_init_def new_promise_def)
qed

text \<open>
  In the regular course, requests and confirmations alternate without loss: on a client whose
  promise is fresh, each accepted request whose confirmation arrives in time (before or during the
  wait) returns exactly that confirmation, and leaves the promise fresh for the next request.
\<close>

theorem confirmed_request_returns_confirmation:
  assumes "mc_promise c = new_promise" "timeout \<noteq> 0"
  shows "fst (mc_SetMachineState st timeout (Inr K_SUCCESS) (Some v) c) = Inr (v, c) \<and>
         rbind (confirmStateTransition v c) (\<lambda>c'. fst (mc_SetMachineState st timeout' (Inr K_SUCCESS) arrival c')) =
           Inr (v, c)"
proof -
  have "c\<lparr>mc_promise := new_promise\<rparr> = c" using assms(1) by simp
  with assms show ?thesis
    by (simp add: mc_SetMachineState_def waitForConfirm_def confirmStateTransition_def new_promise_def)
qed

theorem confirmed_request_returns_confirmation_witness:
  "fst (mc_SetMachineState ''Running'' 5 (Inr K_SUCCESS) (Some K_SUCCESS) (MachineStateClient_init 7)) =
     Inr (K_SUCCESS, MachineStateClient_init 7)"
  using confirmed_request_returns_confirmation[of "MachineStateClient_init 7" 5 "''Running''" K_SUCCESS]
  by (simp add: MachineStateClient_init_def)

text \<open>
  The name under which an application reports is the name under which the manifest reader lists
  it: for a process \<open>proc\<close> of the application \<open>app\<close>, started without arguments from
  "dir/app/processes/proc", the report that arrives at the server is for the service
  \<open>getServiceName app proc\<close>. (The kernel's command line ends in a zero byte, which \<open>parseServiceName\<close>
  keeps and the server's \<^verbatim>\<open>cStr()\<close> cuts off.) The path has no white space and no zero byte.
\<close>

lemma reported_name:
  assumes "path = dir @ app @ ''/processes/'' @ proc"
    and "CHR ''/'' \<notin> set app" "CHR ''/'' \<notin> set proc" "dir = [] \<or> last dir = CHR ''/''" "dir @ app \<noteq> []"
    and "\<And>c. c \<in> set path \<Longrightarrow> \<not> is_space c \<and> c \<noteq> CHR 0x00" "str_fits (path @ [CHR 0x00])"
    and "readProc (''/proc/'' @ to_string pid @ ''/cmdline'') = Some (path @ [CHR 0x00])"
  shows "\<exists>name. ReportApplicationState readProc pid st = Inr (ReqReport name st) \<and>
           c_str name = c_str (getServiceName app proc)"
proof -
  have notsp: "\<not> is_space (CHR 0x00)" by code_simp
  have all: "\<And>c. c \<in> set (path @ [CHR 0x00]) \<Longrightarrow> \<not> is_space c" using assms(6) notsp by auto
  obtain c cs where head: "path @ [CHR 0x00] = c # cs" by (cases "path @ [CHR 0x00]") auto
  then have "dropWhile is_space (path @ [CHR 0x00]) = path @ [CHR 0x00]"
    using all[of c] by simp
  then have "stream_word (path @ [CHR 0x00]) = path @ [CHR 0x00]"
    using all by (simp add: stream_word_def takeWhile_eq_all_conv)
  then have bin: "getAppBinaryPath readProc pid = dir @ app @ ''/processes/'' @ (proc @ [CHR 0x00])"
    using assms(1,8) by (simp add: getAppBinaryPath_def)
  have "parseServiceName (dir @ app @ ''/processes/'' @ (proc @ [CHR 0x00])) =
      Inr (getServiceName app (proc @ [CHR 0x00]))"
    by (rule parseServiceName_process_path) (use assms in auto)
  moreover have "c_str (getServiceName app (proc @ [CHR 0x00])) = c_str (getServiceName app proc)"
    using c_str_padded[of "getServiceName app proc" 1] by (simp add: getServiceName_def)
  ultimately show ?thesis
    by (simp add: ReportApplicationState_def bin)
qed

end
