(* ===== verification/App_Lifecycle.thy ===== *)
theory App_Lifecycle
  imports Protocol
begin

text \<open>
  The contract of \<^verbatim>\<open>api/include/i_adaptive_app.hpp\<close> as both of its implementations meet it: an
  adaptive application is initialised, then runs, performs actions, and is terminated, and reports
  its application state at each of these points. The operations are relations between the state
  before and after, so that an operation that fails or does not return has no successor. The two
  interpretations are the applications of \<^verbatim>\<open>AdaptiveApplication1\<close> and the machine state manager.
\<close>

locale app_lifecycle =
  fixes initialized running :: "'a \<Rightarrow> bool"
    and init run act terminate :: "'a \<Rightarrow> 'a \<Rightarrow> bool"
    and reports :: "'a \<Rightarrow> ApplicationState list"
  assumes init_reports: "init a b \<Longrightarrow> initialized b \<and> reports b = reports a @ [K_INITIALIZING]"
    and run_reports: "initialized a \<Longrightarrow> run a b \<Longrightarrow> running b \<and> reports b = reports a @ [K_RUNNING]"
    and act_reports: "running a \<Longrightarrow> act a b \<Longrightarrow>
      running b \<and> (\<exists>n. reports b = reports a @ replicate n K_RUNNING)"
    and terminate_reports: "running a \<Longrightarrow> terminate a b \<Longrightarrow> reports b = reports a @ [K_SHUTTINGDOWN]"
begin

lemma acts_report:
  assumes "act\<^sup>*\<^sup>* a b" "running a"
  shows "running b \<and> (\<exists>n. reports b = reports a @ replicate n K_RUNNING)"
  using assms(1)
proof (induction rule: rtranclp_induct)
  case base
  then show ?case using assms(2) by (auto intro: exI[of _ 0])
next
  case (step b c)
  then obtain n where n: "running b" "reports b = reports a @ replicate n K_RUNNING" by blast
  from act_reports[OF n(1) step.hyps(2)] obtain k where
    "running c" "reports c = reports b @ replicate k K_RUNNING" by blast
  with n show ?case by (auto simp: replicate_add[symmetric])
qed

text \<open>A complete life: initialising, one or more times running, shutting down, in this order.\<close>

lemma life_reports:
  assumes "init a b" "run b c" "act\<^sup>*\<^sup>* c d" "terminate d e"
  shows "\<exists>n. reports e = reports a @ [K_INITIALIZING] @ replicate (Suc n) K_RUNNING @ [K_SHUTTINGDOWN]"
proof -
  from init_reports[OF assms(1)] have b: "initialized b" "reports b = reports a @ [K_INITIALIZING]" by auto
  from run_reports[OF b(1) assms(2)] have c: "running c" "reports c = reports b @ [K_RUNNING]" by auto
  from acts_report[OF assms(3) c(1)] obtain n where
    d: "running d" "reports d = reports c @ replicate n K_RUNNING" by auto
  from terminate_reports[OF d(1) assms(4)] b c d show ?thesis by auto
qed

end

end
