(* ===== verification/Adaptive_App.thy ===== *)
theory Adaptive_App
  imports App_Lifecycle
begin

text \<open>
  \<^verbatim>\<open>applications/AdaptiveApplication1\<close> (\<^verbatim>\<open>adaptive_app.cpp\<close>, \<^verbatim>\<open>state.cpp\<close>, \<^verbatim>\<open>aa_main.cpp\<close>) and the two
  processes of \<^verbatim>\<open>AdaptiveApplication2\<close> built from the same class. The calls that the application
  makes to the execution manager (reports, confirmations, registration), to its component server
  and to the mean calculator are recorded in order. The current state is \<open>None\<close> while the pointer
  is null.
\<close>

section \<open>States\<close>

datatype aa_state = AA_Init | AA_Run | AA_ShutDown | AA_Suspend

datatype aa_call =
    AARegisterComponent string StateUpdateMode
  | AAServerStart
  | AAReport ApplicationState
  | AAConfirm string ComponentClientReturnType
  | AAMean

record adaptive_app =
  aa_componentState :: string
  aa_currentState :: "aa_state option"
  aa_eventModeEnabled :: bool
  aa_calls :: "aa_call list"

definition aa_emit :: "aa_call \<Rightarrow> adaptive_app \<Rightarrow> adaptive_app" where
  "aa_emit c app = app\<lparr>aa_calls := aa_calls app @ [c]\<rparr>"

text \<open>The constructor arguments of the state classes; \<open>Suspend\<close> has no application state.\<close>

fun aa_getApplicationState :: "aa_state \<Rightarrow> ApplicationState option" where
  "aa_getApplicationState AA_Init = Some K_INITIALIZING"
| "aa_getApplicationState AA_Run = Some K_RUNNING"
| "aa_getApplicationState AA_ShutDown = Some K_SHUTTINGDOWN"
| "aa_getApplicationState AA_Suspend = None"

definition aa_reportApplicationState :: "ApplicationState \<Rightarrow> adaptive_app \<Rightarrow> adaptive_app" where
  "aa_reportApplicationState state app = aa_emit (AAReport state) app"

fun aa_enter :: "aa_state \<Rightarrow> adaptive_app \<Rightarrow> adaptive_app" where
  "aa_enter st app =
     (case aa_getApplicationState st of
        None \<Rightarrow> app | Some state \<Rightarrow> aa_reportApplicationState state app)"

definition aa_leave :: "aa_state \<Rightarrow> adaptive_app \<Rightarrow> adaptive_app" where
  "aa_leave st app = app"

fun aa_state_performAction :: "aa_state \<Rightarrow> adaptive_app \<Rightarrow> adaptive_app" where
  "aa_state_performAction AA_Run app = aa_emit AAMean app"
| "aa_state_performAction _ app = app"

section \<open>The application\<close>

definition AdaptiveApp_init :: "bool \<Rightarrow> adaptive_app" where
  "AdaptiveApp_init eventModeEnabled =
     (let app = \<lparr>aa_componentState = COMPONENT_STATE_ON, aa_currentState = None,
                 aa_eventModeEnabled = eventModeEnabled, aa_calls = []\<rparr>
      in if eventModeEnabled then aa_emit AAServerStart app else app)"

definition aa_init :: "adaptive_app \<Rightarrow> adaptive_app" where
  "aa_init app = aa_enter AA_Init (app\<lparr>aa_currentState := Some AA_Init\<rparr>)"

definition aa_transitToNextState :: "aa_state \<Rightarrow> adaptive_app \<Rightarrow> adaptive_app res" where
  "aa_transitToNextState nextState app =
     (case aa_currentState app of
        None \<Rightarrow> Inl (Undefined ''m_currentState->leave()'')
      | Some cur \<Rightarrow> Inr (aa_enter nextState ((aa_leave cur app)\<lparr>aa_currentState := Some nextState\<rparr>)))"

definition aa_run :: "adaptive_app \<Rightarrow> adaptive_app res" where
  "aa_run app =
     rbind (aa_transitToNextState AA_Run app) (\<lambda>app'. Inr (app'\<lparr>aa_componentState := COMPONENT_STATE_ON\<rparr>))"

definition aa_terminate :: "adaptive_app \<Rightarrow> adaptive_app res" where
  "aa_terminate app = aa_transitToNextState AA_ShutDown app"

definition aa_suspend :: "adaptive_app \<Rightarrow> adaptive_app res" where
  "aa_suspend app =
     rbind (aa_transitToNextState AA_Suspend app) (\<lambda>app'. Inr (app'\<lparr>aa_componentState := COMPONENT_STATE_OFF\<rparr>))"

definition aa_isValid :: "string \<Rightarrow> bool" where
  "aa_isValid state \<longleftrightarrow> COMPONENT_STATE_ON = state \<or> COMPONENT_STATE_OFF = state"

definition aa_shouldResume :: "string \<Rightarrow> adaptive_app \<Rightarrow> bool" where
  "aa_shouldResume state app \<longleftrightarrow> aa_componentState app \<noteq> state \<and> COMPONENT_STATE_ON = state"

definition aa_shouldSuspend :: "string \<Rightarrow> adaptive_app \<Rightarrow> bool" where
  "aa_shouldSuspend state app \<longleftrightarrow> aa_componentState app \<noteq> state \<and> COMPONENT_STATE_OFF = state"

definition aa_setComponentState ::
    "string \<Rightarrow> adaptive_app \<Rightarrow> (ComponentClientReturnType \<times> adaptive_app) res" where
  "aa_setComponentState state app =
     (if aa_isValid state
      then if aa_shouldResume state app then rbind (aa_run app) (\<lambda>app'. Inr (CC_SUCCESS, app'))
           else if aa_shouldSuspend state app then rbind (aa_suspend app) (\<lambda>app'. Inr (CC_SUCCESS, app'))
           else Inr (CC_UNCHANGED, app)
      else Inr (CC_INVALID, app))"

definition aa_stateUpdateHandler :: "string \<Rightarrow> adaptive_app \<Rightarrow> adaptive_app res" where
  "aa_stateUpdateHandler state app =
     rbind (aa_setComponentState state app) (\<lambda>(result, app'). Inr (aa_emit (AAConfirm state result) app'))"

text \<open>\<open>polled\<close> is what \<^verbatim>\<open>GetComponentState\<close> returns: the state and the result.\<close>

definition aa_pollComponentState ::
    "string \<times> ComponentClientReturnType \<Rightarrow> adaptive_app \<Rightarrow> adaptive_app res" where
  "aa_pollComponentState polled app =
     (let (state, result) = polled
      in rbind (if CC_SUCCESS = result then aa_setComponentState state app else Inr (result, app))
           (\<lambda>(result', app'). Inr (aa_emit (AAConfirm state result') app')))"

text \<open>
  What one call of \<open>performAction\<close> sees: in event mode the element taken from the component
  server's queue, decoded by \<^verbatim>\<open>setStateUpdateHandler\<close> (\<open>None\<close>: the queue is empty), otherwise the
  answer to the poll.
\<close>

record aa_input =
  in_queueElement :: "string res option"
  in_polled :: "string \<times> ComponentClientReturnType"

definition aa_performAction :: "aa_input \<Rightarrow> adaptive_app \<Rightarrow> adaptive_app res" where
  "aa_performAction i app =
     rbind (if aa_eventModeEnabled app
            then (case in_queueElement i of
                    None \<Rightarrow> Inr app
                  | Some decoded \<Rightarrow> rbind decoded (\<lambda>state. aa_stateUpdateHandler state app))
            else aa_pollComponentState (in_polled i) app)
       (\<lambda>app'. case aa_currentState app' of
                  None \<Rightarrow> Inl (Undefined ''m_currentState->performAction()'')
                | Some cur \<Rightarrow> Inr (aa_state_performAction cur app'))"

section \<open>The processes\<close>

fun aa_loop :: "aa_input list \<Rightarrow> adaptive_app \<Rightarrow> adaptive_app res" where
  "aa_loop [] app = Inr app"
| "aa_loop (i # is) app = rbind (aa_performAction i app) (aa_loop is)"

text \<open>
  \<open>main\<close> with the iterations it makes before the signal arrives; the component client registers
  the component when it is constructed, before the application object is.
\<close>

definition aa_life ::
    "string \<Rightarrow> StateUpdateMode \<Rightarrow> bool \<Rightarrow> aa_input list \<Rightarrow> adaptive_app res" where
  "aa_life componentName mode eventMode is =
     (let app = AdaptiveApp_init eventMode;
          app0 = app\<lparr>aa_calls := AARegisterComponent componentName mode # aa_calls app\<rparr>
      in rbind (aa_run (aa_init app0)) (\<lambda>app1.
         rbind (aa_loop is app1) aa_terminate))"

definition proc1_main :: "aa_input list \<Rightarrow> adaptive_app res" where
  "proc1_main = aa_life ''AdaptiveApplication1_proc1'' K_EVENT True"

definition proc2_main :: "aa_input list \<Rightarrow> adaptive_app res" where
  "proc2_main = aa_life ''AdaptiveApplication2_proc2'' K_POLL False"

definition proc3_main :: "aa_input list \<Rightarrow> adaptive_app res" where
  "proc3_main = aa_life ''AdaptiveApplication2_proc3'' K_POLL False"

section \<open>Invariant\<close>

text \<open>While the application runs, the component state says which state object is current.\<close>

definition aa_inv :: "adaptive_app \<Rightarrow> bool" where
  "aa_inv app \<longleftrightarrow>
     aa_componentState app = COMPONENT_STATE_ON \<and> aa_currentState app = Some AA_Run \<or>
     aa_componentState app = COMPONENT_STATE_OFF \<and> aa_currentState app = Some AA_Suspend"

lemmas aa_defs =
  aa_emit_def aa_reportApplicationState_def aa_leave_def aa_transitToNextState_def aa_run_def
  aa_suspend_def aa_terminate_def aa_init_def aa_setComponentState_def aa_isValid_def
  aa_shouldResume_def aa_shouldSuspend_def aa_stateUpdateHandler_def

lemma on_off [simp]: "COMPONENT_STATE_ON \<noteq> COMPONENT_STATE_OFF" "COMPONENT_STATE_OFF \<noteq> COMPONENT_STATE_ON"
  by (simp_all add: component_state_defs)

text \<open>The answer to a component state, and what it makes the application report.\<close>

definition answerTo :: "string \<Rightarrow> string \<Rightarrow> ComponentClientReturnType" where
  "answerTo cur state =
     (if state \<noteq> COMPONENT_STATE_ON \<and> state \<noteq> COMPONENT_STATE_OFF then CC_INVALID
      else if state = cur then CC_UNCHANGED else CC_SUCCESS)"

definition resumes :: "string \<Rightarrow> string \<Rightarrow> bool" where
  "resumes cur state \<longleftrightarrow> state = COMPONENT_STATE_ON \<and> cur \<noteq> COMPONENT_STATE_ON"

lemma setComponentState_eq:
  assumes "aa_inv app"
  shows "aa_setComponentState state app =
           Inr (answerTo (aa_componentState app) state,
             if answerTo (aa_componentState app) state = CC_SUCCESS
             then app\<lparr>aa_componentState := state,
                      aa_currentState := Some (if state = COMPONENT_STATE_ON then AA_Run else AA_Suspend),
                      aa_calls := aa_calls app @ (if state = COMPONENT_STATE_ON then [AAReport K_RUNNING] else [])\<rparr>
             else app)"
  using assms by (auto simp: aa_defs aa_inv_def answerTo_def)

lemma setComponentState_inv:
  "aa_inv app \<Longrightarrow> aa_setComponentState state app = Inr (r, app') \<Longrightarrow> aa_inv app'"
  by (auto simp: setComponentState_eq aa_inv_def answerTo_def split: if_splits)

section \<open>The application as an automaton with two states\<close>

text \<open>
  The abstract application has the states on and off. \<open>spec_handle\<close> is its reaction to a component
  state, \<open>spec_action\<close> its reaction to what one \<open>performAction\<close> sees.
\<close>

definition spec_handle :: "string \<Rightarrow> string \<Rightarrow> string \<times> aa_call list" where
  "spec_handle state cur =
     (if answerTo cur state = CC_SUCCESS then state else cur,
      (if resumes cur state then [AAReport K_RUNNING] else []) @ [AAConfirm state (answerTo cur state)])"

definition spec_react :: "bool \<Rightarrow> aa_input \<Rightarrow> string \<Rightarrow> string \<times> aa_call list" where
  "spec_react eventMode i cur =
     (if eventMode
      then (case in_queueElement i of
              Some (Inr state) \<Rightarrow> spec_handle state cur
            | _ \<Rightarrow> (cur, []))
      else (case in_polled i of
              (state, CC_SUCCESS) \<Rightarrow> spec_handle state cur
            | (state, result) \<Rightarrow> (cur, [AAConfirm state result])))"

definition spec_action :: "bool \<Rightarrow> aa_input \<Rightarrow> string \<Rightarrow> string \<times> aa_call list" where
  "spec_action eventMode i cur =
     (let (cur', calls) = spec_react eventMode i cur
      in (cur', calls @ (if cur' = COMPONENT_STATE_ON then [AAMean] else [])))"

fun spec_loop :: "bool \<Rightarrow> aa_input list \<Rightarrow> string \<Rightarrow> string \<times> aa_call list" where
  "spec_loop eventMode [] cur = (cur, [])"
| "spec_loop eventMode (i # is) cur =
     (let (cur', calls) = spec_action eventMode i cur;
          (cur'', calls') = spec_loop eventMode is cur'
      in (cur'', calls @ calls'))"

text \<open>The queue element, if any, decodes to a component state.\<close>

definition decodes :: "bool \<Rightarrow> aa_input \<Rightarrow> bool" where
  "decodes eventMode i \<longleftrightarrow> (eventMode \<longrightarrow> (\<forall>e. in_queueElement i \<noteq> Some (Inl e)))"

text \<open>An application whose abstract state is \<open>cur\<close> and that has made the calls \<open>calls\<close>.\<close>

definition aa_at :: "bool \<Rightarrow> string \<Rightarrow> aa_call list \<Rightarrow> adaptive_app" where
  "aa_at eventMode cur calls =
     \<lparr>aa_componentState = cur,
      aa_currentState = Some (if cur = COMPONENT_STATE_ON then AA_Run else AA_Suspend),
      aa_eventModeEnabled = eventMode, aa_calls = calls\<rparr>"

abbreviation on_or_off :: "string \<Rightarrow> bool" where
  "on_or_off cur \<equiv> cur = COMPONENT_STATE_ON \<or> cur = COMPONENT_STATE_OFF"

lemma setComponentState_at:
  assumes "on_or_off cur"
  shows "aa_setComponentState state (aa_at ev cur calls) =
           Inr (answerTo cur state,
             aa_at ev (fst (spec_handle state cur))
               (calls @ (if resumes cur state then [AAReport K_RUNNING] else [])))"
  using assms by (auto simp: aa_defs aa_at_def answerTo_def spec_handle_def resumes_def)

lemma aa_emit_at [simp]: "aa_emit c (aa_at ev cur calls) = aa_at ev cur (calls @ [c])"
  by (simp add: aa_emit_def aa_at_def)

lemma stateUpdateHandler_at:
  assumes "on_or_off cur"
  shows "aa_stateUpdateHandler state (aa_at ev cur calls) =
           Inr (aa_at ev (fst (spec_handle state cur)) (calls @ snd (spec_handle state cur)))"
  using setComponentState_at[OF assms]
  by (simp add: aa_stateUpdateHandler_def spec_handle_def)

lemma pollComponentState_at:
  assumes "on_or_off cur"
  shows "aa_pollComponentState (in_polled i) (aa_at ev cur calls) =
           Inr (aa_at ev (fst (spec_react False i cur)) (calls @ snd (spec_react False i cur)))"
proof -
  obtain state result where p: "in_polled i = (state, result)" by (cases "in_polled i")
  show ?thesis
    using setComponentState_at[OF assms]
    by (cases result) (simp_all add: p aa_pollComponentState_def spec_react_def spec_handle_def)
qed

lemma spec_handle_cur: "on_or_off cur \<Longrightarrow> on_or_off (fst (spec_handle state cur))"
  by (auto simp: spec_handle_def answerTo_def)

lemma spec_react_cur: "on_or_off cur \<Longrightarrow> on_or_off (fst (spec_react ev i cur))"
  using spec_handle_cur[of cur]
  by (auto simp: spec_react_def split: option.split sum.split prod.split ComponentClientReturnType.split)

lemma performAction_at:
  assumes "on_or_off cur" "decodes ev i"
  shows "aa_performAction i (aa_at ev cur calls) =
           Inr (aa_at ev (fst (spec_action ev i cur)) (calls @ snd (spec_action ev i cur)))"
proof -
  let ?r = "spec_react ev i cur"
  have react: "(if ev
      then (case in_queueElement i of
              None \<Rightarrow> Inr (aa_at ev cur calls)
            | Some decoded \<Rightarrow> rbind decoded (\<lambda>state. aa_stateUpdateHandler state (aa_at ev cur calls)))
      else aa_pollComponentState (in_polled i) (aa_at ev cur calls)) =
      Inr (aa_at ev (fst ?r) (calls @ snd ?r))"
    using assms pollComponentState_at[OF assms(1)] stateUpdateHandler_at[OF assms(1)]
    by (auto simp: spec_react_def decodes_def split: option.splits sum.splits)
  have "aa_state_performAction (if c = COMPONENT_STATE_ON then AA_Run else AA_Suspend) (aa_at ev c cs) =
      aa_at ev c (cs @ (if c = COMPONENT_STATE_ON then [AAMean] else []))" for c cs
    by simp
  moreover have "aa_eventModeEnabled (aa_at ev cur calls) = ev"
    "aa_currentState (aa_at ev c cs) = Some (if c = COMPONENT_STATE_ON then AA_Run else AA_Suspend)" for c cs
    by (simp_all add: aa_at_def)
  ultimately show ?thesis
    by (simp only: aa_performAction_def react rbind_simps spec_action_def split_beta Let_def option.case
        fst_conv snd_conv append.assoc)
qed

lemma spec_action_cur: "on_or_off cur \<Longrightarrow> on_or_off (fst (spec_action ev i cur))"
  using spec_react_cur[of cur ev i] by (simp add: spec_action_def split_beta)

lemma loop_at:
  assumes "on_or_off cur" "list_all (decodes ev) is"
  shows "aa_loop is (aa_at ev cur calls) =
           Inr (aa_at ev (fst (spec_loop ev is cur)) (calls @ snd (spec_loop ev is cur)))"
  using assms
proof (induction "is" arbitrary: cur calls)
  case Nil
  then show ?case by simp
next
  case (Cons i "is")
  from Cons.prems Cons.IH[OF spec_action_cur[of cur ev i]] performAction_at[of cur ev i calls]
  show ?case by (simp add: split_beta Let_def)
qed

lemma run_init_at:
  "aa_run (aa_init (\<lparr>aa_componentState = c, aa_currentState = None, aa_eventModeEnabled = ev, aa_calls = calls\<rparr>)) =
     Inr (aa_at ev COMPONENT_STATE_ON (calls @ [AAReport K_INITIALIZING, AAReport K_RUNNING]))"
  by (simp add: aa_defs aa_at_def)

lemma spec_loop_on_off: "on_or_off cur \<Longrightarrow> on_or_off (fst (spec_loop ev is cur))"
proof (induction "is" arbitrary: cur)
  case (Cons i "is")
  from Cons.IH[OF spec_action_cur[OF Cons.prems]] show ?case by (simp add: split_beta Let_def)
qed simp

section \<open>The life of an application\<close>

fun callReports :: "aa_call list \<Rightarrow> ApplicationState list" where
  "callReports [] = []"
| "callReports (AAReport st # cs) = st # callReports cs"
| "callReports (_ # cs) = callReports cs"

definition aa_reports :: "adaptive_app \<Rightarrow> ApplicationState list" where
  "aa_reports app = callReports (aa_calls app)"

lemma callReports_append [simp]: "callReports (cs @ cs') = callReports cs @ callReports cs'"
  by (induction cs rule: callReports.induct) simp_all

lemma aa_inv_at:
  "aa_inv app \<Longrightarrow> app = aa_at (aa_eventModeEnabled app) (aa_componentState app) (aa_calls app) \<and>
     on_or_off (aa_componentState app)"
  by (cases app) (auto simp: aa_inv_def aa_at_def)

lemma at_aa_inv: "on_or_off cur \<Longrightarrow> aa_inv (aa_at ev cur calls)"
  by (auto simp: aa_inv_def aa_at_def)

lemma performAction_decodes: "aa_performAction i app = Inr app' \<Longrightarrow> decodes (aa_eventModeEnabled app) i"
  by (auto simp: aa_performAction_def decodes_def)

lemma spec_action_reports: "\<exists>n. callReports (snd (spec_action ev i cur)) = replicate n K_RUNNING"
proof -
  have h: "callReports (snd (spec_handle st cur)) = replicate (if resumes cur st then 1 else 0) K_RUNNING" for st
    by (simp add: spec_handle_def)
  have "snd (spec_react ev i cur) = [] \<or> (\<exists>st. snd (spec_react ev i cur) = snd (spec_handle st cur)) \<or>
      (\<exists>st r. snd (spec_react ev i cur) = [AAConfirm st r])"
    by (auto simp: spec_react_def split: option.split sum.split prod.split ComponentClientReturnType.split)
  then have "\<exists>n. callReports (snd (spec_react ev i cur)) = replicate n K_RUNNING"
    using h by (auto intro: exI[of _ 0])
  then show ?thesis by (auto simp: spec_action_def split_beta Let_def)
qed

interpretation aa: app_lifecycle
  "\<lambda>app. aa_currentState app = Some AA_Init" aa_inv
  "\<lambda>a b. b = aa_init a" "\<lambda>a b. aa_run a = Inr b" "\<lambda>a b. \<exists>i. aa_performAction i a = Inr b"
  "\<lambda>a b. aa_terminate a = Inr b" aa_reports
proof unfold_locales
  fix a b :: adaptive_app
  show "b = aa_init a \<Longrightarrow> aa_currentState b = Some AA_Init \<and> aa_reports b = aa_reports a @ [K_INITIALIZING]"
    by (simp add: aa_defs aa_reports_def)
  show "aa_currentState a = Some AA_Init \<Longrightarrow> aa_run a = Inr b \<Longrightarrow>
      aa_inv b \<and> aa_reports b = aa_reports a @ [K_RUNNING]"
    by (auto simp: aa_defs aa_inv_def aa_reports_def)
  show "aa_inv a \<Longrightarrow> aa_terminate a = Inr b \<Longrightarrow> aa_reports b = aa_reports a @ [K_SHUTTINGDOWN]"
    by (auto simp: aa_defs aa_inv_def aa_reports_def)
  assume inv: "aa_inv a" and "\<exists>i. aa_performAction i a = Inr b"
  then obtain i where i: "aa_performAction i a = Inr b" by blast
  let ?ev = "aa_eventModeEnabled a" and ?cur = "aa_componentState a"
  from aa_inv_at[OF inv] have at: "a = aa_at ?ev ?cur (aa_calls a)" and cur: "on_or_off ?cur" by auto
  from performAction_at[OF cur performAction_decodes[OF i], of "aa_calls a"] i at
  have b: "b = aa_at ?ev (fst (spec_action ?ev i ?cur)) (aa_calls a @ snd (spec_action ?ev i ?cur))"
    by simp
  have "aa_reports b = aa_reports a @ callReports (snd (spec_action ?ev i ?cur))"
    by (simp add: b aa_reports_def aa_at_def)
  with b at_aa_inv[OF spec_action_cur[OF cur]] spec_action_reports[of ?ev i ?cur]
  show "aa_inv b \<and> (\<exists>n. aa_reports b = aa_reports a @ replicate n K_RUNNING)"
    by auto
qed

lemma loop_acts: "aa_loop is app = Inr app' \<Longrightarrow> (\<lambda>a b. \<exists>i. aa_performAction i a = Inr b)\<^sup>*\<^sup>* app app'"
proof (induction "is" arbitrary: app)
  case (Cons i "is")
  then obtain app1 where "aa_performAction i app = Inr app1" "aa_loop is app1 = Inr app'"
    by (auto simp: std_simps)
  then show ?case using Cons.IH[of app1] by (blast intro: converse_rtranclp_into_rtranclp)
qed simp

section \<open>Properties\<close>



text \<open>
  C32. A process that ends has reported to the execution manager Initializing once, then Running at
  least once (again after each resumption), then Shuttingdown once, in this order and nothing else.
\<close>

theorem application_reports_its_life:
  assumes "aa_life componentName mode eventMode is = Inr app"
  shows "\<exists>n. aa_reports app = [K_INITIALIZING] @ replicate (Suc n) K_RUNNING @ [K_SHUTTINGDOWN]"
proof -
  define app0 where "app0 = (let app = AdaptiveApp_init eventMode
    in app\<lparr>aa_calls := AARegisterComponent componentName mode # aa_calls app\<rparr>)"
  from assms obtain app1 app2 where life: "aa_run (aa_init app0) = Inr app1"
    "aa_loop is app1 = Inr app2" "aa_terminate app2 = Inr app"
    by (auto simp: aa_life_def app0_def Let_def std_simps)
  have "aa_reports app0 = []"
    by (simp add: app0_def AdaptiveApp_init_def aa_emit_def aa_reports_def Let_def)
  with aa.life_reports[OF refl life(1) loop_acts[OF life(2)] life(3)] show ?thesis by simp
qed

theorem application_reports_its_life_witness:
  "\<exists>app n. proc2_main [\<lparr>in_queueElement = None, in_polled = (''kOff'', CC_SUCCESS)\<rparr>] = Inr app \<and>
     aa_reports app = [K_INITIALIZING] @ replicate (Suc n) K_RUNNING @ [K_SHUTTINGDOWN]"
proof -
  have "\<exists>app. proc2_main [\<lparr>in_queueElement = None, in_polled = (''kOff'', CC_SUCCESS)\<rparr>] = Inr app"
    by (simp add: proc2_main_def aa_life_def AdaptiveApp_init_def aa_defs aa_performAction_def
        aa_pollComponentState_def component_state_defs)
  then show ?thesis
    using application_reports_its_life unfolding proc2_main_def by blast
qed

text \<open>
  C31. The reaction to a component state, in a running application: an unknown state is refused as
  invalid and the current one answered as unchanged, both without any effect; the other known
  state switches the application between running and suspended and is answered with success, and
  going back to running is reported to the execution manager. The application stays consistent:
  it runs exactly when its component state is on.
\<close>

theorem setComponentState_spec:
  assumes "aa_inv app"
  shows "\<exists>app'. aa_setComponentState state app = Inr (answerTo (aa_componentState app) state, app') \<and>
           aa_inv app' \<and>
           (answerTo (aa_componentState app) state \<noteq> CC_SUCCESS \<longrightarrow> app' = app) \<and>
           (answerTo (aa_componentState app) state = CC_SUCCESS \<longrightarrow> aa_componentState app' = state) \<and>
           aa_reports app' = aa_reports app @ (if resumes (aa_componentState app) state then [K_RUNNING] else [])"
proof -
  have "aa_inv app' \<and> aa_reports app' = aa_reports app @ (if resumes (aa_componentState app) state then [K_RUNNING] else [])"
    if "aa_setComponentState state app = Inr (answerTo (aa_componentState app) state, app')" for app'
    using that assms setComponentState_inv[OF assms that]
    by (auto simp: setComponentState_eq resumes_def aa_reports_def answerTo_def
        aa_inv_def split: if_splits)
  then show ?thesis
    using setComponentState_eq[OF assms, of state] by auto
qed

theorem setComponentState_spec_witness:
  "\<exists>app'. aa_setComponentState ''kOn'' (aa_at False ''kOff'' []) = Inr (CC_SUCCESS, app') \<and>
     aa_componentState app' = ''kOn'' \<and> aa_reports app' = [K_RUNNING]"
proof -
  have "aa_inv (aa_at False ''kOff'' [])" by (rule at_aa_inv) (simp add: component_state_defs)
  from setComponentState_spec[OF this, of "''kOn''"] show ?thesis
    by (auto simp: aa_at_def answerTo_def resumes_def component_state_defs aa_reports_def)
qed

end
