(* ===== verification/Kvs.thy ===== *)
theory Kvs
  imports Json_Layout
begin

text \<open>
  The key-value storage of \<^verbatim>\<open>per/\<close>: \<open>KvsType\<close> (\<^verbatim>\<open>kvstype.cpp\<close>) and \<open>KeyValueStorage\<close>
  (\<^verbatim>\<open>keyvaluestorage.cpp\<close>), which keeps its data as a JSON value and writes it to a file. The file
  system (\<open>fs\<close>, a map from paths to contents; every path can be written) is a parameter, and so are the
  reading of doubles (\<open>strtod\<close>) and the uninitialised variable of the serialiser (\<open>junk\<close>).
\<close>

section \<open>KvsType\<close>

datatype KvsTypeType = KNotSupported | kString | kNotSet

datatype KvsTypeStatus = kSuccess | kSuccessDefaultValue | kNotFound | kCheckSumError | kGeneralError

record KvsType =
  m_status :: KvsTypeStatus
  m_type :: KvsTypeType
  m_value :: string

definition KvsType_of :: "string \<Rightarrow> KvsType" where
  "KvsType_of value = \<lparr>m_status = kSuccess, m_type = kString, m_value = value\<rparr>"

definition KvsType_default :: KvsType where
  "KvsType_default = \<lparr>m_status = kNotFound, m_type = kNotSet, m_value = []\<rparr>"

definition GetType :: "KvsType \<Rightarrow> KvsTypeType" where
  "GetType v = m_type v"

definition GetString :: "KvsType \<Rightarrow> string res" where
  "GetString v =
     (if kSuccess = m_status v then Inr (m_value v) else Inl (RuntimeError ''No value in Kvs pair''))"

section \<open>Conversion\<close>

definition to_json_KvsType :: "KvsType \<Rightarrow> json res" where
  "to_json_KvsType v = rbind (GetString v) (\<lambda>str. Inr (json_init [kv ''value'' (JString str)]))"

definition from_json_KvsType :: "json \<Rightarrow> KvsType res" where
  "from_json_KvsType j = rbind (json_at j ''value'') (\<lambda>v. rbind (get_string v) (\<lambda>str. Inr (KvsType_of str)))"

section \<open>KeyValueStorage\<close>

record KeyValueStorage =
  dbLocation :: string
  kvs_data :: json

definition HasKey :: "string \<Rightarrow> KeyValueStorage \<Rightarrow> bool" where
  "HasKey key kvs = json_has (kvs_data kvs) key"

definition SetValue :: "string \<Rightarrow> KvsType \<Rightarrow> KeyValueStorage \<Rightarrow> KeyValueStorage res" where
  "SetValue key v kvs =
     rbind (to_json_KvsType v) (\<lambda>j.
     rbind (json_store (kvs_data kvs) key j) (\<lambda>d. Inr (kvs\<lparr>kvs_data := d\<rparr>)))"

text \<open>The function is \<^verbatim>\<open>noexcept\<close>: an error of the conversion ends the program.\<close>

definition GetValue :: "string \<Rightarrow> KeyValueStorage \<Rightarrow> KvsType res" where
  "GetValue key kvs =
     (if HasKey key kvs
      then rbind (json_index (kvs_data kvs) key) from_json_KvsType
      else Inr KvsType_default)"

definition RemoveAllKeys :: "KeyValueStorage \<Rightarrow> KeyValueStorage" where
  "RemoveAllKeys kvs = kvs\<lparr>kvs_data := json_clear (kvs_data kvs)\<rparr>"

text \<open>The file is truncated when it is opened; an exception of the serialiser leaves what it had written.\<close>

definition SyncToStorage ::
    "uint32 \<Rightarrow> KeyValueStorage \<Rightarrow> (string \<Rightarrow> string option) \<Rightarrow>
     unit res \<times> (string \<Rightarrow> string option)" where
  "SyncToStorage junk kvs fs =
     (case json_write junk (kvs_data kvs) of
        Inl (written, e) \<Rightarrow> (Inl e, fs(dbLocation kvs \<mapsto> written))
      | Inr content \<Rightarrow> (Inr (), fs(dbLocation kvs \<mapsto> content)))"

definition KeyValueStorage_init ::
    "(string \<Rightarrow> 64 word) \<Rightarrow> (string \<Rightarrow> string option) \<Rightarrow> string \<Rightarrow> KeyValueStorage res" where
  "KeyValueStorage_init strtod fs db =
     (let empty_storage = \<lparr>dbLocation = db, kvs_data = JNull\<rparr>
      in case fs db of
           None \<Rightarrow> Inr empty_storage
         | Some content \<Rightarrow>
             rbind (json_accept strtod content) (\<lambda>accepted.
               if accepted then rbind (json_read strtod content) (\<lambda>j. Inr (empty_storage\<lparr>kvs_data := j\<rparr>))
               else Inr empty_storage))"

section \<open>Laws\<close>

text \<open>A storage in use: empty, or an object whose values all have the shape that \<open>SetValue\<close> writes.\<close>

fun kvs_value :: "json \<Rightarrow> bool" where
  "kvs_value (JObject [(k, JString str)]) = (k = ''value'')"
| "kvs_value _ = False"

lemma kvs_value_iff: "kvs_value j \<longleftrightarrow> (\<exists>str. j = json_init [kv ''value'' (JString str)])"
  by (induction j rule: kvs_value.induct) (simp_all add: json_init_def map_emplace_def map_find_def)

fun kvs_wf :: "json \<Rightarrow> bool" where
  "kvs_wf JNull = True"
| "kvs_wf (JObject m) = (std_map m \<and> (\<forall>(k, v) \<in> set m. kvs_value v))"
| "kvs_wf _ = False"

definition contents :: "KeyValueStorage \<Rightarrow> string \<rightharpoonup> string" where
  "contents kvs key = (case GetValue key kvs of Inl _ \<Rightarrow> None
     | Inr v \<Rightarrow> (case GetString v of Inl _ \<Rightarrow> None | Inr str \<Rightarrow> Some str))"

lemma KvsType_simps [simp]:
  "GetString (KvsType_of str) = Inr str"
  "GetType (KvsType_of str) = kString"
  "GetString KvsType_default = Inl (RuntimeError ''No value in Kvs pair'')"
  "GetType KvsType_default = kNotSet"
  by (simp_all add: GetString_def GetType_def KvsType_of_def KvsType_default_def)

lemma kvs_round_trip:
  "to_json_KvsType (KvsType_of str) = Inr (json_init [kv ''value'' (JString str)])"
  "from_json_KvsType (json_init [kv ''value'' (JString str)]) = Inr (KvsType_of str)"
  by (simp_all add: to_json_KvsType_def from_json_KvsType_def json_at_init1)

lemma SetValue_total:
  assumes "kvs_wf (kvs_data kvs)"
  shows "\<exists>kvs'. SetValue key (KvsType_of str) kvs = Inr kvs' \<and> kvs_wf (kvs_data kvs') \<and>
           dbLocation kvs' = dbLocation kvs"
proof (cases "kvs_data kvs")
  case JNull
  then show ?thesis
    by (auto simp: SetValue_def kvs_round_trip kvs_value_iff)
next
  case (JObject m)
  with assms show ?thesis
    by (auto simp: SetValue_def kvs_round_trip kvs_value_iff dest!: map_put_values)
qed (use assms in auto)

lemma GetValue_object:
  assumes "kvs_data kvs = JObject m"
  shows "GetValue key kvs =
           (case map_find key m of None \<Rightarrow> Inr KvsType_default | Some j \<Rightarrow> from_json_KvsType j)"
  using assms by (auto simp: GetValue_def HasKey_def split: option.split)

lemma GetValue_null: "kvs_data kvs = JNull \<Longrightarrow> GetValue key kvs = Inr KvsType_default"
  by (simp add: GetValue_def HasKey_def)

lemma GetValue_total:
  assumes "kvs_wf (kvs_data kvs)"
  shows "GetValue key kvs = Inr KvsType_default \<or> (\<exists>str. GetValue key kvs = Inr (KvsType_of str))"
proof (cases "kvs_data kvs")
  case (JObject m)
  show ?thesis
  proof (cases "map_find key m")
    case (Some j)
    with assms JObject have "kvs_value j" by (auto dest: map_find_SomeD)
    with Some JObject show ?thesis by (auto simp: GetValue_object kvs_value_iff kvs_round_trip)
  qed (simp add: GetValue_object JObject)
qed (use assms in \<open>auto simp: GetValue_null\<close>)

lemma GetValue_SetValue:
  assumes "kvs_wf (kvs_data kvs)" "SetValue key (KvsType_of str) kvs = Inr kvs'"
  shows "GetValue k kvs' = (if k = key then Inr (KvsType_of str) else GetValue k kvs)"
proof (cases "kvs_data kvs")
  case JNull
  with assms have "kvs_data kvs' = JObject (map_put key (json_init [kv ''value'' (JString str)]) [])"
    by (auto simp: SetValue_def kvs_round_trip)
  with JNull show ?thesis
    by (simp add: GetValue_object GetValue_null map_find_def kvs_round_trip)
next
  case (JObject m)
  with assms have "kvs_data kvs' = JObject (map_put key (json_init [kv ''value'' (JString str)]) m)"
    "std_map m"
    by (auto simp: SetValue_def kvs_round_trip)
  with JObject show ?thesis
    by (simp add: GetValue_object map_find_put kvs_round_trip)
qed (use assms in auto)

lemma GetValue_RemoveAllKeys: "GetValue k (RemoveAllKeys kvs) = Inr KvsType_default"
  by (cases "kvs_data kvs") (auto simp: GetValue_def HasKey_def RemoveAllKeys_def map_find_def)

section \<open>Properties\<close>

text \<open>
  A storage as an abstract map: what \<open>GetString\<close> gives for each key. The locale is what a client of
  \<open>KeyValueStorageBase\<close> relies on.
\<close>

locale key_value_store =
  fixes wf :: "'s \<Rightarrow> bool"
    and get :: "string \<Rightarrow> 's \<Rightarrow> string option"
    and put :: "string \<Rightarrow> string \<Rightarrow> 's \<Rightarrow> 's"
    and clear :: "'s \<Rightarrow> 's"
  assumes put_wf: "wf s \<Longrightarrow> wf (put k v s)"
    and get_put: "wf s \<Longrightarrow> get k' (put k v s) = (if k' = k then Some v else get k' s)"
    and get_clear: "get k (clear s) = None"
begin

lemma puts_wf: "wf s \<Longrightarrow> wf (fold (\<lambda>(k, v). put k v) kvs s)"
  by (induction kvs arbitrary: s) (auto simp: put_wf)

text \<open>After a sequence of writes a key holds the value written to it last.\<close>

lemma get_puts:
  "wf s \<Longrightarrow> get k (fold (\<lambda>(k, v). put k v) kvs s) =
     (case map_of (rev kvs) k of None \<Rightarrow> get k s | Some v \<Rightarrow> Some v)"
proof (induction kvs arbitrary: s)
  case Nil
  then show ?case by simp
next
  case (Cons p kvs)
  obtain k' v' where p: "p = (k', v')" by (cases p)
  from Cons.IH[OF put_wf[OF Cons.prems]] show ?case
    using get_put[OF Cons.prems, of k k' v']
    by (auto simp: p map_add_def split: option.split)
qed

end

definition kvs_put :: "string \<Rightarrow> string \<Rightarrow> KeyValueStorage \<Rightarrow> KeyValueStorage" where
  "kvs_put k v kvs = (case SetValue k (KvsType_of v) kvs of Inl _ \<Rightarrow> kvs | Inr kvs' \<Rightarrow> kvs')"

lemma SetValue_kvs_put:
  "kvs_wf (kvs_data kvs) \<Longrightarrow> SetValue k (KvsType_of v) kvs = Inr (kvs_put k v kvs)"
  using SetValue_total[of kvs k v] by (auto simp: kvs_put_def)

interpretation kvs: key_value_store "\<lambda>s. kvs_wf (kvs_data s)" "\<lambda>k s. contents s k" kvs_put RemoveAllKeys
proof unfold_locales
  fix s :: KeyValueStorage and k v k' :: string
  assume wf: "kvs_wf (kvs_data s)"
  from SetValue_total[OF wf, of k v] SetValue_kvs_put[OF wf, of k v]
  show "kvs_wf (kvs_data (kvs_put k v s))" by auto
  show "contents (kvs_put k v s) k' = (if k' = k then Some v else contents s k')"
    using GetValue_SetValue[OF wf SetValue_kvs_put[OF wf]] by (simp add: contents_def)
next
  fix k :: string and s :: KeyValueStorage
  show "contents (RemoveAllKeys s) k = None" by (simp add: contents_def GetValue_RemoveAllKeys)
qed

lemma storage_get_puts:
  assumes "kvs_wf (kvs_data s)"
  shows "GetValue k (fold (\<lambda>(k, v). kvs_put k v) updates s) =
           (case map_of (rev updates) k of None \<Rightarrow> GetValue k s | Some v \<Rightarrow> Inr (KvsType_of v))"
proof -
  let ?s = "fold (\<lambda>(k, v). kvs_put k v) updates s"
  have wf: "kvs_wf (kvs_data ?s)" by (rule kvs.puts_wf[OF assms])
  have c: "contents ?s k = (case map_of (rev updates) k of None \<Rightarrow> contents s k | Some v \<Rightarrow> Some v)"
    by (rule kvs.get_puts[OF assms])
  have inj: "GetValue k t = (case contents t k of None \<Rightarrow> Inr KvsType_default | Some v \<Rightarrow> Inr (KvsType_of v))"
    if "kvs_wf (kvs_data t)" for t :: KeyValueStorage
    using GetValue_total[OF that, of k] by (auto simp: contents_def)
  show ?thesis
    using c by (simp add: inj[OF wf] inj[OF assms] split: option.split)
qed

text \<open>
  Reading a key of a storage in use gives the value written to it last, whatever was written to
  other keys before and after; a key never written reads as "not set". No write throws.
\<close>

theorem storage_reads_last_write:
  assumes "kvs_wf (kvs_data s)"
  shows "GetValue k (fold (\<lambda>(k, v). kvs_put k v) updates s) =
           (case map_of (rev updates) k of None \<Rightarrow> GetValue k s | Some v \<Rightarrow> Inr (KvsType_of v)) \<and>
         SetValue k (KvsType_of v) s = Inr (kvs_put k v s)"
  using storage_get_puts[OF assms] SetValue_kvs_put[OF assms] by blast

theorem storage_reads_last_write_witness:
  "GetValue ''state'' (fold (\<lambda>(k, v). kvs_put k v) [(''state'', ''a''), (''x'', ''b''), (''state'', ''c'')]
     \<lparr>dbLocation = ''/tmp/db'', kvs_data = JNull\<rparr>) = Inr (KvsType_of ''c'')"
  using storage_reads_last_write[of "\<lparr>dbLocation = ''/tmp/db'', kvs_data = JNull\<rparr>" "''state''"
      "[(''state'', ''a''), (''x'', ''b''), (''state'', ''c'')]"]
  by simp

lemma kvs_put_location [simp]: "dbLocation (kvs_put k v s) = dbLocation s"
  by (auto simp: kvs_put_def SetValue_def std_simps split: sum.splits)

lemma puts_location [simp]: "dbLocation (fold (\<lambda>(k, v). kvs_put k v) updates s) = dbLocation s"
  by (induction updates arbitrary: s) auto

text \<open>Opening a storage never throws: a file that is not JSON text counts as empty.\<close>

lemma KeyValueStorage_init_eq:
  "KeyValueStorage_init strtod fs db =
     Inr \<lparr>dbLocation = db,
          kvs_data = (case fs db of None \<Rightarrow> JNull
                      | Some content \<Rightarrow> (case json_parse strtod True content of Inl _ \<Rightarrow> JNull | Inr j \<Rightarrow> j))\<rparr>"
proof (cases "fs db")
  case (Some content)
  show ?thesis
  proof (cases "json_parse strtod True content")
    case (Inr j)
    with strict_parse_read[OF Inr] Some show ?thesis
      by (simp add: KeyValueStorage_init_def accept_iff_parse)
  qed (simp add: KeyValueStorage_init_def accept_iff_parse Some)
qed (simp add: KeyValueStorage_init_def)

lemma kvs_value_canon: "kvs_value j \<Longrightarrow> json_canon j"
  by (auto simp: kvs_value_iff json_init_def map_emplace_def map_find_def)

lemma kvs_canon: "kvs_wf j \<Longrightarrow> json_canon j"
  by (cases j) (auto dest: kvs_value_canon)

lemma value_entry_dumpable: "dumpable (json_init [kv ''value'' (JString str)]) \<longleftrightarrow> utf8_valid str"
proof -
  have "utf8_valid ''value''" by (rule ascii_utf8) (simp add: ascii_def)
  then show ?thesis by (simp add: json_init_def map_emplace_def map_find_def)
qed

lemma kvs_put_data:
  assumes "kvs_wf (kvs_data s)"
  shows "kvs_data (kvs_put k v s) =
           JObject (map_put k (json_init [kv ''value'' (JString v)]) (case kvs_data s of JObject m \<Rightarrow> m | _ \<Rightarrow> []))"
proof -
  from SetValue_kvs_put[OF assms, of k v] have
    "json_store (kvs_data s) k (json_init [kv ''value'' (JString v)]) = Inr (kvs_data (kvs_put k v s))"
    by (auto simp: SetValue_def kvs_round_trip std_simps dest!: arg_cong[where f = kvs_data])
  then show ?thesis by (cases "kvs_data s") simp_all
qed

lemma kvs_put_dumpable:
  assumes "kvs_wf (kvs_data s)" "dumpable (kvs_data s)" "utf8_valid k" "utf8_valid v"
  shows "dumpable (kvs_data (kvs_put k v s))"
  unfolding kvs_put_data[OF assms(1)]
  using assms by (cases "kvs_data s") (auto simp: value_entry_dumpable dest!: map_put_values)

lemma puts_dumpable:
  "kvs_wf (kvs_data s) \<Longrightarrow> dumpable (kvs_data s) \<Longrightarrow> list_all (\<lambda>(k, v). utf8_valid k \<and> utf8_valid v) updates \<Longrightarrow>
     dumpable (kvs_data (fold (\<lambda>(k, v). kvs_put k v) updates s))"
  by (induction updates arbitrary: s) (auto simp: kvs_put_dumpable kvs.put_wf)

text \<open>What is synchronised is what a storage opened on the file later holds.\<close>

lemma sync_init:
  assumes "kvs_wf (kvs_data s)" "dumpable (kvs_data s)" "SyncToStorage junk s fs = (r, fs')"
  shows "r = Inr () \<and> KeyValueStorage_init strtod fs' (dbLocation s) = Inr s"
proof -
  from assms(2,3) have "r = Inr ()" "fs' = fs(dbLocation s \<mapsto> json_text (kvs_data s))"
    by (auto simp: SyncToStorage_def json_write_eq(1))
  then show ?thesis
    using canon_parse_text[OF assms(2) kvs_canon[OF assms(1)]] by (simp add: KeyValueStorage_init_eq)
qed

text \<open>
  C25. Persistence: strings in UTF-8 that are written to a storage, synchronised to its file and read
  by a storage opened on the file later are the values written last, for every key; keys that were
  never written read as before. Neither the synchronisation nor the opening throws. The text in
  between is the one the serialiser writes and the parser reads.
\<close>

theorem storage_survives_restart:
  assumes "kvs_wf (kvs_data s)" "dumpable (kvs_data s)"
    and "list_all (\<lambda>(k, v). utf8_valid k \<and> utf8_valid v) updates"
    and "SyncToStorage junk (fold (\<lambda>(k, v). kvs_put k v) updates s) fs = (r, fs')"
  shows "r = Inr () \<and>
         (\<exists>s'. KeyValueStorage_init strtod fs' (dbLocation s) = Inr s' \<and>
            GetValue k s' =
              (case map_of (rev updates) k of None \<Rightarrow> GetValue k s | Some v \<Rightarrow> Inr (KvsType_of v)))"
  using sync_init[where strtod = strtod, OF kvs.puts_wf[OF assms(1)] puts_dumpable[OF assms(1-3)] assms(4)]
    storage_get_puts[OF assms(1), of k updates] by simp

theorem storage_survives_restart_witness:
  "\<exists>s'. KeyValueStorage_init (\<lambda>_. 0)
          (snd (SyncToStorage 0 (kvs_put ''state'' ''Living'' \<lparr>dbLocation = ''d'', kvs_data = JNull\<rparr>) (\<lambda>_. None)))
          ''d'' = Inr s' \<and>
     GetValue ''state'' s' = Inr (KvsType_of ''Living'')"
proof -
  let ?s = "\<lparr>dbLocation = ''d'', kvs_data = JNull\<rparr>"
  have "utf8_valid ''state''" "utf8_valid ''Living''" by (rule ascii_utf8, simp add: ascii_def)+
  then show ?thesis
    using storage_survives_restart[of ?s "[(''state'', ''Living'')]" 0 "\<lambda>_. None" _ _ "\<lambda>_. 0" "''state''",
        OF _ _ _ prod.collapse[symmetric]]
    by simp
qed

lemma map_put_here: "(k, v) \<in> set (map_put k v m)"
  by (induction k v m rule: map_put.induct) auto



end
