(* ===== verification/Msm.thy ===== *)
theory Msm
  imports App_Lifecycle Kvs
begin

text \<open>
  The machine state manager (\<^verbatim>\<open>applications/MachineStateManager\<close>: \<^verbatim>\<open>machine_state_manager.cpp\<close>,
  \<^verbatim>\<open>msm_state_machine.cpp\<close>, \<^verbatim>\<open>msm_main.cpp\<close>). It reads requested machine states from its socket
  server, remembers the last one in the key-value storage and asks the execution manager for each.

  The strings that successive calls of \<open>getData\<close> return are the list \<open>msm_inputs\<close>; when it is used
  up the manager blocks, which is the result \<open>None\<close>. The execution manager's answers are a function
  \<open>reply\<close> of the calls made so far; \<open>Inl\<close> is an exception of the RPC client. \<open>junk\<close> is the parameter
  of the serialiser.
\<close>

section \<open>State\<close>

datatype msm_state = MSM_Init | MSM_Run | MSM_ShutDown

datatype msm_call =
    MReport ApplicationState
  | MRegister string uint32
  | MSetMachineState string uint32
  | MStartServer
  | MCloseServer
  | MSave string
  | MFailedToSet string

record msm =
  msm_currentState :: "msm_state option"
  msm_availableStates :: "string list"
  msm_persistentStorage :: KeyValueStorage
  msm_fs :: "string \<Rightarrow> string option"
  msm_firstRun :: bool
  msm_inputs :: "string list"
  msm_calls :: "msm_call list"

type_synonym msm_reply = "msm_call list \<Rightarrow> StateError res"

definition STATE_KEY :: string where
  "STATE_KEY = ''state''"

definition MachineStateManager_init ::
    "string list \<Rightarrow> KeyValueStorage \<Rightarrow> (string \<Rightarrow> string option) \<Rightarrow> string list \<Rightarrow> msm" where
  "MachineStateManager_init machineStates persistentStorage fs inputs =
     \<lparr>msm_currentState = None, msm_availableStates = machineStates,
      msm_persistentStorage = persistentStorage, msm_fs = fs, msm_firstRun = True,
      msm_inputs = inputs, msm_calls = []\<rparr>"

definition msm_emit :: "msm_call \<Rightarrow> msm \<Rightarrow> msm" where
  "msm_emit c m = m\<lparr>msm_calls := msm_calls m @ [c]\<rparr>"

section \<open>Operations of the manager\<close>

definition msm_reportApplicationState :: "ApplicationState \<Rightarrow> msm \<Rightarrow> msm" where
  "msm_reportApplicationState state m = msm_emit (MReport state) m"

definition msm_timeout :: "string \<Rightarrow> uint32" where
  "msm_timeout state =
     (if MACHINE_STATE_SHUTTINGDOWN = state then NO_TIMEOUT else DEFAULT_RESPONSE_TIMEOUT)"

definition msm_setMachineState :: "msm_reply \<Rightarrow> string \<Rightarrow> msm \<Rightarrow> (StateError \<times> msm) res" where
  "msm_setMachineState reply state m =
     (let m' = msm_emit (MSetMachineState state (msm_timeout state)) m
      in rbind (reply (msm_calls m')) (\<lambda>result. Inr (result, m')))"

definition msm_registerMsm :: "msm_reply \<Rightarrow> string \<Rightarrow> msm \<Rightarrow> (StateError \<times> msm) res" where
  "msm_registerMsm reply applicationName m =
     (let m' = msm_emit (MRegister (c_str applicationName) DEFAULT_RESPONSE_TIMEOUT) m
      in rbind (reply (msm_calls m')) (\<lambda>result. Inr (result, m')))"

definition msm_getData :: "msm \<Rightarrow> (string \<times> msm) option" where
  "msm_getData m =
     (case msm_inputs m of [] \<Rightarrow> None | x # xs \<Rightarrow> Some (x, m\<lparr>msm_inputs := xs\<rparr>))"

text \<open>The result: \<open>None\<close> while the manager waits for data, \<open>Some (Inl e)\<close> when the storage throws.\<close>

definition getNewStateForStartRun :: "msm \<Rightarrow> (string \<times> msm) res option" where
  "getNewStateForStartRun m =
     (if msm_firstRun m
      then (let m1 = m\<lparr>msm_firstRun := False\<rparr>
            in case GetValue STATE_KEY (msm_persistentStorage m1) of
                 Inl e \<Rightarrow> Some (Inl e)
               | Inr lastState \<Rightarrow>
                   (if kString = GetType lastState
                    then (case GetString lastState of
                            Inl e \<Rightarrow> Some (Inl e)
                          | Inr str \<Rightarrow>
                              if MACHINE_STATE_SHUTTINGDOWN \<noteq> str then Some (Inr (str, m1))
                              else map_option Inr (msm_getData m1))
                    else map_option Inr (msm_getData m1)))
      else map_option Inr (msm_getData m))"

text \<open>The loop of \<open>getNewState\<close>: unknown states are dropped.\<close>

fun skipInvalid :: "string list \<Rightarrow> string \<Rightarrow> string list \<Rightarrow> (string \<times> string list) option" where
  "skipInvalid available newState [] =
     (if newState \<in> set available then Some (newState, []) else None)"
| "skipInvalid available newState (x # xs) =
     (if newState \<in> set available then Some (newState, x # xs) else skipInvalid available x xs)"

definition getNewState :: "msm \<Rightarrow> (string \<times> msm) res option" where
  "getNewState m =
     (case getNewStateForStartRun m of
        None \<Rightarrow> None
      | Some (Inl e) \<Rightarrow> Some (Inl e)
      | Some (Inr (newState, m1)) \<Rightarrow>
          (case skipInvalid (msm_availableStates m1) newState (msm_inputs m1) of
             None \<Rightarrow> None
           | Some (state, rest) \<Rightarrow> Some (Inr (state, m1\<lparr>msm_inputs := rest\<rparr>))))"

text \<open>
  The task is started with \<^verbatim>\<open>std::launch::async\<close> and its future destroyed at once, which waits for it
  and drops an exception.
\<close>

definition saveReceivedState :: "uint32 \<Rightarrow> string \<Rightarrow> msm \<Rightarrow> msm" where
  "saveReceivedState junk state m =
     (case SetValue STATE_KEY (KvsType_of state) (msm_persistentStorage m) of
        Inl _ \<Rightarrow> m
      | Inr kvs \<Rightarrow>
          msm_emit (MSave state)
            (m\<lparr>msm_persistentStorage := kvs, msm_fs := snd (SyncToStorage junk kvs (msm_fs m))\<rparr>))"

section \<open>The states\<close>

definition msm_getApplicationState :: "msm_state \<Rightarrow> ApplicationState" where
  "msm_getApplicationState st =
     (case st of MSM_Init \<Rightarrow> K_INITIALIZING | MSM_Run \<Rightarrow> K_RUNNING | MSM_ShutDown \<Rightarrow> K_SHUTTINGDOWN)"

definition Init_enter :: "msm_reply \<Rightarrow> msm \<Rightarrow> msm res" where
  "Init_enter reply m =
     rbind (msm_registerMsm reply ''MSM''
              (msm_reportApplicationState (msm_getApplicationState MSM_Init) m))
       (\<lambda>(result, m'). Inr (msm_emit MStartServer m'))"

definition msm_leave :: "msm_state \<Rightarrow> msm \<Rightarrow> msm" where
  "msm_leave st m =
     (case st of MSM_Init \<Rightarrow> msm_reportApplicationState K_RUNNING m | _ \<Rightarrow> m)"

definition ShutDown_enter :: "msm \<Rightarrow> msm" where
  "ShutDown_enter m =
     msm_reportApplicationState (msm_getApplicationState MSM_ShutDown) (msm_emit MCloseServer m)"

text \<open>One iteration of the loop of \<open>Run::enter\<close>, after the new state has arrived.\<close>

definition Run_request :: "msm_reply \<Rightarrow> uint32 \<Rightarrow> string \<Rightarrow> msm \<Rightarrow> msm res" where
  "Run_request reply junk state m =
     rbind (msm_setMachineState reply state (saveReceivedState junk state m)) (\<lambda>(result, m').
       Inr (if K_SUCCESS \<noteq> result \<and> \<not> (K_TIMEOUT = result \<and> MACHINE_STATE_SHUTTINGDOWN = state)
            then msm_emit (MFailedToSet state) m' else m'))"

definition msm_budget :: "msm \<Rightarrow> nat" where
  "msm_budget m = length (msm_inputs m) + (if msm_firstRun m then 1 else 0)"

lemma skipInvalid_length: "skipInvalid av st ins = Some (st', rest) \<Longrightarrow> length rest \<le> length ins"
  by (induction av st ins rule: skipInvalid.induct) (auto split: if_splits)

lemma getData_budget: "msm_getData m = Some (st, m') \<Longrightarrow> msm_budget m' < msm_budget m"
  by (auto simp: msm_getData_def msm_budget_def split: list.splits)

lemma startRun_budget: "getNewStateForStartRun m = Some (Inr (st, m')) \<Longrightarrow> msm_budget m' < msm_budget m"
  by (auto simp: getNewStateForStartRun_def msm_getData_def msm_budget_def Let_def
      split: if_splits sum.splits list.splits)

lemma getNewState_budget: "getNewState m = Some (Inr (st, m')) \<Longrightarrow> msm_budget m' < msm_budget m"
  by (force simp: getNewState_def msm_budget_def split: option.splits sum.splits
      dest: startRun_budget skipInvalid_length)

lemma Run_request_frame:
  "Run_request reply junk st m = Inr m' \<Longrightarrow>
     msm_inputs m' = msm_inputs m \<and> msm_firstRun m' = msm_firstRun m \<and>
     msm_availableStates m' = msm_availableStates m \<and> msm_currentState m' = msm_currentState m"
  by (auto simp: Run_request_def msm_setMachineState_def saveReceivedState_def msm_emit_def Let_def
      std_simps split: sum.splits if_splits)

function Run_enter :: "msm_reply \<Rightarrow> uint32 \<Rightarrow> msm \<Rightarrow> msm res option" where
  "Run_enter reply junk m =
     (case getNewState m of
        None \<Rightarrow> None
      | Some (Inl e) \<Rightarrow> Some (Inl e)
      | Some (Inr (state, m1)) \<Rightarrow>
          (case Run_request reply junk state m1 of
             Inl e \<Rightarrow> Some (Inl e)
           | Inr m2 \<Rightarrow>
               if state \<noteq> MACHINE_STATE_SHUTTINGDOWN then Run_enter reply junk m2
               else Some (Inr m2)))"
  by pat_completeness auto
termination
  by (relation "measure (\<lambda>(_, _, m). msm_budget m)")
    (auto dest!: getNewState_budget Run_request_frame simp: msm_budget_def)

declare Run_enter.simps [simp del]

section \<open>The life of the manager\<close>

definition msm_init :: "msm_reply \<Rightarrow> msm \<Rightarrow> msm res" where
  "msm_init reply m = Init_enter reply (m\<lparr>msm_currentState := Some MSM_Init\<rparr>)"

definition msm_run :: "msm_reply \<Rightarrow> uint32 \<Rightarrow> msm \<Rightarrow> msm res option" where
  "msm_run reply junk m =
     (case msm_currentState m of
        None \<Rightarrow> Some (Inl (Undefined ''m_currentState->leave()''))
      | Some cur \<Rightarrow> Run_enter reply junk ((msm_leave cur m)\<lparr>msm_currentState := Some MSM_Run\<rparr>))"

definition msm_terminate :: "msm \<Rightarrow> msm res" where
  "msm_terminate m =
     (case msm_currentState m of
        None \<Rightarrow> Inl (Undefined ''m_currentState->leave()'')
      | Some cur \<Rightarrow> Inr (ShutDown_enter ((msm_leave cur m)\<lparr>msm_currentState := Some MSM_ShutDown\<rparr>)))"

definition msm_performAction :: "msm \<Rightarrow> msm" where
  "msm_performAction m = m"

text \<open>\<open>main\<close>, with the number of idle iterations before the signal arrives.\<close>

definition msm_main :: "msm_reply \<Rightarrow> uint32 \<Rightarrow> nat \<Rightarrow> msm \<Rightarrow> msm res option" where
  "msm_main reply junk n m =
     (case msm_init reply m of
        Inl e \<Rightarrow> Some (Inl e)
      | Inr m1 \<Rightarrow>
          (case msm_run reply junk m1 of
             None \<Rightarrow> None
           | Some (Inl e) \<Rightarrow> Some (Inl e)
           | Some (Inr m2) \<Rightarrow> Some (msm_terminate ((msm_performAction ^^ n) m2))))"

section \<open>What the manager serves\<close>

text \<open>The states that are waiting: the remembered one on the first run, and the data.\<close>

definition remembered :: "msm \<Rightarrow> string list" where
  "remembered m =
     (case contents (msm_persistentStorage m) STATE_KEY of
        None \<Rightarrow> [] | Some st \<Rightarrow> if st = MACHINE_STATE_SHUTTINGDOWN then [] else [st])"

definition waitingStates :: "msm \<Rightarrow> string list" where
  "waitingStates m = (if msm_firstRun m then remembered m else []) @ msm_inputs m"

definition validStates :: "msm \<Rightarrow> string list" where
  "validStates m = filter (\<lambda>st. st \<in> set (msm_availableStates m)) (waitingStates m)"

text \<open>The requests that come out of a list of valid states: up to the first Shuttingdown.\<close>

definition upToShutdown :: "string list \<Rightarrow> string list" where
  "upToShutdown sts = takeWhile (\<lambda>st. st \<noteq> MACHINE_STATE_SHUTTINGDOWN) sts @ [MACHINE_STATE_SHUTTINGDOWN]"

text \<open>The calls without the log lines.\<close>

fun is_log :: "msm_call \<Rightarrow> bool" where
  "is_log (MFailedToSet st) = True"
| "is_log _ = False"

definition msm_trace :: "msm \<Rightarrow> msm_call list" where
  "msm_trace m = filter (\<lambda>c. \<not> is_log c) (msm_calls m)"

definition served :: "string list \<Rightarrow> msm_call list" where
  "served sts = concat (map (\<lambda>st. [MSave st, MSetMachineState st (msm_timeout st)]) sts)"

lemma skipInvalid_spec:
  "(filter (\<lambda>x. x \<in> set av) (st # ins) = [] \<longrightarrow> skipInvalid av st ins = None) \<and>
   (\<forall>s r. filter (\<lambda>x. x \<in> set av) (st # ins) = s # r \<longrightarrow>
      (\<exists>rest. skipInvalid av st ins = Some (s, rest) \<and> filter (\<lambda>x. x \<in> set av) rest = r))"
  by (induction av st ins rule: skipInvalid.induct) auto

lemma startRun_eq:
  assumes "kvs_wf (kvs_data (msm_persistentStorage m))"
  shows "getNewStateForStartRun m =
           (case waitingStates m of
              [] \<Rightarrow> None
            | st # rest \<Rightarrow> Some (Inr (st, m\<lparr>msm_firstRun := False, msm_inputs := rest\<rparr>)))"
proof (cases "msm_firstRun m")
  case True
  from GetValue_total[OF assms, of STATE_KEY] show ?thesis
  proof
    assume "GetValue STATE_KEY (msm_persistentStorage m) = Inr KvsType_default"
    with True show ?thesis
      by (simp add: getNewStateForStartRun_def waitingStates_def remembered_def contents_def
          msm_getData_def split: list.split)
  next
    assume "\<exists>str. GetValue STATE_KEY (msm_persistentStorage m) = Inr (KvsType_of str)"
    then obtain str where "GetValue STATE_KEY (msm_persistentStorage m) = Inr (KvsType_of str)" ..
    with True show ?thesis
      by (auto simp: getNewStateForStartRun_def waitingStates_def remembered_def contents_def
          msm_getData_def split: list.split)
  qed
next
  case False
  then show ?thesis
    by (cases m) (simp add: getNewStateForStartRun_def waitingStates_def msm_getData_def split: list.split)
qed

lemma getNewState_none:
  assumes "kvs_wf (kvs_data (msm_persistentStorage m))" "validStates m = []"
  shows "getNewState m = None"
proof (cases "waitingStates m")
  case Nil
  then show ?thesis by (simp add: getNewState_def startRun_eq[OF assms(1)])
next
  case (Cons st rest)
  with skipInvalid_spec[of "msm_availableStates m" st rest] assms(2) show ?thesis
    by (simp add: getNewState_def startRun_eq[OF assms(1)] validStates_def)
qed

lemma getNewState_some:
  assumes "kvs_wf (kvs_data (msm_persistentStorage m))" "validStates m = st # sts"
  shows "\<exists>rest. getNewState m = Some (Inr (st, m\<lparr>msm_firstRun := False, msm_inputs := rest\<rparr>)) \<and>
           filter (\<lambda>x. x \<in> set (msm_availableStates m)) rest = sts"
proof (cases "waitingStates m")
  case Nil
  with assms(2) show ?thesis by (simp add: validStates_def)
next
  case (Cons x xs)
  with skipInvalid_spec[of "msm_availableStates m" x xs] assms(2) show ?thesis
    by (auto simp: getNewState_def startRun_eq[OF assms(1)] validStates_def)
qed

lemma Run_request_spec:
  assumes "kvs_wf (kvs_data (msm_persistentStorage m))" "\<And>h. \<exists>r. reply h = Inr r"
  shows "\<exists>m'. Run_request reply junk st m = Inr m' \<and> msm_trace m' = msm_trace m @ served [st] \<and>
           msm_persistentStorage m' = kvs_put STATE_KEY st (msm_persistentStorage m) \<and>
           msm_fs m' = snd (SyncToStorage junk (msm_persistentStorage m') (msm_fs m))"
proof -
  obtain r where "reply (msm_calls (msm_emit (MSetMachineState st (msm_timeout st))
      (saveReceivedState junk st m))) = Inr r"
    using assms(2) by blast
  then show ?thesis
    by (auto simp: Run_request_def msm_setMachineState_def saveReceivedState_def Let_def
        SetValue_kvs_put[OF assms(1)] msm_emit_def msm_trace_def served_def)
qed

lemma kvs_put_wf: "kvs_wf (kvs_data s) \<Longrightarrow> kvs_wf (kvs_data (kvs_put k v s))"
  by (rule kvs.put_wf)

lemma Run_enter_spec:
  assumes "kvs_wf (kvs_data (msm_persistentStorage m))" "\<And>h. \<exists>r. reply h = Inr r"
  shows "if MACHINE_STATE_SHUTTINGDOWN \<in> set (validStates m)
         then \<exists>m'. Run_enter reply junk m = Some (Inr m') \<and>
                msm_trace m' = msm_trace m @ served (upToShutdown (validStates m)) \<and>
                msm_currentState m' = msm_currentState m
         else Run_enter reply junk m = None"
  using assms
proof (induction reply junk m rule: Run_enter.induct)
  case (1 reply junk m)
  show ?case
  proof (cases "validStates m")
    case Nil
    with getNewState_none[OF 1(2) Nil] show ?thesis by (simp add: Run_enter.simps[of reply junk m])
  next
    case (Cons st sts)
    from getNewState_some[OF 1(2) Cons] obtain rest where
      new: "getNewState m = Some (Inr (st, m\<lparr>msm_firstRun := False, msm_inputs := rest\<rparr>))"
      and rest: "filter (\<lambda>x. x \<in> set (msm_availableStates m)) rest = sts" by blast
    let ?m1 = "m\<lparr>msm_firstRun := False, msm_inputs := rest\<rparr>"
    from Run_request_spec[of ?m1 reply junk st] 1(2,3) obtain m2 where
      req: "Run_request reply junk st ?m1 = Inr m2"
      and tr: "msm_trace m2 = msm_trace m @ served [st]"
      and sto: "msm_persistentStorage m2 = kvs_put STATE_KEY st (msm_persistentStorage m)"
      by (auto simp: msm_trace_def)
    from Run_request_frame[OF req] rest have
      fr: "msm_currentState m2 = msm_currentState m" "validStates m2 = sts"
      by (simp_all add: validStates_def waitingStates_def)
    have eq: "Run_enter reply junk m =
        (if st \<noteq> MACHINE_STATE_SHUTTINGDOWN then Run_enter reply junk m2 else Some (Inr m2))"
      by (simp add: Run_enter.simps[of reply junk m] new req)
    show ?thesis
    proof (cases "st = MACHINE_STATE_SHUTTINGDOWN")
      case True
      with eq Cons tr fr show ?thesis by (simp add: upToShutdown_def served_def)
    next
      case False
      have "kvs_wf (kvs_data (msm_persistentStorage m2))" using 1(2) by (simp add: sto kvs_put_wf)
      from 1(1)[OF new refl refl req False this 1(3)] eq False Cons tr fr show ?thesis
        by (auto simp: upToShutdown_def served_def)
    qed
  qed
qed

section \<open>The life of the manager as an adaptive application\<close>

fun msmReports :: "msm_call list \<Rightarrow> ApplicationState list" where
  "msmReports [] = []"
| "msmReports (MReport st # cs) = st # msmReports cs"
| "msmReports (_ # cs) = msmReports cs"

definition msm_reports :: "msm \<Rightarrow> ApplicationState list" where
  "msm_reports m = msmReports (msm_calls m)"

lemma msmReports_append [simp]: "msmReports (cs @ cs') = msmReports cs @ msmReports cs'"
  by (induction cs rule: msmReports.induct) simp_all

lemmas msm_op_defs =
  msm_emit_def msm_reportApplicationState_def msm_registerMsm_def Init_enter_def msm_leave_def
  ShutDown_enter_def msm_init_def msm_terminate_def msm_getApplicationState_def Let_def

lemma Run_request_reports: "Run_request reply junk st m = Inr m' \<Longrightarrow> msm_reports m' = msm_reports m"
  by (auto simp: Run_request_def msm_setMachineState_def saveReceivedState_def msm_reports_def msm_emit_def
      Let_def std_simps split: sum.splits if_splits)

lemma getNewState_frame:
  "getNewState m = Some (Inr (st, m')) \<Longrightarrow>
     msm_calls m' = msm_calls m \<and> msm_currentState m' = msm_currentState m"
  by (auto simp: getNewState_def getNewStateForStartRun_def msm_getData_def Let_def
      split: option.splits sum.splits if_splits list.splits)

lemma Run_enter_frame:
  "Run_enter reply junk m = Some (Inr m') \<Longrightarrow>
     msm_reports m' = msm_reports m \<and> msm_currentState m' = msm_currentState m"
proof (induction reply junk m rule: Run_enter.induct)
  case (1 reply junk m)
  from 1(2) obtain st m1 m2 where new: "getNewState m = Some (Inr (st, m1))"
    and req: "Run_request reply junk st m1 = Inr m2"
    by (subst (asm) Run_enter.simps) (auto split: option.splits sum.splits)
  have same: "msm_reports m2 = msm_reports m \<and> msm_currentState m2 = msm_currentState m"
    using Run_request_reports[OF req] Run_request_frame[OF req] getNewState_frame[OF new]
    by (simp add: msm_reports_def)
  show ?case
  proof (cases "st = MACHINE_STATE_SHUTTINGDOWN")
    case True
    with 1(2) new req same show ?thesis by (subst (asm) Run_enter.simps) simp
  next
    case False
    with 1(2) new req have "Run_enter reply junk m2 = Some (Inr m')"
      by (subst (asm) Run_enter.simps) simp
    with 1(1)[OF new refl refl req False] same show ?thesis by simp
  qed
qed

interpretation msm: app_lifecycle
  "\<lambda>m. msm_currentState m = Some MSM_Init" "\<lambda>m. msm_currentState m = Some MSM_Run"
  "\<lambda>a b. msm_init reply a = Inr b" "\<lambda>a b. msm_run reply junk a = Some (Inr b)"
  "\<lambda>a b. b = msm_performAction a" "\<lambda>a b. msm_terminate a = Inr b" msm_reports
  for reply junk
proof unfold_locales
  fix a b :: msm
  show "msm_init reply a = Inr b \<Longrightarrow>
      msm_currentState b = Some MSM_Init \<and> msm_reports b = msm_reports a @ [K_INITIALIZING]"
    by (auto simp: msm_op_defs msm_reports_def std_simps)
  show "msm_currentState a = Some MSM_Init \<Longrightarrow> msm_run reply junk a = Some (Inr b) \<Longrightarrow>
      msm_currentState b = Some MSM_Run \<and> msm_reports b = msm_reports a @ [K_RUNNING]"
    using Run_enter_frame[of reply junk "(msm_leave MSM_Init a)\<lparr>msm_currentState := Some MSM_Run\<rparr>" b]
    by (simp add: msm_run_def msm_op_defs msm_reports_def)
  show "msm_currentState a = Some MSM_Run \<Longrightarrow> b = msm_performAction a \<Longrightarrow>
      msm_currentState b = Some MSM_Run \<and> (\<exists>n. msm_reports b = msm_reports a @ replicate n K_RUNNING)"
    by (auto simp: msm_performAction_def intro: exI[of _ 0])
  show "msm_currentState a = Some MSM_Run \<Longrightarrow> msm_terminate a = Inr b \<Longrightarrow>
      msm_reports b = msm_reports a @ [K_SHUTTINGDOWN]"
    by (auto simp: msm_op_defs msm_reports_def)
qed

lemma performAction_pow [simp]: "(msm_performAction ^^ n) m = m"
  by (induction n) (simp_all add: msm_performAction_def)

section \<open>Properties\<close>

definition sample_storage :: KeyValueStorage where
  "sample_storage = \<lparr>dbLocation = MSM_STATE_PROVIDER, kvs_data = JNull\<rparr>"

definition sample_msm :: "string list \<Rightarrow> msm" where
  "sample_msm inputs =
     MachineStateManager_init [''Running'', ''Suspend'', ''Shuttingdown''] sample_storage (\<lambda>_. None) inputs"



text \<open>
  A machine state manager that is restarted takes up where the previous one stopped; the state goes
  through the JSON text of the storage file.
\<close>

lemma msm_restart:
  assumes "kvs_wf (kvs_data (msm_persistentStorage m))" "dumpable (kvs_data (msm_persistentStorage m))"
    and "utf8_valid st" "dbLocation (msm_persistentStorage m) = db"
    and "\<And>h. \<exists>r. reply h = Inr r" "Run_request reply junk st m = Inr m'"
  shows "\<exists>storage. KeyValueStorage_init strtod (msm_fs m') db = Inr storage \<and>
           kvs_wf (kvs_data storage) \<and> dumpable (kvs_data storage) \<and>
           waitingStates (MachineStateManager_init states storage (msm_fs m') inputs) =
             (if st = MACHINE_STATE_SHUTTINGDOWN then inputs else st # inputs)"
proof -
  let ?s = "msm_persistentStorage m"
  from Run_request_spec[where reply = reply and st = st and junk = junk, OF assms(1,5)] assms(6) have
    sto: "msm_persistentStorage m' = kvs_put STATE_KEY st ?s"
    and fs: "msm_fs m' = snd (SyncToStorage junk (msm_persistentStorage m') (msm_fs m))" by auto
  have "utf8_valid STATE_KEY" by (rule ascii_utf8) (simp add: ascii_def STATE_KEY_def)
  with kvs_put_wf[OF assms(1)] kvs_put_dumpable[OF assms(1,2)] assms(3) have
    ok: "kvs_wf (kvs_data (kvs_put STATE_KEY st ?s))" "dumpable (kvs_data (kvs_put STATE_KEY st ?s))" by simp_all
  have "KeyValueStorage_init strtod (msm_fs m') db = Inr (kvs_put STATE_KEY st ?s)"
    using sync_init[OF ok prod.collapse[symmetric]] assms(4) by (simp add: fs sto)
  moreover have "contents (kvs_put STATE_KEY st ?s) STATE_KEY = Some st"
    using kvs.get_put[OF assms(1)] by simp
  ultimately show ?thesis
    using ok by (simp add: waitingStates_def remembered_def MachineStateManager_init_def)
qed

text \<open>
  A machine state manager that ends has reported exactly Initializing, Running and Shuttingdown
  to the execution manager, in this order (Running possibly more than once), as every adaptive
  application does.
\<close>

theorem msm_reports_its_life:
  assumes "msm_main reply junk k (MachineStateManager_init states storage fs inputs) = Some (Inr m)"
  shows "\<exists>n. msm_reports m = [K_INITIALIZING] @ replicate (Suc n) K_RUNNING @ [K_SHUTTINGDOWN]"
proof -
  let ?m0 = "MachineStateManager_init states storage fs inputs"
  from assms obtain m1 m2 where life: "msm_init reply ?m0 = Inr m1"
    "msm_run reply junk m1 = Some (Inr m2)" "msm_terminate m2 = Inr m"
    by (auto simp: msm_main_def split: sum.splits option.splits)
  have "msm_reports ?m0 = []" by (simp add: msm_reports_def MachineStateManager_init_def)
  with msm.life_reports[OF life(1,2) rtranclp.rtrancl_refl life(3)] show ?thesis by simp
qed

theorem msm_reports_its_life_witness:
  "\<exists>m n. msm_main (\<lambda>_. Inr K_SUCCESS) 0 0 (sample_msm [''Shuttingdown'']) = Some (Inr m) \<and>
     msm_reports m = [K_INITIALIZING] @ replicate (Suc n) K_RUNNING @ [K_SHUTTINGDOWN]"
proof -
  have "\<exists>m. msm_main (\<lambda>_. Inr K_SUCCESS) 0 0 (sample_msm [''Shuttingdown'']) = Some (Inr m)"
    by (simp add: msm_main_def msm_op_defs msm_run_def Run_enter.simps Run_request_def getNewState_def
        getNewStateForStartRun_def sample_msm_def MachineStateManager_init_def sample_storage_def
        GetValue_def HasKey_def msm_getData_def msm_setMachineState_def saveReceivedState_def SetValue_def
        kvs_round_trip machine_state_defs)
  then show ?thesis
    using msm_reports_its_life unfolding sample_msm_def by blast
qed

end
