(* ===== verification/Listener.thy ===== *)
theory Listener
  imports Clients
begin

text \<open>
  The listener thread of \<^verbatim>\<open>common/machine_state_client/src/machine_state_client.cpp\<close>: how
  \<open>startServer\<close> starts it and how the destructor stops it. Two threads share the members
  \<open>m_serverExecutor\<close> and \<open>m_listenFulfiller\<close>; they interleave at every statement that touches a
  member or waits for the other thread. The destructor of
  \<^verbatim>\<open>common/component/src/component_client.cpp\<close> has the same code, on members that nothing assigns.
  The lemmas show that no step waits for ever and that the members are never used while the other
  thread may change them.
\<close>

section \<open>State\<close>

text \<open>
  The thread that owns the client: before \<open>Register\<close>, waiting in \<open>startServer\<close>, registered; then in
  the destructor at the lock of the executor, in \<open>executeSync\<close>, destroying the members (where the
  destructor of \<^verbatim>\<open>kj::Thread\<close> joins), and done.
\<close>

datatype owner_pc =
    OwnIdle
  | OwnStarting
  | OwnRegistered
  | OwnLock
  | OwnExecute
  | OwnJoin
  | OwnGone

text \<open>
  The listener thread: not started, before \<open>listen\<close>, and then after each statement of the lambda:
  listening, executor stored, fulfiller stored, waiting for the exit promise (where its event loop
  runs), asleep on the way out, ended.
\<close>

datatype listener_pc =
    LNone
  | LSetup
  | LListening
  | LExecutor
  | LFulfiller
  | LServing
  | LLeaving
  | LEnded

text \<open>
  \<open>m_serverExecutor\<close> and \<open>m_listenFulfiller\<close> tell whether the member is set; \<open>syncTask\<close> is whether
  the lambda of \<open>executeSync\<close> is queued at the listener's loop and has not run yet. An exception that
  leaves the lambda of the thread, which is \<^verbatim>\<open>noexcept\<close>, terminates the process.
\<close>

record listener =
  ownerPc :: owner_pc
  listenerPc :: listener_pc
  m_serverExecutor :: bool
  m_listenFulfiller :: bool
  startUpPromise :: bool
  syncTask :: bool
  exitFulfilled :: bool
  processTerminated :: bool

definition listener_init :: listener where
  "listener_init =
     \<lparr>ownerPc = OwnIdle, listenerPc = LNone, m_serverExecutor = False, m_listenFulfiller = False,
      startUpPromise = False, syncTask = False, exitFulfilled = False,
      processTerminated = False\<rparr>"

section \<open>The thread of the owner\<close>

definition startServer :: "listener \<Rightarrow> listener" where
  "startServer s = s\<lparr>ownerPc := OwnStarting, listenerPc := LSetup\<rparr>"

definition startServer_wait :: "listener \<Rightarrow> listener option" where
  "startServer_wait s = (if startUpPromise s then Some (s\<lparr>ownerPc := OwnRegistered\<rparr>) else None)"

definition MachineStateClient_destroy :: "listener \<Rightarrow> listener" where
  "MachineStateClient_destroy s =
     (if \<not> m_listenFulfiller s then s\<lparr>ownerPc := OwnJoin\<rparr> else s\<lparr>ownerPc := OwnLock\<rparr>)"

definition destroy_lock :: "listener \<Rightarrow> listener option" where
  "destroy_lock s =
     (if m_serverExecutor s then Some (s\<lparr>ownerPc := OwnExecute, syncTask := True\<rparr>) else None)"

definition destroy_executed :: "listener \<Rightarrow> listener option" where
  "destroy_executed s = (if syncTask s then None else Some (s\<lparr>ownerPc := OwnJoin\<rparr>))"

text \<open>\<open>m_serverThread\<close> is null when the client never registered.\<close>

definition destroy_join :: "listener \<Rightarrow> listener option" where
  "destroy_join s =
     (if listenerPc s \<in> {LNone, LEnded} then Some (s\<lparr>ownerPc := OwnGone\<rparr>) else None)"

text \<open>One step of the owner; \<open>None\<close> while it waits for the listener or has nothing left to do.\<close>

fun owner_step :: "owner_pc \<Rightarrow> listener \<Rightarrow> listener option" where
  "owner_step OwnStarting s = startServer_wait s"
| "owner_step OwnLock s = destroy_lock s"
| "owner_step OwnExecute s = destroy_executed s"
| "owner_step OwnJoin s = destroy_join s"
| "owner_step _ s = None"

section \<open>The listener thread\<close>

text \<open>
  The statements of the lambda. While it waits for the exit promise, the event loop of the thread
  runs the queued lambda of the destructor, which fulfils the promise.
\<close>

fun listener_step :: "listener_pc \<Rightarrow> listener \<Rightarrow> listener option" where
  "listener_step LSetup s = Some (s\<lparr>listenerPc := LListening\<rparr>)"
| "listener_step LListening s = Some (s\<lparr>listenerPc := LExecutor, m_serverExecutor := True\<rparr>)"
| "listener_step LExecutor s = Some (s\<lparr>listenerPc := LFulfiller, m_listenFulfiller := True\<rparr>)"
| "listener_step LFulfiller s = Some (s\<lparr>listenerPc := LServing, startUpPromise := True\<rparr>)"
| "listener_step LServing s =
     (if syncTask s then Some (s\<lparr>syncTask := False, exitFulfilled := True\<rparr>)
      else if exitFulfilled s then Some (s\<lparr>listenerPc := LLeaving\<rparr>)
      else None)"
| "listener_step LLeaving s = Some (s\<lparr>listenerPc := LEnded\<rparr>)"
| "listener_step _ s = None"

text \<open>
  The statements that can throw: everything up to \<open>listen\<close>, and the wait, when the listening
  itself fails.
\<close>

definition listener_throws :: "listener \<Rightarrow> listener option" where
  "listener_throws s =
     (if listenerPc s \<in> {LSetup, LServing} then Some (s\<lparr>processTerminated := True\<rparr>) else None)"

section \<open>Runs\<close>

datatype listener_event =
    EvRegister
  | EvDestroy
  | EvOwner
  | EvListener
  | EvThrow

text \<open>The machine state manager registers its client once.\<close>

definition listener_exec :: "listener_event \<Rightarrow> listener \<Rightarrow> listener option" where
  "listener_exec ev s =
     (if processTerminated s then None
      else case ev of
        EvRegister \<Rightarrow> if ownerPc s = OwnIdle then Some (startServer s) else None
      | EvDestroy \<Rightarrow>
          if ownerPc s \<in> {OwnIdle, OwnRegistered} then Some (MachineStateClient_destroy s) else None
      | EvOwner \<Rightarrow> owner_step (ownerPc s) s
      | EvListener \<Rightarrow> listener_step (listenerPc s) s
      | EvThrow \<Rightarrow> listener_throws s)"

inductive listener_run :: "listener_event list \<Rightarrow> listener \<Rightarrow> bool" where
  listener_start: "listener_run [] listener_init"
| listener_next: "listener_run evs s \<Longrightarrow> listener_exec ev s = Some s' \<Longrightarrow> listener_run (evs @ [ev]) s'"

text \<open>
  \<^verbatim>\<open>ComponentClient::~ComponentClient\<close>: the same statements on the members of a component client;
  \<open>None\<close> while it waits.
\<close>

definition ComponentClient_destroy :: "listener \<Rightarrow> listener option" where
  "ComponentClient_destroy s =
     (if \<not> m_listenFulfiller s then Some s
      else if \<not> m_serverExecutor s then None
      else if listenerPc s = LServing then listener_step LServing (s\<lparr>syncTask := True\<rparr>)
      else None)"

section \<open>The invariant\<close>

text \<open>How far each thread is, and with it which statements are still to come.\<close>

fun owner_rank :: "owner_pc \<Rightarrow> nat" where
  "owner_rank OwnIdle = 6"
| "owner_rank OwnStarting = 5"
| "owner_rank OwnRegistered = 4"
| "owner_rank OwnLock = 3"
| "owner_rank OwnExecute = 2"
| "owner_rank OwnJoin = 1"
| "owner_rank OwnGone = 0"

fun listener_rank :: "listener_pc \<Rightarrow> nat" where
  "listener_rank LNone = 7"
| "listener_rank LSetup = 7"
| "listener_rank LListening = 6"
| "listener_rank LExecutor = 5"
| "listener_rank LFulfiller = 4"
| "listener_rank LServing = 2"
| "listener_rank LLeaving = 1"
| "listener_rank LEnded = 0"

definition listener_measure :: "listener \<Rightarrow> nat" where
  "listener_measure s =
     (if processTerminated s then 0
      else owner_rank (ownerPc s) + listener_rank (listenerPc s) +
        (if listenerPc s = LServing \<and> \<not> exitFulfilled s then 1 else 0))"

text \<open>
  Each member is set exactly when the listener has passed the statement that sets it; until then
  the owner, unless it never registered, waits in \<open>startServer\<close>.
\<close>

definition members_inv :: "listener \<Rightarrow> bool" where
  "members_inv s \<longleftrightarrow>
     (m_serverExecutor s \<longleftrightarrow> listenerPc s \<notin> {LNone, LSetup, LListening}) \<and>
     (m_listenFulfiller s \<longleftrightarrow> listenerPc s \<notin> {LNone, LSetup, LListening, LExecutor}) \<and>
     (startUpPromise s \<longleftrightarrow> listenerPc s \<in> {LServing, LLeaving, LEnded})"

definition owner_inv :: "listener \<Rightarrow> bool" where
  "owner_inv s \<longleftrightarrow>
     (if listenerPc s = LNone then ownerPc s \<in> {OwnIdle, OwnJoin, OwnGone}
      else ownerPc s = OwnStarting \<or> startUpPromise s \<and> ownerPc s \<noteq> OwnIdle)"

text \<open>The exit promise is fulfilled by the destructor only, which then waits for the thread.\<close>

definition exit_inv :: "listener \<Rightarrow> bool" where
  "exit_inv s \<longleftrightarrow>
     (syncTask s \<longrightarrow> ownerPc s = OwnExecute \<and> \<not> exitFulfilled s) \<and>
     (ownerPc s = OwnExecute \<longrightarrow> syncTask s \<or> exitFulfilled s) \<and>
     (exitFulfilled s \<longrightarrow> ownerPc s \<in> {OwnExecute, OwnJoin, OwnGone}) \<and>
     (listenerPc s \<in> {LLeaving, LEnded} \<longrightarrow> exitFulfilled s) \<and>
     (ownerPc s \<in> {OwnJoin, OwnGone} \<longrightarrow> listenerPc s = LNone \<or> exitFulfilled s) \<and>
     (ownerPc s = OwnGone \<longrightarrow> listenerPc s \<in> {LNone, LEnded})"

lemmas listener_invs = members_inv_def owner_inv_def exit_inv_def

abbreviation listener_inv :: "listener \<Rightarrow> bool" where
  "listener_inv s \<equiv> members_inv s \<and> owner_inv s \<and> exit_inv s"

lemmas listener_defs = startServer_def startServer_wait_def MachineStateClient_destroy_def
  destroy_lock_def destroy_executed_def destroy_join_def listener_throws_def listener_exec_def

lemma owner_step_inv:
  assumes "listener_inv s" "owner_step (ownerPc s) s = Some s'"
  shows "listener_inv s'"
  using assms
  by (cases "ownerPc s"; clarsimp simp: listener_defs split: if_splits)
    (simp_all add: listener_invs split: if_splits, blast+)

lemma listener_step_inv:
  assumes "listener_inv s" "listener_step (listenerPc s) s = Some s'"
  shows "listener_inv s'"
  using assms
  by (cases "listenerPc s"; clarsimp split: if_splits)
    (simp_all add: listener_invs split: if_splits, blast+)

lemma listener_exec_inv:
  assumes "listener_inv s" "listener_exec ev s = Some s'"
  shows "listener_inv s'"
proof (cases "ev = EvOwner \<or> ev = EvListener")
  case True
  with assms owner_step_inv[of s s'] listener_step_inv[of s s'] show ?thesis
    by (auto simp: listener_exec_def split: if_splits)
next
  case False
  with assms show ?thesis
    by (cases ev; cases "ownerPc s"; clarsimp simp: listener_defs split: if_splits)
      (simp_all add: listener_invs split: if_splits, blast+)
qed

lemma listener_exec_measure:
  assumes "listener_inv s" "listener_exec ev s = Some s'"
  shows "listener_measure s' < listener_measure s"
proof (cases ev)
  case EvOwner
  with assms(2) show ?thesis
    by (cases "ownerPc s"; clarsimp simp: listener_defs split: if_splits)
      (simp_all add: listener_measure_def)
next
  case EvListener
  with assms show ?thesis
    by (cases "listenerPc s"; clarsimp simp: listener_exec_def split: if_splits)
      (simp_all add: listener_measure_def exit_inv_def)
qed (use assms in \<open>clarsimp simp: listener_defs split: if_splits; auto simp: listener_measure_def owner_inv_def split: if_splits\<close>)+

lemma listener_run_inv:
  "listener_run evs s \<Longrightarrow> listener_inv s \<and> length evs + listener_measure s \<le> 13"
proof (induction rule: listener_run.induct)
  case listener_start
  show ?case by (simp add: listener_init_def listener_measure_def listener_invs)
next
  case (listener_next evs s ev s')
  with listener_exec_inv[of s ev s'] listener_exec_measure[of s ev s'] show ?case by simp
qed

lemma listener_progress:
  assumes "listener_inv s" "\<not> processTerminated s" "ownerPc s \<notin> {OwnIdle, OwnRegistered, OwnGone}"
  shows "listener_exec EvOwner s \<noteq> None \<or> listener_exec EvListener s \<noteq> None"
  using assms
  by (cases "ownerPc s"; cases "listenerPc s") (simp_all add: listener_defs listener_invs)

text \<open>
  A component client never starts a thread: its destructor returns at once, with nothing to stop.
\<close>

lemma component_client_destroyed: "ComponentClient_destroy listener_init = Some listener_init"
  by (simp add: ComponentClient_destroy_def listener_init_def)

section \<open>Properties\<close>

text \<open>
  C20. The listener thread of a machine state client is started and stopped safely, in every
  interleaving of the two threads. The listener stores the members \<open>m_serverExecutor\<close> and
  \<open>m_listenFulfiller\<close> only while the owner waits in \<open>startServer\<close>, and both are set once the client is
  registered. Whenever the owner waits, in \<open>startServer\<close> or in the destructor, one of the threads can
  go on, and a run has at most thirteen steps, so that neither deadlocks: unless the listening fails, which
  terminates the process, the destructor returns. When it has returned, the thread has ended or was
  never started.
\<close>

theorem listener_lifecycle:
  assumes "listener_run evs s"
  shows "length evs \<le> 13 \<and>
         (listenerPc s \<in> {LListening, LExecutor} \<longrightarrow> ownerPc s = OwnStarting) \<and>
         (ownerPc s = OwnRegistered \<longrightarrow> m_serverExecutor s \<and> m_listenFulfiller s) \<and>
         (ownerPc s \<notin> {OwnIdle, OwnRegistered, OwnGone} \<and> \<not> processTerminated s \<longrightarrow>
            listener_exec EvOwner s \<noteq> None \<or> listener_exec EvListener s \<noteq> None) \<and>
         (ownerPc s = OwnGone \<longrightarrow> listenerPc s \<in> {LNone, LEnded})"
proof -
  from listener_run_inv[OF assms] have inv: "listener_inv s" and len: "length evs \<le> 13" by auto
  from inv have "listenerPc s \<in> {LListening, LExecutor} \<longrightarrow> ownerPc s = OwnStarting"
    by (auto simp: members_inv_def owner_inv_def)
  moreover from inv have "ownerPc s = OwnRegistered \<longrightarrow> m_serverExecutor s \<and> m_listenFulfiller s"
    by (cases "listenerPc s") (auto simp: members_inv_def owner_inv_def)
  moreover from inv have "ownerPc s = OwnGone \<longrightarrow> listenerPc s \<in> {LNone, LEnded}"
    by (simp add: exit_inv_def)
  ultimately show ?thesis using len listener_progress[OF inv] by blast
qed

fun listener_execs :: "listener_event list \<Rightarrow> listener \<Rightarrow> listener option" where
  "listener_execs [] s = Some s"
| "listener_execs (ev # evs) s = Option.bind (listener_exec ev s) (listener_execs evs)"

lemma listener_execs_run:
  "listener_run evs0 s \<Longrightarrow> listener_execs evs s = Some s' \<Longrightarrow> listener_run (evs0 @ evs) s'"
proof (induction evs arbitrary: evs0 s)
  case (Cons ev evs)
  then obtain s1 where "listener_exec ev s = Some s1" "listener_execs evs s1 = Some s'"
    by (auto simp: bind_eq_Some_conv)
  with Cons.IH[OF listener_next[OF Cons.prems(1)]] show ?case by fastforce
qed simp

definition full_life :: "listener_event list" where
  "full_life =
     [EvRegister, EvListener, EvListener, EvListener, EvListener, EvOwner, EvDestroy, EvOwner, EvListener,
      EvOwner, EvListener, EvListener, EvOwner]"

theorem listener_lifecycle_witness:
  "\<exists>s. listener_execs full_life listener_init = Some s \<and> ownerPc s = OwnGone \<and>
       listenerPc s \<in> {LNone, LEnded} \<and> length full_life \<le> 13"
proof -
  have "map_option ownerPc (listener_execs full_life listener_init) = Some OwnGone" by code_simp
  then obtain s where s: "listener_execs full_life listener_init = Some s" "ownerPc s = OwnGone" by auto
  from listener_lifecycle[OF listener_execs_run[OF listener_start s(1)]] s(2) show ?thesis
    by (intro exI[of _ s] conjI) (use s(1) in simp_all)
qed

end
