(* ===== verification/Em_Main.thy ===== *)
theory Em_Main
  imports Em_History Clients
begin

text \<open>
  \<^verbatim>\<open>applications/ExecutionManager/src/em_main.cpp\<close>: the process of the execution manager from its
  start to the point where it serves requests, and what happens to the worker thread when the
  server is destroyed on the way out. The operating system, the manifests and the RPC library are
  parameters. The lemmas say when the manager comes to serve, and whether the destructor returns.
\<close>

section \<open>main\<close>

text \<open>
  Where \<open>main\<close> gets to: it serves requests; it returns \<^verbatim>\<open>EXIT_SUCCESS\<close> after printing the
  description of a \<^verbatim>\<open>kj::Exception\<close>; it first has to destroy a server that already runs, because
  the exception came after its construction; or an exception that is not caught ends the process.
\<close>

datatype em_process =
    EmServing em_server ExecutionManagerClient
  | EmExit string
  | EmUnwinding em_server string
  | EmUncaught exn

text \<open>
  \<open>io\<close> is the result of \<^verbatim>\<open>kj::setupAsyncIo\<close>, \<open>parseAddress\<close> and \<open>listen\<close> those of the calls of the same
  names, with the description of the exception when they throw; \<open>listen\<close> depends on the files that
  exist. Ignoring SIGCHLD only has an effect on child processes.
\<close>

definition em_main ::
    "(string + unit) \<Rightarrow> (string \<Rightarrow> string + unit) \<Rightarrow> ((string \<Rightarrow> string option) \<Rightarrow> string \<Rightarrow> string + unit)
       \<Rightarrow> (string \<Rightarrow> string + string list) \<Rightarrow> (string \<Rightarrow> string option) \<Rightarrow> (string \<Rightarrow> 64 word)
       \<Rightarrow> em_process" where
  "em_main io parseAddress listen readdir fs strtod =
     (let fs' = fs(EM_SOCKET_NAME := None)
      in case io of Inl description \<Rightarrow> EmExit description
         | Inr _ \<Rightarrow>
           (case getStatesSupportedByApplication default_conf readdir fs' strtod of Inl e \<Rightarrow> EmUncaught e
            | Inr statesSupported \<Rightarrow>
              (case getMachineStates default_conf fs' strtod of Inl e \<Rightarrow> EmUncaught e
               | Inr machineStates \<Rightarrow>
                 (let server = ExecutionManagerServer_init
                        (ExecutionManager_init statesSupported machineStates) MsmHandler_init;
                      address = IPC_PROTOCOL @ EM_SOCKET_NAME
                  in case parseAddress address of Inl description \<Rightarrow> EmUnwinding server description
                     | Inr _ \<Rightarrow>
                       (case listen fs' address of Inl description \<Rightarrow> EmUnwinding server description
                        | Inr _ \<Rightarrow> EmServing server em_main_client)))))"

section \<open>The manifests and the socket\<close>

text \<open>Removing the socket does not touch a manifest.\<close>

lemma socket_is_no_manifest:
  "pathToApplicationsFolder default_conf @ file \<noteq> EM_SOCKET_NAME"
  "machineManifestFilePath default_conf \<noteq> EM_SOCKET_NAME"
  by (simp_all add: default_conf_def EM_SOCKET_NAME_def)

lemma manifests_survive_unlink:
  "loadApplication default_conf (fs(EM_SOCKET_NAME := x)) strtod = loadApplication default_conf fs strtod"
  "getStatesSupportedByApplication default_conf readdir (fs(EM_SOCKET_NAME := x)) strtod =
     getStatesSupportedByApplication default_conf readdir fs strtod"
  "getMachineStates default_conf (fs(EM_SOCKET_NAME := x)) strtod = getMachineStates default_conf fs strtod"
proof -
  show load: "loadApplication default_conf (fs(EM_SOCKET_NAME := x)) strtod = loadApplication default_conf fs strtod"
    using socket_is_no_manifest(1) by (auto simp: loadApplication_def getJsonData_def)
  show "getStatesSupportedByApplication default_conf readdir (fs(EM_SOCKET_NAME := x)) strtod =
     getStatesSupportedByApplication default_conf readdir fs strtod"
    by (simp add: getStatesSupportedByApplication_def load)
  show "getMachineStates default_conf (fs(EM_SOCKET_NAME := x)) strtod = getMachineStates default_conf fs strtod"
    using socket_is_no_manifest(2) by (simp add: getMachineStates_def getJsonData_def)
qed

section \<open>Destroying the server\<close>

text \<open>
  While \<open>~ExecutionManagerServer\<close> waits in \<open>join\<close>, the RPC thread is the one that waits: only the
  worker takes steps. The destructor returns when the worker has ended.
\<close>

fun rpc_free :: "srv_event list \<Rightarrow> bool" where
  "rpc_free [] \<longleftrightarrow> True"
| "rpc_free (Rpc _ _ # tr) \<longleftrightarrow> False"
| "rpc_free (_ # tr) \<longleftrightarrow> rpc_free tr"

fun takes :: "srv_event list \<Rightarrow> nat" where
  "takes [] = 0"
| "takes (Take _ # tr) = Suc (takes tr)"
| "takes (_ # tr) = takes tr"

lemma rpc_free_append [simp]: "rpc_free (tr @ tr') \<longleftrightarrow> rpc_free tr \<and> rpc_free tr'"
  by (induction tr rule: rpc_free.induct) auto

lemma takes_append [simp]: "takes (tr @ tr') = takes tr + takes tr'"
  by (induction tr rule: takes.induct) auto

definition joined :: "em_server \<Rightarrow> srv_event list \<Rightarrow> em_server \<Rightarrow> bool" where
  "joined s tr s' \<longleftrightarrow> srv_run (srv_destroy s) tr s' \<and> rpc_free tr \<and> m_setMachineStateThread s' = TExit"

lemma srv_work_keeps:
  "srv_work alive st pc s = (r, s') \<Longrightarrow>
   isRunning s' = isRunning s \<and> m_setMachineStateThread s' \<noteq> TWait \<and> m_setMachineStateThread s' \<noteq> TExit"
  by (auto simp: srv_work_def Let_def split: prod.splits wpc.splits)

lemma srv_take_keeps:
  "srv_take s = Some (func, s') \<Longrightarrow>
   isRunning s' = isRunning s \<and> m_setMachineStateThread s' \<noteq> TWait \<and> m_setMachineStateThread s' \<noteq> TExit"
  by (auto simp: srv_take_def split: option.splits)

text \<open>After the flag is cleared the worker does not come back to its wait.\<close>

lemma destroyed_run:
  assumes "srv_run (srv_destroy s) tr s'" "rpc_free tr"
  shows "\<not> isRunning s' \<and> takes tr \<le> 1 \<and> (takes tr = 1 \<longrightarrow> m_setMachineStateThread s = TWait) \<and>
         (m_setMachineStateThread s' = TWait \<longrightarrow> tr = [])"
  using assms
proof (induction "srv_destroy s" tr s' rule: srv_run.induct)
  case run_nil
  then show ?case by (simp add: srv_destroy_def)
next
  case (run_snoc tr s1 ev s2)
  then have IH: "\<not> isRunning s1" "takes tr \<le> 1" "takes tr = 1 \<longrightarrow> m_setMachineStateThread s = TWait"
    "m_setMachineStateThread s1 = TWait \<longrightarrow> tr = []" and ev: "rpc_free [ev]" by auto
  from run_snoc.hyps(1) IH(4) have start: "m_setMachineStateThread s1 = TWait \<Longrightarrow> m_setMachineStateThread s = TWait"
    by (auto elim: srv_run_nilE simp: srv_destroy_def)
  from run_snoc.hyps(3) ev IH start show ?case
    by (cases rule: srv_step.cases) (auto simp: srv_loop_def dest!: srv_work_keeps srv_take_keeps)
qed

text \<open>A worker that waits at the empty queue is not woken, so that the destructor does not return.\<close>

lemma waiting_worker_stays:
  assumes "srv_run (srv_destroy s) tr s'" "rpc_free tr"
    and "m_setMachineStateThread s = TWait" "m_methodsQueue (em_server_queue s) = []"
  shows "s' = srv_destroy s"
  using assms(1,2)
proof (induction "srv_destroy s" tr s' rule: srv_run.induct)
  case (run_snoc tr s1 ev s2)
  then have "s1 = srv_destroy s" "rpc_free [ev]" by auto
  with run_snoc.hyps(3) assms(3,4) show ?case
    by (cases rule: srv_step.cases) (auto simp: srv_destroy_def srv_take_def getExecutor_take_def)
qed simp

lemma waiting_worker_never_joined:
  "m_setMachineStateThread s = TWait \<Longrightarrow> m_methodsQueue (em_server_queue s) = [] \<Longrightarrow> \<not> joined s tr s'"
  using waiting_worker_stays[of s tr s'] by (auto simp: joined_def srv_destroy_def)

text \<open>
  The worker of a server that no one calls: Starting-up is unknown to the machine manifest, or the
  machine state manager does not come up within the six rounds. Either way it is back at its wait.
\<close>

definition idle_trace :: "string list \<Rightarrow> srv_event list" where
  "idle_trace states =
     (if MACHINE_STATE_STARTUP \<in> set states
      then LoopTest # Take (Some MACHINE_STATE_STARTUP) # replicate 9 Work @
           [Finished MACHINE_STATE_STARTUP K_INVALID_REQUEST, LoopTest]
      else [LoopTest, Take (Some MACHINE_STATE_STARTUP), Finished MACHINE_STATE_STARTUP K_INVALID_STATE, LoopTest])"

lemma rpc_free_idle_trace: "rpc_free (idle_trace states)"
  by (simp add: idle_trace_def numeral_eq_Suc)

lemma idle_server_waits:
  "\<exists>s. exec_run (\<lambda>_ _. False) (idle_trace states)
         (ExecutionManagerServer_init (ExecutionManager_init tab states) MsmHandler_init) = Some s \<and>
       m_setMachineStateThread s = TWait \<and> m_methodsQueue (em_server_queue s) = []"
proof -
  have "\<not> pollRound (\<lambda>_. False) apps" for apps
    by (simp add: pollRound_def list_ex_iff)
  then show ?thesis
    by (simp add: idle_trace_def ExecutionManagerServer_init_def ExecutionManager_init_def filterStates_def
        srv_loop_def srv_take_def getExecutor_take_def addMethod_def ThreadQueue_init_def srv_work_def
        checkRequest_def killProcessesForState_def timesToPollApps_def numeral_eq_Suc machine_state_defs Let_def)
qed

section \<open>Properties\<close>

text \<open>
  C19. When the execution manager comes to serve, provided that the RPC library can listen wherever
  no file is in the way: if and only if the applications directory can be opened, the manifest of
  every application in it can be read, parsed and converted, and so can the machine manifest; a
  socket left over by an earlier run does not matter. It then serves with the state built from the
  manifests. Otherwise an exception ends the process that \<open>main\<close> does not catch: a single bad manifest
  of any application keeps the whole machine from starting.
\<close>

theorem em_serves_iff:
  assumes "io = Inr ()" "parseAddress (IPC_PROTOCOL @ EM_SOCKET_NAME) = Inr ()"
    and "\<And>files. files EM_SOCKET_NAME = None \<Longrightarrow> listen files (IPC_PROTOCOL @ EM_SOCKET_NAME) = Inr ()"
  shows "((\<exists>server client. em_main io parseAddress listen readdir fs strtod = EmServing server client) \<longleftrightarrow>
            (\<exists>names. readdir (pathToApplicationsFolder default_conf) = Inr names \<and>
               (\<forall>file. file \<in> set names - {''.'', ''..''} \<longrightarrow>
                  (\<exists>m. loadApplication default_conf fs strtod file = Inr m))) \<and>
            (\<exists>states. getMachineStates default_conf fs strtod = Inr states)) \<and>
         (\<forall>tab states. getStatesSupportedByApplication default_conf readdir fs strtod = Inr tab \<and>
            getMachineStates default_conf fs strtod = Inr states \<longrightarrow>
            em_main io parseAddress listen readdir fs strtod =
              EmServing (ExecutionManagerServer_init (ExecutionManager_init tab states) MsmHandler_init)
                em_main_client) \<and>
         ((\<exists>server client. em_main io parseAddress listen readdir fs strtod = EmServing server client) \<or>
          (\<exists>e. em_main io parseAddress listen readdir fs strtod = EmUncaught e))"
proof -
  have main: "em_main io parseAddress listen readdir fs strtod =
      (case getStatesSupportedByApplication default_conf readdir fs strtod of Inl e \<Rightarrow> EmUncaught e
       | Inr tab \<Rightarrow>
         (case getMachineStates default_conf fs strtod of Inl e \<Rightarrow> EmUncaught e
          | Inr states \<Rightarrow>
            EmServing (ExecutionManagerServer_init (ExecutionManager_init tab states) MsmHandler_init)
              em_main_client))"
    using assms(3)[of "fs(EM_SOCKET_NAME := None)"]
    by (simp add: em_main_def assms(1,2) manifests_survive_unlink Let_def split: sum.split)
  show ?thesis
    unfolding table_built_iff[symmetric] by (auto simp: main split: sum.splits)
qed

theorem em_serves_iff_witness:
  "em_main (Inr ()) (\<lambda>_. Inr ()) (\<lambda>files _. if files EM_SOCKET_NAME = None then Inr () else Inl ''Address already in use'')
     sample_readdir (sample_fs(EM_SOCKET_NAME := Some [])) sample_strtod =
   EmServing (ExecutionManagerServer_init
       (ExecutionManager_init [(''Running'', [''App_proc1''])] [''Running'', ''Suspend'']) MsmHandler_init)
     em_main_client"
proof -
  let ?listen = "\<lambda>files (_::string). if (files :: string \<Rightarrow> string option) EM_SOCKET_NAME = None then Inr ()
    else Inl ''Address already in use''"
  have "getStatesSupportedByApplication default_conf sample_readdir (sample_fs(EM_SOCKET_NAME := Some [])) sample_strtod =
      Inr [(''Running'', [''App_proc1''])]"
    "getMachineStates default_conf (sample_fs(EM_SOCKET_NAME := Some [])) sample_strtod = Inr [''Running'', ''Suspend'']"
    using sample_table sample_machine_states by (simp_all add: manifests_survive_unlink)
  with em_serves_iff[of "Inr ()" "\<lambda>_. Inr ()" ?listen] show ?thesis by auto
qed

text \<open>
  C21. When listening fails, \<open>main\<close> destroys the server before it prints the reason, and whether
  that returns is a race with the worker thread, whatever the manifests say: it returns if the flag
  is cleared before the worker tests it for the first time; but in other runs the worker is already
  waiting at the empty queue when the flag is cleared, is never woken, and the process hangs. In
  no run does the worker start more than one request after the flag is cleared.
\<close>

theorem failed_listen_may_block:
  assumes "em_main io parseAddress listen readdir fs strtod = EmUnwinding server description"
  shows "(\<exists>tr s'. joined server tr s') \<and>
         (\<exists>tr s. srv_run server tr s \<and> rpc_free tr \<and> (\<forall>tr' s'. \<not> joined s tr' s')) \<and>
         (\<forall>s tr' s'. srv_run (srv_destroy s) tr' s' \<and> rpc_free tr' \<longrightarrow> takes tr' \<le> 1)"
proof -
  from assms obtain tab states where
    server: "server = ExecutionManagerServer_init (ExecutionManager_init tab states) MsmHandler_init"
    by (auto simp: em_main_def Let_def split: sum.splits)
  then have loop: "m_setMachineStateThread (srv_destroy server) = TLoop" "\<not> isRunning (srv_destroy server)"
    by (simp_all add: srv_destroy_def ExecutionManagerServer_init_def)
  with run_snoc[OF run_nil step_loop[OF loop(1)]]
  have "joined server [LoopTest] (srv_loop (srv_destroy server))"
    by (simp add: joined_def srv_loop_def)
  moreover from idle_server_waits[of states tab] obtain s where
    "exec_run (\<lambda>_ _. False) (idle_trace states) server = Some s"
    "m_setMachineStateThread s = TWait" "m_methodsQueue (em_server_queue s) = []"
    by (auto simp: server)
  then have "srv_run server (idle_trace states) s \<and> rpc_free (idle_trace states) \<and>
      (\<forall>tr' s'. \<not> joined s tr' s')"
    using exec_run_from_start rpc_free_idle_trace waiting_worker_never_joined by blast
  ultimately show ?thesis using destroyed_run by blast
qed

theorem failed_listen_may_block_witness:
  "\<exists>server. em_main (Inr ()) (\<lambda>_. Inr ()) (\<lambda>_ _. Inl ''Permission denied'') sample_readdir sample_fs sample_strtod =
       EmUnwinding server ''Permission denied'' \<and>
     (\<exists>tr s. srv_run server tr s \<and> rpc_free tr \<and> (\<forall>tr' s'. \<not> joined s tr' s'))"
proof -
  obtain server where server: "em_main (Inr ()) (\<lambda>_. Inr ()) (\<lambda>_ _. Inl ''Permission denied'')
      sample_readdir sample_fs sample_strtod = EmUnwinding server ''Permission denied''"
    by (simp add: em_main_def manifests_survive_unlink sample_table sample_machine_states)
  with failed_listen_may_block[OF server] show ?thesis by blast
qed

end
