(* ===== verification/Spec2Isabelle.thy ===== *)
theory Spec2Isabelle
  imports Em_Properties Em_History Clients Adaptive_App Msm Listener Em_Main
begin

text \<open>
  A verification development for the Execution Manager of an adaptive platform: the daemon that
  starts and stops the services of each machine state, the machine state manager that requests
  those states, the adaptive applications that report to the daemon, and the libraries they share.

  \<^bold>\<open>The parts and how they interact.\<close>
  The \<^emph>\<open>execution manager\<close> (EM, \<^verbatim>\<open>applications/ExecutionManager\<close>) reads the manifests once, keeps the
  table of services allowed in each machine state, and serves RPC calls. A request for a machine
  state is queued and executed by one worker thread: it kills the running services that the state
  does not allow, starts the missing ones, tells the subscribed components their state, and waits
  until the reports of the applications (and, for Running and Suspend, possibly the confirmations
  of the components) allow it to confirm. The \<^emph>\<open>machine state manager\<close> (MSM,
  \<^verbatim>\<open>applications/MachineStateManager\<close>) receives states on a socket, saves the last one in the
  key-value storage and requests it from the EM. The \<^emph>\<open>adaptive applications\<close>
  (\<^verbatim>\<open>applications/AdaptiveApplication1\<close> and \<^verbatim>\<open>AdaptiveApplication2\<close>) report their state to the EM, receive or
  poll component states and confirm them. \<^verbatim>\<open>common/\<close> holds manifests, queues, clients and the socket
  layer, \<^verbatim>\<open>per/\<close> the key-value storage.

  \<^bold>\<open>The theories.\<close>
  \<^item> \<^verbatim>\<open>Em_Prelude\<close>: results with exceptions and undefined behaviour as values (\<open>'a res\<close>),
    \<^verbatim>\<open>std::string\<close> with 64-bit positions, \<^verbatim>\<open>std::set\<close> and \<^verbatim>\<open>std::map\<close> as strictly sorted lists.
  \<^item> \<^verbatim>\<open>Common\<close> (\<^verbatim>\<open>common/other/src/common.cpp\<close>, \<^verbatim>\<open>logger.cpp\<close>, \<^verbatim>\<open>constants.hpp\<close>): constants, service names
    and the name an application reports under.
  \<^item> \<^verbatim>\<open>Queues\<close> (\<^verbatim>\<open>safe_queue.cpp\<close>, \<open>ThreadQueue\<close> of \<^verbatim>\<open>common.cpp\<close>): both queues; the locale \<open>fifo\<close> is
    their contract and is interpreted on both.
  \<^item> \<^verbatim>\<open>Json\<close>: the operations on JSON values of the vendored \<^verbatim>\<open>tools/json/json.hpp\<close> that the program
    calls.
  \<^item> \<^verbatim>\<open>Json_Lexer\<close>, \<^verbatim>\<open>Json_Parser\<close>, \<^verbatim>\<open>Json_Dom\<close> (classes \<open>lexer\<close>, \<open>parser\<close>, \<open>json_sax_acceptor\<close> and
    \<open>json_sax_dom_parser\<close> of the same file): from text to values, behind \<^verbatim>\<open>json::accept\<close> and
    \<^verbatim>\<open>operator>>\<close>. The locale \<open>sax_contract\<close> is the contract between the parser and its handlers,
    interpreted on both.
  \<^item> \<^verbatim>\<open>Json_Grisu\<close>, \<^verbatim>\<open>Json_Digits\<close> (namespace \<open>dtoa_impl\<close>, \<open>to_chars\<close>): the printing of doubles on 64-bit
    words, with every assertion of the source; \<^verbatim>\<open>Json_Double\<close> and \<^verbatim>\<open>Json_Number\<close> show with rational numbers
    that the printed text rounds back to the double.
  \<^item> \<^verbatim>\<open>Json_Utf8\<close>, \<^verbatim>\<open>Json_Escape\<close>, \<^verbatim>\<open>Json_Dump\<close> (class \<open>serializer\<close>): from values to text, behind \<^verbatim>\<open>operator<<\<close> and
    \<^verbatim>\<open>json::dump\<close>, compact or indented, with the UTF-8 decoder, the error handlers and the buffers.
    \<^verbatim>\<open>Json_Text\<close> gives the text of a value for every layout as a reference and shows that it is written.
  \<^item> \<^verbatim>\<open>Json_Round_Trip\<close>, \<^verbatim>\<open>Json_Literals\<close>: the lexer reads back tokens, white space and escaped code points.
    \<^verbatim>\<open>Json_Reading\<close> has a grammar of the texts of a value (\<open>json_texts\<close>) and that the parser reads every one
    of them; \<^verbatim>\<open>Json_Layout\<close> has the round trips; \<^verbatim>\<open>Json_Types\<close> that what the parser returns is well formed
    (locale \<open>sax_keeps\<close>).
  \<^item> \<^verbatim>\<open>Manifests\<close>, \<^verbatim>\<open>Manifest_Reader\<close>: the manifest structures with their conversions (locale
    \<open>json_codec\<close>), and the functions that build the table of allowed services and the list of
    machine states.
  \<^item> \<^verbatim>\<open>App_Handler\<close> (\<^verbatim>\<open>application_handler.cpp\<close>, \<^verbatim>\<open>msm_handler.cpp\<close>): starting, stopping and probing
    services, registration of the MSM.
  \<^item> \<^verbatim>\<open>Protocol\<close>: the enumerations of the interface files.
  \<^item> \<^verbatim>\<open>Exec_Manager\<close> (\<^verbatim>\<open>execution_manager.cpp\<close>): the class as the record \<open>em\<close>, one definition per
    method. \<open>setMachineState\<close> is given twice: as a function whose waiting loop receives the RPC calls
    of each iteration in a list, and statement by statement (\<open>worker_step\<close>) for interleaving.
  \<^item> \<^verbatim>\<open>Em_Operations\<close>: closed forms of its loops, the object invariant \<open>em_inv\<close>, and the locales
    \<open>em_operation\<close> and \<open>em_rpc_operation\<close> that every method instantiates.
  \<^item> \<^verbatim>\<open>Em_Transitions\<close>, \<^verbatim>\<open>Em_Worker\<close>, \<^verbatim>\<open>Em_Properties\<close>: when and how a request ends, the interleaving of
    worker and RPC thread (\<open>em_step\<close>), the simulation between the two forms, and the properties.
  \<^item> \<^verbatim>\<open>Em_Server\<close>, \<^verbatim>\<open>Em_History\<close> (\<^verbatim>\<open>execution_manager_server.cpp\<close>): handlers, request queue, worker
    thread and destructor as labelled steps (\<open>srv_step\<close>, \<open>srv_run\<close>); what every history satisfies.
  \<^item> \<^verbatim>\<open>Em_Main\<close> (\<^verbatim>\<open>em_main.cpp\<close>): the process of the EM from its start until it serves, with every way in
    which it can fail, and the destruction of a server whose worker already runs.
  \<^item> \<^verbatim>\<open>Kvs\<close> (\<^verbatim>\<open>per/\<close>): the storage, with the locale \<open>key_value_store\<close>.
  \<^item> \<^verbatim>\<open>App_Lifecycle\<close>: the contract of \<^verbatim>\<open>api/include/i_adaptive_app.hpp\<close> as a locale, interpreted in
    \<^verbatim>\<open>Adaptive_App\<close> (\<^verbatim>\<open>adaptive_app.cpp\<close>, \<^verbatim>\<open>state.cpp\<close>, the three main programs) and \<^verbatim>\<open>Msm\<close>
    (\<^verbatim>\<open>machine_state_manager.cpp\<close>, \<^verbatim>\<open>msm_state_machine.cpp\<close>, \<^verbatim>\<open>msm_main.cpp\<close>).
  \<^item> \<^verbatim>\<open>Sockets\<close> (\<^verbatim>\<open>common/base_client\<close>, \<^verbatim>\<open>common/base_server\<close>, \<^verbatim>\<open>socket_server.cpp\<close>): the socket layer with its
    fixed buffers.
  \<^item> \<^verbatim>\<open>Clients\<close>: the application state, component, machine state and execution manager clients.
  \<^item> \<^verbatim>\<open>Listener\<close> (\<open>startServer\<close> and the destructor of \<^verbatim>\<open>machine_state_client.cpp\<close>, the destructor of
    \<^verbatim>\<open>component_client.cpp\<close>): start and stop of the listener thread, as two interleaved threads
    (\<open>listener_exec\<close>, \<open>listener_run\<close>).
  \<^item> this theory: the properties that span components.

  \<^bold>\<open>What the theorems show.\<close>
  For the EM: a successful request saw the services of its state running, whatever the interleaving;
  it made the expected calls in order; it returns exactly when such a moment comes; requests are
  served in the order they were accepted, and the machine state is that of the last success; the
  object invariant holds in every run; only the first registered MSM is served; the process comes to
  serve exactly when all manifests can be read. For JSON: the text
  written for a value is accepted and read back as that value; parsing ends on every text, and gives
  only well-formed values; the optimised writing of strings and integers equals a reference, and
  every printed double lies between the midpoints to its neighbours. For
  manifests and reader: round trips through the text of a file, and the table contains exactly what
  the manifests declare. For the MSM: it saves and requests exactly the declared states in order and,
  restarted on the file, resumes the saved one. For the
  applications: a process makes exactly the calls of a two-state automaton. For the storage, the
  queues, the sockets and the clients: the laws their users rely on, the exact conditions under
  which an operation has defined behaviour, and that the listener thread of a client starts and stops
  without a deadlock. Where the code departs from its purpose (an
  ignored result, the disjunctive wait for Running, a client that a timeout makes unusable, an
  address that no component listens on, a file that a failed write tears, a destructor that blocks) the theorem states the behaviour
  the code has.

  \<^bold>\<open>Parameters.\<close>
  The file system and directory listing are functions from paths; the answers of the operating
  system (\<^verbatim>\<open>fork\<close>, \<^verbatim>\<open>popen\<close>, \<^verbatim>\<open>recv\<close>, \<^verbatim>\<open>accept\<close>, \<open>isActiveProcess\<close>), of the RPC library (a reply or an
  exception) and of the message decoder are arguments of the operations that use them.
  Of the JSON library, \<open>strtod\<close> (the function of the C library) is a parameter, and so is the
  uninitialised code point \<open>junk\<close> of \<open>dump_escaped\<close>. Only the round trip of values with doubles asks
  something of \<open>strtod\<close>, that it rounds to nearest (\<open>rounds_nearest\<close>). A file can always be opened for
  writing.

  \<^bold>\<open>Loops and bounds.\<close>
  The waiting loop of \<open>setMachineState\<close> may run forever; it returns \<open>None\<close> when the given list of
  iterations is exhausted, and \<open>request_returns_iff\<close> says for which lists it returns. \<open>Run_enter\<close> of
  the MSM recurs over the states that arrive, with the number of those left as its measure; \<open>None\<close>
  means that it still waits for a state. The polling task makes the six rounds of the source. The
  loops of the JSON lexer and parser end because every round but the last consumes a character
  (\<open>remaining\<close>, \<open>parse_measure\<close>). The loops of Grisu2 are partial functions, shown to end for every
  finite double. A run of \<open>listener_exec\<close> has at most thirteen steps. All other loops are structural recursions. Strings are assumed shorter than \<open>2 ^ 64 - 1\<close> where a
  position is computed.

  \<^bold>\<open>Atomicity.\<close>
  A method of the EM that the RPC thread runs is one step: it takes its mutex once for all it
  changes. The worker is interleaved between its statements. The few accesses that the source makes
  outside a mutex are taken to be atomic.

  \<^bold>\<open>Not modelled.\<close>
  The text and time of log lines, sleeping, the mean calculator (its result influences nothing), the
  transport of RPC calls and the event loop of the RPC library, classes that only forward to the
  operating system or to another class, tests and mocks. Of the vendored JSON library, what the
  program does not use: binary formats, pointers and patches, iterators and callbacks while
  parsing.
\<close>

section \<open>Shared lemmas\<close>

lemma init_allowed:
  "allowed (m_allowedProcessesForState (ExecutionManager_init tab states)) st =
     (if st \<in> set states then allowed tab st else {})"
  by (simp add: ExecutionManager_init_def filterStates_def allowed_def map_keep_find)

section \<open>Manifests, reader and execution manager\<close>

text \<open>
  C7. Construction: an execution manager built from the manifests is well formed, and its table
  allows a service in a machine state exactly when the machine manifest declares the state and an
  installed application manifest declares the service for it.
\<close>

theorem construction_from_manifests:
  assumes "getStatesSupportedByApplication conf readdir fs strtod = Inr tab"
    and "getMachineStates conf fs strtod = Inr states"
    and "readdir (pathToApplicationsFolder conf) = Inr names"
  shows "em_inv (ExecutionManager_init tab states) \<and>
         (\<forall>st. allowed (m_allowedProcessesForState (ExecutionManager_init tab states)) st =
            (if st \<in> set states
             then {service. \<exists>file m. file \<in> set names - {''.'', ''..''} \<and>
                     loadApplication conf fs strtod file = Inr m \<and> declares m st service}
             else {}))"
  using table_declares[OF assms(1,3)] init_inv[of tab states] init_allowed[of tab states] by simp

theorem construction_from_manifests_witness:
  "em_inv (ExecutionManager_init [(''Running'', [''App_proc1''])] [''Running'', ''Suspend'']) \<and>
   allowed (m_allowedProcessesForState
     (ExecutionManager_init [(''Running'', [''App_proc1''])] [''Running'', ''Suspend''])) ''Living'' = {}"
proof -
  have "getMachineStates default_conf sample_fs sample_strtod = Inr [''Running'', ''Suspend'']"
    by (rule sample_machine_states)
  moreover have "sample_readdir (pathToApplicationsFolder default_conf) = Inr [''.'', ''..'', ''App'']"
    by (simp add: sample_readdir_def)
  ultimately show ?thesis
    using construction_from_manifests[OF sample_table] by auto
qed

section \<open>An application and the execution manager\<close>

text \<open>
  C15. Polling, end to end: a registered application that polls receives the component state of the
  execution manager, takes it over, and sends a confirmation that removes it from the components
  that the manager waits for. (The manager has set a component state, and the application runs in
  polling mode; its component name has no zero byte.)
\<close>

theorem poll_cycle_confirms:
  assumes "em_inv (m_em s)" "m_currentComponentState (m_em s) \<noteq> []"
    and "name \<in> set (m_registeredComponents (m_em s))" "CHR 0x00 \<notin> set name"
    and "aa_inv app" "\<not> aa_eventModeEnabled app"
    and "c = fst (ComponentClient_init name K_POLL)"
  shows "\<exists>rep state result app' status s'.
           srv_handle (cc_GetComponentState c) s = Inr (rep, s) \<and>
           cc_GetComponentState_reply rep = Some (state, result) \<and>
           aa_pollComponentState (state, result) app = Inr app' \<and>
           last (aa_calls app') = AAConfirm state status \<and>
           srv_handle (cc_ConfirmComponentState state status c) s = Inr (RepVoid, s') \<and>
           aa_componentState app' = m_currentComponentState (m_em s) \<and>
           set (m_componentPendingConfirms (m_em s')) = set (m_componentPendingConfirms (m_em s)) - {name}"
proof -
  let ?st = "m_currentComponentState (m_em s)"
  have st: "on_or_off ?st" using assms(1,2) by (auto simp: em_inv_def)
  have name: "c_str name = name" using assms(4) by simp
  from aa_inv_at[OF assms(5)] assms(6) have
    at: "app = aa_at False (aa_componentState app) (aa_calls app)" and cur: "on_or_off (aa_componentState app)"
    by auto
  let ?i = "\<lparr>in_queueElement = None, in_polled = (?st, CC_SUCCESS)\<rparr>"
  let ?status = "answerTo (aa_componentState app) ?st"
  let ?app = "aa_at False (fst (spec_handle ?st (aa_componentState app)))
      (aa_calls app @ snd (spec_handle ?st (aa_componentState app)))"
  have poll: "aa_pollComponentState (?st, CC_SUCCESS) app = Inr ?app"
    using pollComponentState_at[OF cur, of ?i False "aa_calls app"] at by (simp add: spec_react_def)
  have last: "last (aa_calls ?app) = AAConfirm ?st ?status" by (simp add: aa_at_def spec_handle_def)
  have adopt: "aa_componentState ?app = ?st"
    using st cur by (auto simp: aa_at_def spec_handle_def answerTo_def)
  have ok: "accepts ?status" using st by (auto simp: answerTo_def accepts_def)
  have get: "srv_handle (cc_GetComponentState c) s = Inr (RepComponentState ?st CC_SUCCESS, s)"
    using assms(3,7) name
    by (simp add: cc_GetComponentState_def ComponentClient_init_def srv_getComponentState_def
        getComponentState_def)
  have conf: "srv_handle (cc_ConfirmComponentState ?st ?status c) s =
      Inr (RepVoid, s\<lparr>m_em := confirmComponentState name (c_str ?st) ?status (m_em s)\<rparr>)"
    using assms(7) name
    by (simp add: cc_ConfirmComponentState_def ComponentClient_init_def srv_confirmComponentState_def)
  have pend: "set (m_componentPendingConfirms (confirmComponentState name (c_str ?st) ?status (m_em s))) =
      set (m_componentPendingConfirms (m_em s)) - {name}"
    using confirm_step[of name "c_str ?st" ?status "m_em s"] ok by simp
  show ?thesis
    by (intro exI[of _ "RepComponentState ?st CC_SUCCESS"] exI[of _ ?st] exI[of _ CC_SUCCESS] exI[of _ ?app]
        exI[of _ ?status] exI[of _ "s\<lparr>m_em := confirmComponentState name (c_str ?st) ?status (m_em s)\<rparr>"] conjI)
      (use get poll last conf adopt pend in simp_all)
qed

definition sample_poll_server :: em_server where
  "sample_poll_server =
     sample_server\<lparr>m_em := changeComponentsState (registerComponent ''app_a'' K_POLL sample_em)\<rparr>"

theorem poll_cycle_confirms_witness:
  "\<exists>app' status s'.
     aa_pollComponentState (''kOn'', CC_SUCCESS) (aa_at False ''kOff'' []) = Inr app' \<and>
     last (aa_calls app') = AAConfirm ''kOn'' status \<and> aa_componentState app' = ''kOn'' \<and>
     srv_handle (ReqConfirmComponentState ''app_a'' ''kOn'' status) sample_poll_server = Inr (RepVoid, s') \<and>
     set (m_componentPendingConfirms (m_em s')) = {}"
proof -
  let ?e = "changeComponentsState (registerComponent ''app_a'' K_POLL sample_em)"
  have inv: "em_inv ?e"
    using change.keeps_inv[OF rpc.keeps_inv[OF sample_inv, of "Register ''app_a'' K_POLL"]] by simp
  have st: "m_currentComponentState ?e = ''kOn''" by code_simp
  have reg: "m_registeredComponents ?e = [''app_a'']" "m_componentPendingConfirms ?e = [''app_a'']"
    by code_simp+
  have "aa_inv (aa_at False ''kOff'' [])" by (rule at_aa_inv) (simp add: component_state_defs)
  from poll_cycle_confirms[of sample_poll_server "''app_a''", OF _ _ _ _ this _ refl] inv st reg
  obtain rep state result app' status s' where r:
    "srv_handle (cc_GetComponentState (fst (ComponentClient_init ''app_a'' K_POLL))) sample_poll_server
       = Inr (rep, sample_poll_server)"
    "cc_GetComponentState_reply rep = Some (state, result)"
    "aa_pollComponentState (state, result) (aa_at False ''kOff'' []) = Inr app'"
    "last (aa_calls app') = AAConfirm state status"
    "srv_handle (cc_ConfirmComponentState state status (fst (ComponentClient_init ''app_a'' K_POLL)))
       sample_poll_server = Inr (RepVoid, s')"
    "aa_componentState app' = ''kOn''" "set (m_componentPendingConfirms (m_em s')) = {}"
    by (auto simp: sample_poll_server_def aa_at_def)
  have "state = ''kOn''" "result = CC_SUCCESS"
    using r(1,2) st reg
    by (auto simp: sample_poll_server_def cc_GetComponentState_def ComponentClient_init_def
        srv_getComponentState_def getComponentState_def c_str_def)
  with r show ?thesis
    by (auto simp: cc_ConfirmComponentState_def ComponentClient_init_def)
qed

text \<open>
  C16. A service that is installed, declared and running counts: if the manifest of an installed
  application declares the process \<open>proc\<close> for a state that the machine manifest declares too, then
  the report Running that this process sends through its client, handled by the server of the
  manager that was built from the manifests, makes a service active that the table allows in that
  state.
\<close>

theorem declared_service_counts:
  assumes "getStatesSupportedByApplication conf readdir fs strtod = Inr tab"
    and "readdir (pathToApplicationsFolder conf) = Inr names"
    and "file \<in> set names - {''.'', ''..''}" "loadApplication conf fs strtod file = Inr m"
    and "declares m st (getServiceName app proc)" "st \<in> set states"
    and "path = dir @ app @ ''/processes/'' @ proc"
    and "CHR ''/'' \<notin> set app" "CHR ''/'' \<notin> set proc" "dir = [] \<or> last dir = CHR ''/''" "dir @ app \<noteq> []"
    and "\<And>c. c \<in> set path \<Longrightarrow> \<not> is_space c \<and> c \<noteq> CHR 0x00" "str_fits (path @ [CHR 0x00])"
    and "readProc (''/proc/'' @ to_string pid @ ''/cmdline'') = Some (path @ [CHR 0x00])"
  shows "\<exists>req s'. ReportApplicationState readProc pid K_RUNNING = Inr req \<and>
           srv_handle req (ExecutionManagerServer_init (ExecutionManager_init tab states) MsmHandler_init) =
             Inr (RepVoid, s') \<and>
           getServiceName app proc \<in> set (m_activeProcesses (m_em s')) \<and>
           getServiceName app proc \<in> allowed (m_allowedProcessesForState (m_em s')) st"
proof -
  let ?s = "ExecutionManagerServer_init (ExecutionManager_init tab states) MsmHandler_init"
  let ?e = "ExecutionManager_init tab states"
  let ?name = "getServiceName app proc"
  from reported_name[where readProc = readProc and pid = pid and st = K_RUNNING, OF assms(7-14)] obtain name where
    name: "ReportApplicationState readProc pid K_RUNNING = Inr (ReqReport name K_RUNNING)" "c_str name = c_str ?name"
    by blast
  have "c_str ?name = ?name"
    by (rule c_str_id) (use assms(7,12) in \<open>auto simp: getServiceName_def\<close>)
  with name have handle: "srv_handle (ReqReport name K_RUNNING) ?s =
      Inr (RepVoid, ?s\<lparr>m_em := ?e\<lparr>m_activeProcesses := set_insert ?name (m_activeProcesses ?e)\<rparr>\<rparr>)"
    using reportApplicationState_defined[of ?name K_RUNNING ?e]
    by (simp add: srv_reportApplicationState_def ExecutionManagerServer_init_def)
  have "?name \<in> allowed (m_allowedProcessesForState ?e) st"
    using table_declares[OF assms(1,2), of st] init_allowed[of tab states st] assms(3-6) by auto
  with name(1) handle show ?thesis by (intro exI conjI) auto
qed

theorem declared_service_counts_witness:
  "\<exists>req s'. ReportApplicationState (\<lambda>_. Some (''/opt/App/processes/proc1'' @ [CHR 0x00])) 42 K_RUNNING = Inr req \<and>
     srv_handle req (ExecutionManagerServer_init
       (ExecutionManager_init [(''Running'', [''App_proc1''])] [''Running'', ''Suspend'']) MsmHandler_init) = Inr (RepVoid, s') \<and>
     ''App_proc1'' \<in> set (m_activeProcesses (m_em s')) \<and>
     ''App_proc1'' \<in> allowed (m_allowedProcessesForState (m_em s')) ''Running''"
proof -
  let ?path = "''/opt/'' @ ''App'' @ ''/processes/'' @ ''proc1''"
  have "list_all (\<lambda>c. \<not> is_space c \<and> c \<noteq> CHR 0x00) ?path" by code_simp
  then have ok: "\<And>c. c \<in> set ?path \<Longrightarrow> \<not> is_space c \<and> c \<noteq> CHR 0x00" unfolding list_all_iff by blast
  have dir: "sample_readdir (pathToApplicationsFolder default_conf) = Inr [''.'', ''..'', ''App'']"
    by (simp add: sample_readdir_def)
  have decl: "declares sample_manifest ''Running'' (getServiceName ''App'' ''proc1'')"
    by (simp add: declares_def sample_manifest_def machineStateFunctionGroup_def)
  have "\<exists>req s'. ReportApplicationState (\<lambda>_. Some (?path @ [CHR 0x00])) 42 K_RUNNING = Inr req \<and>
     srv_handle req (ExecutionManagerServer_init
       (ExecutionManager_init [(''Running'', [''App_proc1''])] [''Running'', ''Suspend'']) MsmHandler_init) = Inr (RepVoid, s') \<and>
     getServiceName ''App'' ''proc1'' \<in> set (m_activeProcesses (m_em s')) \<and>
     getServiceName ''App'' ''proc1'' \<in> allowed (m_allowedProcessesForState (m_em s')) ''Running''"
    by (rule declared_service_counts[OF sample_table dir _ sample_load decl _ refl _ _ _ _ ok]) auto
  then show ?thesis by (simp add: getServiceName_def)
qed

section \<open>Manifests, machine state manager and storage\<close>



end
